(* ===== verification/Prelude.thy ===== *)
theory Prelude
  imports Main "HOL-Library.Word" "HOL-Library.Signed_Division"
begin

text \<open>
  Shared vocabulary of the development: machine types, the outcome of a kernel call and the
  combinators that sequence kernel calls, the first-match scan that the kernel's table loops
  are, C integer wrap-around, and little-endian encodings.

  A kernel call is a function from the state to an outcome. \<open>Ok\<close> is a normal return,
  \<open>Panic\<close> is a call of \<open>panic\<close> in console.c, \<open>Fault\<close> is a processor exception or an access
  that C leaves undefined (division by zero, null dereference, index out of range), \<open>Hang\<close>
  is a loop that never exits, and \<open>Block\<close> says that the calling process gave up the CPU in the
  given state (\<open>sched\<close> in proc.c, called by \<open>sleep\<close>, \<open>yield\<close> and \<open>exit\<close>): the call resumes only
  when the scheduler picks the process again.
\<close>

named_theorems kdefs \<open>definitions of kernel calls that unfold by computation\<close>
named_theorems keeps_intro \<open>preservation rules for kernel calls\<close>

text \<open>Index ranges of counted loops stay folded in the simplifier.\<close>

declare upt_rec_numeral [simp del]

type_synonym u8 = "8 word"
type_synonym u16 = "16 word"
type_synonym u32 = "32 word"

section \<open>Outcomes and sequencing\<close>

datatype ('a, 's) res = Ok 'a 's | Panic string | Fault string | Hang | Block 's

type_synonym ('s, 'a) k = "'s \<Rightarrow> ('a, 's) res"

definition kret :: "'a \<Rightarrow> ('s, 'a) k" where
  "kret x s = Ok x s"

definition kpanic :: "string \<Rightarrow> ('s, 'a) k" where
  "kpanic m s = Panic m"

definition kfault :: "string \<Rightarrow> ('s, 'a) k" where
  "kfault m s = Fault m"

definition kblock :: "('s, 'a) k" where
  "kblock s = Block s"

definition kget :: "('s \<Rightarrow> 'a) \<Rightarrow> ('s, 'a) k" where
  "kget f s = Ok (f s) s"

definition kput :: "('s \<Rightarrow> 's) \<Rightarrow> ('s, unit) k" where
  "kput f s = Ok () (f s)"

definition bindk :: "('s, 'a) k \<Rightarrow> ('a \<Rightarrow> ('s, 'b) k) \<Rightarrow> ('s, 'b) k" where
  "bindk f g s = (case f s of Ok x s' \<Rightarrow> g x s' | Panic m \<Rightarrow> Panic m | Fault m \<Rightarrow> Fault m
                  | Hang \<Rightarrow> Hang | Block s' \<Rightarrow> Block s')"

definition thenk :: "('s, 'a) k \<Rightarrow> ('s, 'b) k \<Rightarrow> ('s, 'b) k" where
  "thenk f g = bindk f (\<lambda>_. g)"

definition whenk :: "bool \<Rightarrow> ('s, unit) k \<Rightarrow> ('s, unit) k" where
  "whenk b f = (if b then f else kret ())"

primrec eachk :: "('b \<Rightarrow> ('s, unit) k) \<Rightarrow> 'b list \<Rightarrow> ('s, unit) k" where
  "eachk f [] = kret ()"
| "eachk f (x # xs) = thenk (f x) (eachk f xs)"

lemma k_run_simps [simp]:
  "kret x s = Ok x s" "kpanic m s = Panic m" "kfault m s = Fault m" "kblock s = Block s"
  "kget f s = Ok (f s) s" "kput h s = Ok () (h s)"
  by (simp_all add: kret_def kpanic_def kfault_def kblock_def kget_def kput_def)

lemma bindk_simps [simp]:
  "f s = Ok x s' \<Longrightarrow> bindk f g s = g x s'"
  "f s = Panic m \<Longrightarrow> bindk f g s = Panic m"
  "f s = Fault m \<Longrightarrow> bindk f g s = Fault m"
  "f s = Hang \<Longrightarrow> bindk f g s = Hang"
  "f s = Block s' \<Longrightarrow> bindk f g s = Block s'"
  by (simp_all add: bindk_def)

lemma thenk_simps [simp]:
  "f s = Ok x s' \<Longrightarrow> thenk f h s = h s'"
  "f s = Panic m \<Longrightarrow> thenk f h s = Panic m"
  "f s = Fault m \<Longrightarrow> thenk f h s = Fault m"
  "f s = Hang \<Longrightarrow> thenk f h s = Hang"
  "f s = Block s' \<Longrightarrow> thenk f h s = Block s'"
  by (simp_all add: thenk_def)

lemma whenk_simps [simp]: "whenk True f = f" "whenk False f = kret ()"
  by (simp_all add: whenk_def)

lemma bindk_eq_Ok:
  "bindk f g s = Ok y t \<longleftrightarrow> (\<exists>x s'. f s = Ok x s' \<and> g x s' = Ok y t)"
  by (auto simp: bindk_def split: res.splits)

lemma thenk_eq_Ok:
  "thenk f g s = Ok y t \<longleftrightarrow> (\<exists>x s'. f s = Ok x s' \<and> g s' = Ok y t)"
  by (simp add: thenk_def bindk_eq_Ok)

lemma bindk_assoc: "bindk (bindk f g) h = bindk f (\<lambda>x. bindk (g x) h)"
  by (rule ext) (simp add: bindk_def split: res.splits)

subsection \<open>Preservation of an invariant\<close>

text \<open>
  \<open>keeps I f\<close>: from a state with \<open>I\<close>, the call \<open>f\<close> leaves a state with \<open>I\<close>, whether it
  returns or goes to sleep.
\<close>

definition keeps :: "('s \<Rightarrow> bool) \<Rightarrow> ('s, 'a) k \<Rightarrow> bool" where
  "keeps I f \<longleftrightarrow> (\<forall>s. I s \<longrightarrow> (case f s of Ok x s' \<Rightarrow> I s' | Block s' \<Rightarrow> I s' | _ \<Rightarrow> True))"

lemma eachk_append: "eachk f (xs @ ys) = thenk (eachk f xs) (eachk f ys)"
  by (rule ext, induction xs) (simp_all add: thenk_def bindk_assoc bindk_def split: res.splits)

lemma keepsI:
  assumes "\<And>s x s'. I s \<Longrightarrow> f s = Ok x s' \<Longrightarrow> I s'"
    and "\<And>s s'. I s \<Longrightarrow> f s = Block s' \<Longrightarrow> I s'"
  shows "keeps I f"
proof -
  have "case f s of Ok x s' \<Rightarrow> I s' | Block s' \<Rightarrow> I s' | _ \<Rightarrow> True" if "I s" for s
    using assms(1) [OF that] assms(2) [OF that] by (cases "f s") simp_all
  then show ?thesis by (simp add: keeps_def)
qed

lemma keeps_run:
  "keeps I f \<Longrightarrow> I s \<Longrightarrow> (case f s of Ok x s' \<Rightarrow> I s' | Block s' \<Rightarrow> I s' | _ \<Rightarrow> True)"
  by (simp add: keeps_def)

lemma keepsD: "keeps I f \<Longrightarrow> I s \<Longrightarrow> f s = Ok x s' \<Longrightarrow> I s'"
  using keeps_run [of I f s] by simp

lemma keepsD_Block: "keeps I f \<Longrightarrow> I s \<Longrightarrow> f s = Block s' \<Longrightarrow> I s'"
  using keeps_run [of I f s] by simp

lemma keeps_ret [keeps_intro]: "keeps I (kret x)"
  by (simp add: keeps_def)

lemma keeps_panic [keeps_intro]: "keeps I (kpanic m)"
  by (simp add: keeps_def)

lemma keeps_fault [keeps_intro]: "keeps I (kfault m)"
  by (simp add: keeps_def)

lemma keeps_block [keeps_intro]: "keeps I kblock"
  by (simp add: keeps_def)

lemma keeps_get [keeps_intro]: "keeps I (kget f)"
  by (simp add: keeps_def)

lemma keeps_put: "(\<And>s. I s \<Longrightarrow> I (f s)) \<Longrightarrow> keeps I (kput f)"
  by (simp add: keeps_def)

lemma keeps_bind [keeps_intro]:
  assumes "keeps I f" and "\<And>x. keeps I (g x)"
  shows "keeps I (bindk f g)"
proof (rule keepsI)
  fix s y t assume I: "I s" and "bindk f g s = Ok y t"
  then obtain x s' where f: "f s = Ok x s'" and g: "g x s' = Ok y t" by (auto simp: bindk_eq_Ok)
  show "I t" using keepsD [OF assms(2) keepsD [OF assms(1) I f] g] .
next
  fix s t assume I: "I s" and b: "bindk f g s = Block t"
  show "I t"
  proof (cases "f s")
    case (Ok x s')
    with b have "g x s' = Block t" by simp
    then show ?thesis using keepsD_Block [OF assms(2) keepsD [OF assms(1) I Ok]] by simp
  next
    case (Block s')
    with b show ?thesis using keepsD_Block [OF assms(1) I Block] by simp
  qed (use b in simp_all)
qed

lemma keeps_then [keeps_intro]: "keeps I f \<Longrightarrow> keeps I g \<Longrightarrow> keeps I (thenk f g)"
  by (simp add: thenk_def keeps_bind)

lemma keeps_if [keeps_intro]:
  "(b \<Longrightarrow> keeps I f) \<Longrightarrow> (\<not> b \<Longrightarrow> keeps I g) \<Longrightarrow> keeps I (if b then f else g)"
  by simp

lemma keeps_when [keeps_intro]: "(b \<Longrightarrow> keeps I f) \<Longrightarrow> keeps I (whenk b f)"
  by (cases b) (simp_all add: keeps_ret)

lemma keeps_option [keeps_intro]:
  "(v = None \<Longrightarrow> keeps I f) \<Longrightarrow> (\<And>x. v = Some x \<Longrightarrow> keeps I (g x)) \<Longrightarrow>
   keeps I (case v of None \<Rightarrow> f | Some x \<Rightarrow> g x)"
  by (cases v) simp_all

lemma keeps_each [keeps_intro]:
  "(\<And>x. x \<in> set xs \<Longrightarrow> keeps I (f x)) \<Longrightarrow> keeps I (eachk f xs)"
  by (induction xs) (simp_all add: keeps_ret keeps_then)

section \<open>Table scans\<close>

text \<open>
  The kernel's tables are arrays scanned from index 0 for the first entry that satisfies a
  condition (\<open>ptable.proc\<close>, \<open>ftable.file\<close>, \<open>icache.inode\<close>, the open files of a
  process). \<open>scan P xs\<close> is the index at which such a loop stops, \<open>None\<close> when it runs off
  the end.
\<close>

primrec scan :: "('a \<Rightarrow> bool) \<Rightarrow> 'a list \<Rightarrow> nat option" where
  "scan P [] = None"
| "scan P (x # xs) = (if P x then Some 0 else map_option Suc (scan P xs))"

lemma scan_Some_iff:
  "scan P xs = Some i \<longleftrightarrow> i < length xs \<and> P (xs ! i) \<and> (\<forall>j < i. \<not> P (xs ! j))"
proof (induction xs arbitrary: i)
  case Nil
  then show ?case by simp
next
  case (Cons x xs)
  show ?case
  proof (cases i)
    case 0
    then show ?thesis by simp
  next
    case (Suc k)
    have "(\<forall>j < Suc k. \<not> P ((x # xs) ! j)) \<longleftrightarrow> \<not> P x \<and> (\<forall>j < k. \<not> P (xs ! j))"
      by (auto simp: less_Suc_eq_0_disj)
    then show ?thesis using Cons.IH [of k] Suc by auto
  qed
qed

lemma scan_None_iff: "scan P xs = None \<longleftrightarrow> (\<forall>x \<in> set xs. \<not> P x)"
  by (induction xs) auto

lemma scan_SomeD:
  "scan P xs = Some i \<Longrightarrow> i < length xs"
  "scan P xs = Some i \<Longrightarrow> P (xs ! i)"
  by (simp_all add: scan_Some_iff)

lemma scan_ex: "i < length xs \<Longrightarrow> P (xs ! i) \<Longrightarrow> \<exists>j. scan P xs = Some j \<and> j \<le> i"
proof -
  assume a: "i < length xs" "P (xs ! i)"
  then obtain j where j: "scan P xs = Some j"
    by (cases "scan P xs") (auto simp: scan_None_iff)
  with a have "\<not> i < j" by (auto simp: scan_Some_iff)
  with j show ?thesis by auto
qed

definition upd :: "nat \<Rightarrow> ('a \<Rightarrow> 'a) \<Rightarrow> 'a list \<Rightarrow> 'a list" where
  "upd i f xs = xs[i := f (xs ! i)]"

lemma length_upd [simp]: "length (upd i f xs) = length xs"
  by (simp add: upd_def)

lemma nth_upd: "j < length xs \<Longrightarrow> upd i f xs ! j = (if j = i then f (xs ! i) else xs ! j)"
  by (auto simp: upd_def nth_list_update)

lemma nth_upd_eq [simp]: "i < length xs \<Longrightarrow> upd i f xs ! i = f (xs ! i)"
  by (simp add: upd_def)

lemma nth_upd_neq [simp]: "i \<noteq> j \<Longrightarrow> upd i f xs ! j = xs ! j"
  by (simp add: upd_def)

lemma upd_upd [simp]: "upd i f (upd i g xs) = upd i (\<lambda>x. f (g x)) xs"
  by (cases "i < length xs") (simp_all add: upd_def list_update_beyond)

lemma upd_cong: "f (xs ! i) = g (xs ! i) \<Longrightarrow> upd i f xs = upd i g xs"
  by (simp add: upd_def)

lemma upd_keeps_field:
  "i < length xs \<Longrightarrow> (\<And>x. f (g x) = f x) \<Longrightarrow> f (upd c g xs ! i) = f (xs ! i)"
  by (simp add: nth_upd)

text \<open>A counted loop \<open>for (j = a; j < c; j++)\<close> is a fold over the index range; an invariant
  that each pass carries from \<open>j\<close> to \<open>j + 1\<close> holds at the end.\<close>

lemma fold_upt_inv:
  assumes "a \<le> c" and "P a x" and "\<And>j y. a \<le> j \<Longrightarrow> j < c \<Longrightarrow> P j y \<Longrightarrow> P (Suc j) (f j y)"
  shows "P c (fold f [a..<c] x)"
  using assms
proof (induction "c - a" arbitrary: c)
  case 0
  then show ?case by simp
next
  case (Suc n)
  then obtain d where c: "c = Suc d" and ad: "a \<le> d" by (cases c) auto
  have "P d (fold f [a..<d] x)" using Suc c ad by simp
  then have "P (Suc d) (f d (fold f [a..<d] x))" using Suc.prems(3) c ad by simp
  then show ?case using c ad by simp
qed

section \<open>C integers\<close>

text \<open>A C \<open>int\<close> is an \<open>int\<close> kept in range by \<open>s32\<close>, the two's complement wrap-around of the
  x86 \<open>add\<close> and \<open>imul\<close>; an \<open>unsigned\<close> value is a \<open>32 word\<close> or a \<open>nat\<close> with the
  reduction written out by \<open>n32\<close>.\<close>

definition s32 :: "int \<Rightarrow> int" where
  "s32 x = (x + 2 ^ 31) mod 2 ^ 32 - 2 ^ 31"

definition n32 :: "nat \<Rightarrow> nat" where
  "n32 n = n mod 2 ^ 32"

lemma s32_id: "- (2 ^ 31) \<le> x \<Longrightarrow> x < 2 ^ 31 \<Longrightarrow> s32 x = x"
  by (simp add: s32_def)

lemma s32_range: "- (2 ^ 31) \<le> s32 x" "s32 x < 2 ^ 31"
  by (simp_all add: s32_def pos_mod_bound [of "2 ^ 32", simplified] algebra_simps)

lemma s32_s32_add [simp]: "s32 (s32 x + y) = s32 (x + y)"
proof -
  have "((x + 2 ^ 31) mod 2 ^ 32 - 2 ^ 31 + y + 2 ^ 31) mod 2 ^ 32
      = ((x + 2 ^ 31) mod 2 ^ 32 + y) mod 2 ^ 32"
    by (simp add: algebra_simps)
  also have "\<dots> = (x + y + 2 ^ 31) mod (2 ^ 32 :: int)"
    by (subst mod_add_left_eq) (simp add: algebra_simps)
  finally show ?thesis by (simp add: s32_def)
qed

text \<open>Signed division truncates towards zero; \<open>idiv\<close> raises a divide error on a zero divisor and on
  the quotient that does not fit.\<close>

definition idiv32 :: "int \<Rightarrow> int \<Rightarrow> int option" where
  "idiv32 a b = (if b = 0 \<or> a = - (2 ^ 31) \<and> b = - 1 then None else Some (a sdiv b))"

lemma idiv32_pos: "0 \<le> a \<Longrightarrow> 0 < b \<Longrightarrow> idiv32 a b = Some (a div b)"
  by (auto simp: idiv32_def signed_divide_int_def sgn_if)

lemma sint_small:
  assumes "unat (w :: u32) < 2 ^ 31"
  shows "sint w = int (unat w)"
proof -
  have u: "uint w = int (unat w)" by simp
  have "sint w = take_bit 32 (int (unat w) + 2 ^ 31) - 2 ^ 31"
    unfolding sint_uint u by (simp add: signed_take_bit_eq_take_bit_shift del: of_nat_unat)
  also have "take_bit 32 (int n + 2 ^ 31) = int n + 2 ^ 31" if "n < 2 ^ 31" for n
    using that by (intro take_bit_int_eq_self) simp_all
  note this [OF assms]
  finally show ?thesis by simp
qed

lemma unat_of_nat32: "n < 2 ^ 32 \<Longrightarrow> unat (word_of_nat n :: u32) = n"
  by (simp add: unsigned_of_nat take_bit_nat_eq_self)

lemma n32_id: "n < 2 ^ 32 \<Longrightarrow> n32 n = n"
  by (simp add: n32_def)

lemma n32_less [simp]: "n32 n < 2 ^ 32"
  by (simp add: n32_def)

section \<open>Splitting a list at an element\<close>

primrec split_on :: "'a \<Rightarrow> 'a list \<Rightarrow> 'a list list" where
  "split_on c [] = [[]]"
| "split_on c (x # xs) = (if x = c then [] # split_on c xs else (x # hd (split_on c xs)) # tl (split_on c xs))"

lemma split_on_unfold:
  "split_on c xs = takeWhile (\<lambda>x. x \<noteq> c) xs # (case dropWhile (\<lambda>x. x \<noteq> c) xs of [] \<Rightarrow> [] | _ # ys \<Rightarrow> split_on c ys)"
  by (induction xs) auto

text \<open>Putting the parts together again gives the list, so that no byte is lost.\<close>

lemma split_on_join: "concat (map (\<lambda>p. c # p) (split_on c xs)) = c # xs \<and> (\<forall>p \<in> set (split_on c xs). c \<notin> set p)"
proof (induction xs)
  case (Cons x xs)
  then show ?case by (cases "split_on c xs") auto
qed simp

lemma split_on_neq_Nil [simp]: "split_on c xs \<noteq> []"
  by (cases xs) auto

lemma split_on_append: "split_on c (xs @ ys) = butlast (split_on c xs) @ split_on c (last (split_on c xs) @ ys)"
proof (induction xs)
  case (Cons x xs)
  then show ?case by (cases "split_on c xs"; cases "tl (split_on c xs)") auto
qed simp

lemma split_on_single: "c \<notin> set xs \<Longrightarrow> split_on c xs = [xs]"
  by (induction xs) auto

lemma split_on_sep: "c \<notin> set xs \<Longrightarrow> split_on c (xs @ c # ys) = xs # split_on c ys"
  by (induction xs) auto

lemma last_split_on:
  assumes "c \<notin> set ys"
  shows "last (split_on c (xs @ c # ys)) = ys"
proof -
  have "last (split_on c xs) \<in> set (split_on c xs)" by simp
  then have "c \<notin> set (last (split_on c xs))" using split_on_join by metis
  then have "split_on c (xs @ c # ys) = butlast (split_on c xs) @ [last (split_on c xs), ys]"
    unfolding split_on_append [of c xs] using assms by (simp add: split_on_sep split_on_single)
  then show ?thesis by simp
qed

end
