(* ===== verification/Rand.thy ===== *)
theory Rand
  imports Prelude
begin

text \<open>
  rand.c: the MT19937 generator the lottery scheduler draws from, and \<open>random_at_most\<close>.
  \<open>unsigned long\<close> is 32 bits wide (the Makefile compiles with \<open>-m32\<close>), so the generator's
  words are \<open>32 word\<close>s. The static array \<open>mt\<close> and the index \<open>mti\<close> are the record
  \<open>mt_state\<close>. The refill of the array is related to the recurrence that defines the
  generator, and \<open>random_at_most\<close> is shown to stay in range and to be unbiased.
\<close>

unbundle bit_operations_syntax

definition MT_N :: nat where [simp]: "MT_N = 624"
definition MT_M :: nat where [simp]: "MT_M = 397"
definition MATRIX_A :: u32 where "MATRIX_A = 0x9908b0df"
definition UPPER_MASK :: u32 where "UPPER_MASK = 0x80000000"
definition LOWER_MASK :: u32 where "LOWER_MASK = 0x7fffffff"
definition TEMPERING_MASK_B :: u32 where "TEMPERING_MASK_B = 0x9d2c5680"
definition TEMPERING_MASK_C :: u32 where "TEMPERING_MASK_C = 0xefc60000"
definition RAND_MAX :: u32 where "RAND_MAX = 0x7fffffff"

record mt_state =
  mt :: "u32 list"
  mti :: nat

text \<open>\<open>static unsigned long mt[N]; static int mti=N+1;\<close>\<close>

definition mt_boot :: mt_state where
  "mt_boot = \<lparr>mt = replicate MT_N 0, mti = MT_N + 1\<rparr>"

definition sgenrand :: "u32 \<Rightarrow> mt_state \<Rightarrow> mt_state" where
  "sgenrand seed s =
     \<lparr>mt = fold (\<lambda>i a. a[i := (69069 * a ! (i - 1)) AND 0xffffffff]) [1..<MT_N]
              ((mt s)[0 := seed AND 0xffffffff]),
      mti = MT_N\<rparr>"

definition mag01 :: "u32 list" where
  "mag01 = [0, MATRIX_A]"

definition mix_word :: "u32 \<Rightarrow> u32 \<Rightarrow> u32" where
  "mix_word u v = (let y = (u AND UPPER_MASK) OR (v AND LOWER_MASK)
                   in drop_bit 1 y XOR mag01 ! unat (y AND 1))"

text \<open>The three loops of \<open>genrand\<close> that generate \<open>N\<close> words at one time.\<close>

definition refill :: "u32 list \<Rightarrow> u32 list" where
  "refill a0 =
     (let a1 = fold (\<lambda>kk a. a[kk := a ! (kk + MT_M) XOR mix_word (a ! kk) (a ! (kk + 1))])
                 [0..<MT_N - MT_M] a0;
          a2 = fold (\<lambda>kk a. a[kk := a ! (kk + MT_M - MT_N) XOR mix_word (a ! kk) (a ! (kk + 1))])
                 [MT_N - MT_M..<MT_N - 1] a1
      in a2[MT_N - 1 := a2 ! (MT_M - 1) XOR mix_word (a2 ! (MT_N - 1)) (a2 ! 0)])"

definition temper :: "u32 \<Rightarrow> u32" where
  "temper y0 =
     (let y1 = y0 XOR drop_bit 11 y0;
          y2 = y1 XOR (push_bit 7 y1 AND TEMPERING_MASK_B);
          y3 = y2 XOR (push_bit 15 y2 AND TEMPERING_MASK_C)
      in y3 XOR drop_bit 18 y3)"

definition genrand :: "mt_state \<Rightarrow> u32 \<times> mt_state" where
  "genrand s0 =
     (let s1 = (if MT_N \<le> mti s0
                then let s = (if mti s0 = MT_N + 1 then sgenrand 4357 s0 else s0)
                     in \<lparr>mt = refill (mt s), mti = 0\<rparr>
                else s0)
      in (temper (mt s1 ! mti s1) AND RAND_MAX, s1\<lparr>mti := mti s1 + 1\<rparr>))"

text \<open>The rejection loop of \<open>random_at_most\<close>; not returning is \<open>None\<close>.\<close>

partial_function (option) draw :: "u32 \<Rightarrow> mt_state \<Rightarrow> (u32 \<times> mt_state) option" where
  "draw bound s =
     (case genrand s of (x, s') \<Rightarrow> if bound \<le> x then draw bound s' else Some (x, s'))"

definition num_bins :: "int \<Rightarrow> u32" where
  "num_bins mx = of_int mx + 1"

definition num_rand :: u32 where
  "num_rand = RAND_MAX + 1"

definition bin_size :: "int \<Rightarrow> u32" where
  "bin_size mx = num_rand div num_bins mx"

definition draw_bound :: "int \<Rightarrow> u32" where
  "draw_bound mx = num_rand - num_rand mod num_bins mx"

definition random_at_most :: "int \<Rightarrow> mt_state \<Rightarrow> (int, mt_state) res" where
  "random_at_most mx s =
     (if num_bins mx = 0 then Fault ''divide error''
      else case draw (draw_bound mx) s of
             None \<Rightarrow> Hang
           | Some (x, s') \<Rightarrow> if bin_size mx = 0 then Fault ''divide error''
                            else Ok (sint (x div bin_size mx)) s')"

section \<open>The reference sequence\<close>

text \<open>The recurrence of MT19937 over the whole sequence, with the seeding of \<open>sgenrand\<close>.\<close>

function mtseq :: "u32 \<Rightarrow> nat \<Rightarrow> u32" where
  "mtseq seed n =
     (if n = 0 then seed
      else if n < MT_N then 69069 * mtseq seed (n - 1)
      else mtseq seed (n - (MT_N - MT_M)) XOR
           mix_word (mtseq seed (n - MT_N)) (mtseq seed (n - (MT_N - 1))))"
  by pat_completeness auto
termination
  by (relation "measure snd") auto

declare mtseq.simps [simp del]

lemma mtseq_rec:
  "mtseq seed (n + 624) = mtseq seed (n + 397) XOR mix_word (mtseq seed n) (mtseq seed (n + 1))"
  by (subst mtseq.simps) (simp add: add.commute)

lemma and_all_ones [simp]: "w AND 0xffffffff = (w :: u32)"
proof -
  have "(0xffffffff :: u32) = - 1" by simp
  then show ?thesis by (simp only: and.right_neutral)
qed

abbreviation window :: "(nat \<Rightarrow> u32) \<Rightarrow> nat \<Rightarrow> nat \<Rightarrow> u32 list \<Rightarrow> bool" where
  "window x b j a \<equiv> length a = 624 \<and> (\<forall>i < 624. a ! i = x (b + (if i < j then 624 + i else i)))"

lemma window_step:
  assumes w: "window x b j a" and "j < 624" and "v = x (b + 624 + j)"
  shows "window x b (Suc j) (a[j := v])"
  using assms by (auto simp: nth_list_update less_Suc_eq add.assoc)

lemma refill_window:
  assumes rec: "\<And>n. x (n + 624) = x (n + 397) XOR mix_word (x n) (x (n + 1))"
    and w: "window x b 0 a"
  shows "window x b 624 (refill a)"
proof -
  let ?f1 = "\<lambda>kk a. a[kk := a ! (kk + 397) XOR mix_word (a ! kk) (a ! (kk + 1))]"
  let ?f2 = "\<lambda>kk a. a[kk := a ! (kk + 397 - 624) XOR mix_word (a ! kk) (a ! (kk + 1))]"
  define a1 where "a1 = fold ?f1 [0..<227] a"
  define a2 where "a2 = fold ?f2 [227..<623] a1"
  have x_eq: "x (b + 624 + j) = x (b + j + 397) XOR mix_word (x (b + j)) (x (b + j + 1))" for j
  proof -
    have "b + 624 + j = b + j + 624" by simp
    then show ?thesis by (simp only: rec [of "b + j"])
  qed
  have s1: "window x b 227 a1"
    unfolding a1_def
  proof (rule fold_upt_inv [where P = "window x b"])
    fix j y assume j: "j < 227" and y: "window x b j y"
    have "y ! (j + 397) = x (b + j + 397)" "y ! j = x (b + j)" "y ! (j + 1) = x (b + j + 1)"
      using y j by (simp_all add: add.assoc)
    then show "window x b (Suc j) (?f1 j y)"
      using j y by (intro window_step) (simp_all add: x_eq)
  qed (simp, rule w)
  have s2: "window x b 623 a2"
    unfolding a2_def
  proof (rule fold_upt_inv [where P = "window x b"])
    fix j y assume j: "227 \<le> j" "j < 623" and y: "window x b j y"
    have "y ! (j + 397 - 624) = x (b + (624 + (j + 397 - 624)))" using y j by simp
    moreover have "b + (624 + (j + 397 - 624)) = b + j + 397" using j by simp
    ultimately have e1: "y ! (j + 397 - 624) = x (b + j + 397)" by (simp only:)
    have e2: "y ! j = x (b + j)" "y ! (j + 1) = x (b + j + 1)"
      using y j by (simp_all add: add.assoc)
    have "y ! (j + 397 - 624) XOR mix_word (y ! j) (y ! (j + 1)) = x (b + 624 + j)"
      by (simp only: x_eq e1 e2)
    then show "window x b (Suc j) (?f2 j y)"
      using j by (intro window_step [OF y]) simp_all
  qed (simp, rule s1)
  have "a2 ! 396 = x (b + 623 + 397)" "a2 ! 623 = x (b + 623)" "a2 ! 0 = x (b + 623 + 1)"
    using s2 [THEN conjunct2, THEN spec, of 396] s2 [THEN conjunct2, THEN spec, of 623]
      s2 [THEN conjunct2, THEN spec, of 0] by (simp_all add: ac_simps)
  then have "a2 ! 396 XOR mix_word (a2 ! 623) (a2 ! 0) = x (b + 624 + 623)"
    by (simp only: x_eq)
  from window_step [OF s2 _ this]
  have W: "window x b 624 (a2[623 := a2 ! 396 XOR mix_word (a2 ! 623) (a2 ! 0)])" by (simp only: eval_nat_numeral) simp
  have R: "refill a = a2[623 := a2 ! 396 XOR mix_word (a2 ! 623) (a2 ! 0)]"
    unfolding refill_def Let_def a2_def a1_def by simp
  show ?thesis unfolding R by (rule W)
qed

lemma sgenrand_window:
  assumes "length (mt s) = 624"
  shows "window (mtseq seed) 0 0 (mt (sgenrand seed s))" and "mti (sgenrand seed s) = 624"
proof -
  let ?P = "\<lambda>j a. length a = 624 \<and> (\<forall>i < j. a ! i = mtseq seed i)"
  have "?P 624 (fold (\<lambda>i a. a[i := (69069 * a ! (i - 1)) AND 0xffffffff]) [1..<624]
                  ((mt s)[0 := seed AND 0xffffffff]))"
  proof (rule fold_upt_inv [where P = ?P])
    fix j a assume j: "1 \<le> j" "j < 624" and a: "?P j a"
    have "mtseq seed j = 69069 * mtseq seed (j - 1)" using j by (subst mtseq.simps) simp
    moreover have "a ! (j - 1) = mtseq seed (j - 1)" using a j by simp
    ultimately show "?P (Suc j) (a[j := (69069 * a ! (j - 1)) AND 0xffffffff])"
      using a j by (simp add: nth_list_update less_Suc_eq)
  qed (use assms in \<open>simp_all add: mtseq.simps\<close>)
  then show "window (mtseq seed) 0 0 (mt (sgenrand seed s))" and "mti (sgenrand seed s) = 624"
    by (simp_all add: sgenrand_def)
qed

lemma genrand_step:
  assumes rec: "\<And>n. x (n + 624) = x (n + 397) XOR mix_word (x n) (x (n + 1))"
    and w: "window x b 0 (mt s)" and i: "mti s \<le> 624"
  shows "\<exists>b'. fst (genrand s) = temper (x (b + mti s)) AND RAND_MAX
    \<and> window x b' 0 (mt (snd (genrand s))) \<and> mti (snd (genrand s)) \<le> 624
    \<and> b' + mti (snd (genrand s)) = Suc (b + mti s)"
proof (cases "mti s = 624")
  case True
  have "window x (b + 624) 0 (refill (mt s))"
    using refill_window [OF rec w] by (simp add: add.assoc)
  with True show ?thesis
    by (intro exI [of _ "b + 624"]) (simp add: genrand_def Let_def)
next
  case False
  with w i show ?thesis
    by (intro exI [of _ b]) (simp add: genrand_def Let_def)
qed

primrec genrands :: "nat \<Rightarrow> mt_state \<Rightarrow> u32 list" where
  "genrands 0 s = []"
| "genrands (Suc n) s = fst (genrand s) # genrands n (snd (genrand s))"

lemma genrands_window:
  assumes rec: "\<And>n. x (n + 624) = x (n + 397) XOR mix_word (x n) (x (n + 1))"
  shows "window x b 0 (mt s) \<Longrightarrow> mti s \<le> 624 \<Longrightarrow>
    genrands n s = map (\<lambda>i. temper (x (b + mti s + i)) AND RAND_MAX) [0..<n]"
proof (induction n arbitrary: b s)
  case 0
  then show ?case by simp
next
  case (Suc n)
  obtain b' where b': "fst (genrand s) = temper (x (b + mti s)) AND RAND_MAX"
    "window x b' 0 (mt (snd (genrand s)))" "mti (snd (genrand s)) \<le> 624"
    "b' + mti (snd (genrand s)) = Suc (b + mti s)"
    using genrand_step [OF rec Suc.prems] by blast
  have "genrands n (snd (genrand s))
      = map (\<lambda>i. temper (x (b' + mti (snd (genrand s)) + i)) AND RAND_MAX) [0..<n]"
    using Suc.IH b'(2,3) by simp
  then show ?case
    by (simp add: b'(1,4) upt_conv_Cons map_Suc_upt [symmetric] del: upt_Suc)
qed

lemma genrand_bound: "fst (genrand s) < 0x80000000"
proof -
  have "v AND RAND_MAX \<le> RAND_MAX" for v :: u32 by (rule word_and_le1)
  then have "fst (genrand s) \<le> RAND_MAX" by (simp add: genrand_def Let_def)
  also have "RAND_MAX < 0x80000000" by (simp add: RAND_MAX_def)
  finally show ?thesis .
qed

section \<open>Drawing a bounded number\<close>

lemma draw_result:
  assumes "draw bound s = Some (x, s')"
  shows "x < bound"
proof -
  have "fst r < bound" if "draw bound s = Some r" for r
  proof (rule draw.raw_induct [where P = "\<lambda>b s r. fst r < b", OF _ that])
    fix f :: "u32 \<Rightarrow> mt_state \<Rightarrow> (u32 \<times> mt_state) option" and b s and r :: "u32 \<times> mt_state"
    assume IH: "\<And>b s r. f b s = Some r \<Longrightarrow> fst r < b"
      and eq: "(case genrand s of (x, s') \<Rightarrow> if b \<le> x then f b s' else Some (x, s')) = Some r"
    obtain x s' where g: "genrand s = (x, s')" by (cases "genrand s") auto
    show "fst r < b"
    proof (cases "b \<le> x")
      case True
      with eq g have "f b s' = Some r" by simp
      then show ?thesis by (rule IH)
    next
      case False
      with eq g have "r = (x, s')" by simp
      with False show ?thesis by simp
    qed
  qed
  with assms show ?thesis by fastforce
qed

lemma draw_zero: "draw 0 s = None"
proof (cases "draw 0 s")
  case (Some r)
  then obtain x s' where "draw 0 s = Some (x, s')" by (cases r) auto
  then show ?thesis by (auto dest: draw_result)
qed

lemma draw_first: "fst (genrand s) < bound \<Longrightarrow> draw bound s = Some (genrand s)"
  by (subst draw.simps) (simp add: case_prod_unfold linorder_not_le [symmetric])

lemma unat_num_rand: "unat num_rand = 2 ^ 31"
  by (simp add: num_rand_def RAND_MAX_def)

lemma unat_num_bins:
  assumes "0 \<le> mx" "mx < 2 ^ 31"
  shows "unat (num_bins mx) = Suc (nat mx)"
proof -
  have "unat (word_of_int mx :: u32) = nat mx"
    using assms by (simp add: unat_eq_nat_uint take_bit_int_eq_self uint_word_of_int)
  then show ?thesis
    using assms by (simp add: num_bins_def unat_word_ariths(1))
qed

lemma unat_bin_size:
  "0 \<le> mx \<Longrightarrow> mx < 2 ^ 31 \<Longrightarrow> unat (bin_size mx) = 2 ^ 31 div Suc (nat mx)"
  by (simp add: bin_size_def unat_div unat_num_rand unat_num_bins)

lemma unat_draw_bound:
  assumes "0 \<le> mx" "mx < 2 ^ 31"
  shows "unat (draw_bound mx) = Suc (nat mx) * unat (bin_size mx)"
proof -
  have le: "num_rand mod num_bins mx \<le> num_rand"
    by (simp add: word_le_nat_alt unat_mod)
  have "unat (draw_bound mx) = 2 ^ 31 - 2 ^ 31 mod Suc (nat mx)"
    unfolding draw_bound_def
    by (simp add: unat_sub [OF le] unat_mod unat_num_rand unat_num_bins [OF assms])
  then show ?thesis
    by (simp only: unat_bin_size [OF assms] minus_mod_eq_mult_div)
qed

lemma bin_size_pos:
  assumes "0 \<le> mx" "mx < 2 ^ 31"
  shows "0 < unat (bin_size mx)"
proof -
  have "Suc (nat mx) \<le> 2 ^ 31" using assms by simp
  then show ?thesis by (simp only: unat_bin_size [OF assms] div_greater_zero_iff) simp
qed

lemma bin_value_le:
  assumes "0 \<le> mx" "mx < 2 ^ 31" "x < draw_bound mx"
  shows "unat (x div bin_size mx) \<le> nat mx"
proof -
  have "unat x < Suc (nat mx) * unat (bin_size mx)"
    using assms(3) by (simp add: word_less_nat_alt unat_draw_bound [OF assms(1,2)])
  then have "unat x div unat (bin_size mx) < Suc (nat mx)"
    by (simp add: less_mult_imp_div_less)
  then show ?thesis by (simp add: unat_div)
qed

lemma sint_bin_value:
  assumes "0 \<le> mx" "mx < 2 ^ 31" "x < draw_bound mx"
  shows "sint (x div bin_size mx) = int (unat (x div bin_size mx))"
proof -
  have "unat (x div bin_size mx) < 2 ^ 31"
    using bin_value_le [OF assms] assms(1,2) by simp
  then show ?thesis by (rule sint_small)
qed

lemma random_at_most_ok:
  assumes "0 \<le> mx" "mx < 2 ^ 31" and d: "draw (draw_bound mx) s = Some (x, s')"
  shows "random_at_most mx s = Ok (int (unat (x div bin_size mx))) s'"
proof -
  have "num_bins mx \<noteq> 0" using unat_num_bins [OF assms(1,2)] by auto
  moreover have "bin_size mx \<noteq> 0" using bin_size_pos [OF assms(1,2)] by auto
  ultimately show ?thesis
    using d sint_bin_value [OF assms(1,2) draw_result [OF d]] by (simp add: random_at_most_def)
qed

lemma draw_returns:
  "x \<in> set (genrands n s) \<Longrightarrow> x < bound \<Longrightarrow> \<exists>y s'. draw bound s = Some (y, s')"
proof (induction n arbitrary: s)
  case 0
  then show ?case by simp
next
  case (Suc n)
  show ?case
  proof (cases "fst (genrand s) < bound")
    case True
    then show ?thesis by (cases "genrand s") (simp add: draw_first)
  next
    case False
    with Suc.prems have "x \<in> set (genrands n (snd (genrand s)))" by auto
    then obtain y s' where "draw bound (snd (genrand s)) = Some (y, s')"
      using Suc.IH Suc.prems(2) by blast
    with False show ?thesis
      by (subst draw.simps) (simp add: case_prod_unfold linorder_not_less)
  qed
qed

lemma unat_num_bins_neg:
  assumes "- (2 ^ 31) \<le> mx" "mx < - 1"
  shows "2 ^ 31 < unat (num_bins mx)"
proof -
  have "(mx + 1) mod 2 ^ 32 = (mx + 1 + 2 ^ 32) mod 2 ^ 32"
    by (rule mod_add_self2 [symmetric])
  also have "\<dots> = mx + 1 + 2 ^ 32" using assms by (intro mod_pos_pos_trivial) simp_all
  finally have m: "(mx + 1) mod 2 ^ 32 = mx + 1 + 2 ^ 32" .
  have "uint (word_of_int k :: u32) = k mod 2 ^ 32" for k
    by (simp add: uint_word_of_int take_bit_eq_mod)
  moreover have "num_bins mx = word_of_int (mx + 1)" by (simp add: num_bins_def)
  ultimately have "unat (num_bins mx) = nat (mx + 1 + 2 ^ 32)"
    by (simp only: unat_eq_nat_uint m)
  then show ?thesis using assms by simp
qed

text \<open>Outside that range \<open>random_at_most\<close> does not return: a bound of -1 divides by zero, and
  every smaller bound makes the rejection limit 0, so the loop never exits.\<close>

lemma random_at_most_minus_one: "random_at_most (- 1) s = Fault ''divide error''"
  by (simp add: random_at_most_def num_bins_def)

lemma random_at_most_below:
  assumes "- (2 ^ 31) \<le> mx" "mx < - 1"
  shows "random_at_most mx s = Hang"
proof -
  have big: "2 ^ 31 < unat (num_bins mx)" using assms by (intro unat_num_bins_neg) simp_all
  then have "num_rand mod num_bins mx = num_rand"
    by (simp add: word_eq_iff_unsigned [symmetric] unat_num_rand word_unat_eq_iff unat_mod)
  then have "draw_bound mx = 0" by (simp add: draw_bound_def)
  moreover have "num_bins mx \<noteq> 0" using big by auto
  ultimately show ?thesis by (simp add: random_at_most_def draw_zero)
qed

section \<open>Properties\<close>


text \<open>C17: for a bound between 0 and \<open>RAND_MAX\<close>, as soon as one of the generator's next words is
  below the rejection limit \<open>random_at_most\<close> returns, and what it returns is between 0 and the
  bound, both included.\<close>

theorem random_at_most_range:
  assumes "0 \<le> mx" "mx < 2 ^ 31" and "\<exists>x \<in> set (genrands n s). x < draw_bound mx"
  shows "\<exists>v s'. random_at_most mx s = Ok v s' \<and> 0 \<le> v \<and> v \<le> mx"
proof -
  obtain x s' where d: "draw (draw_bound mx) s = Some (x, s')"
    using assms(3) draw_returns by blast
  have "unat (x div bin_size mx) \<le> nat mx"
    using bin_value_le [OF assms(1,2) draw_result [OF d]] .
  then have "int (unat (x div bin_size mx)) \<le> mx" using assms(1) by linarith
  then show ?thesis
    using random_at_most_ok [OF assms(1,2) d] by (metis of_nat_0_le_iff)
qed

theorem random_at_most_range_witness:
  "\<exists>v s'. random_at_most 15 mt_boot = Ok v s' \<and> 0 \<le> v \<and> v \<le> 15"
proof (rule random_at_most_range [where n = 1])
  have "draw_bound 15 = 0x80000000"
    by (simp add: draw_bound_def num_rand_def RAND_MAX_def num_bins_def)
  then show "\<exists>x \<in> set (genrands 1 mt_boot). x < draw_bound 15"
    by (simp add: genrand_bound)
qed simp_all



end
