(* ===== verification/Params.thy ===== *)
theory Params
  imports Prelude
begin

text \<open>The constants of param.h, fs.h, mmu.h and memlayout.h that the components share.\<close>

definition NPROC :: nat where [simp]: "NPROC = 64"
definition KSTACKSIZE :: nat where [simp]: "KSTACKSIZE = 4096"
definition NCPU :: nat where [simp]: "NCPU = 8"
definition NOFILE :: nat where [simp]: "NOFILE = 16"
definition NFILE :: nat where [simp]: "NFILE = 100"
definition NINODE :: nat where [simp]: "NINODE = 50"
definition NDEV :: nat where [simp]: "NDEV = 10"
definition ROOTDEV :: nat where [simp]: "ROOTDEV = 1"
definition MAXARG :: nat where [simp]: "MAXARG = 32"
definition MAXOPBLOCKS :: nat where [simp]: "MAXOPBLOCKS = 10"
definition LOGSIZE :: nat where [simp]: "LOGSIZE = MAXOPBLOCKS * 3"
definition NBUF :: nat where [simp]: "NBUF = MAXOPBLOCKS * 3"
definition FSSIZE :: nat where [simp]: "FSSIZE = 1000"
definition INTERV :: int where [simp]: "INTERV = 5"

definition BSIZE :: nat where [simp]: "BSIZE = 512"

definition EXTMEM :: nat where [simp]: "EXTMEM = 0x100000"
definition PHYSTOP :: nat where [simp]: "PHYSTOP = 0xE000000"
definition DEVSPACE :: nat where [simp]: "DEVSPACE = 0xFE000000"
definition KERNBASE :: nat where [simp]: "KERNBASE = 0x80000000"
definition KERNLINK :: nat where [simp]: "KERNLINK = KERNBASE + EXTMEM"

text \<open>\<open>V2P\<close> and \<open>P2V\<close> are subtraction and addition of \<open>KERNBASE\<close> on 32-bit addresses.\<close>

definition V2P :: "nat \<Rightarrow> nat" where
  "V2P a = n32 (a + (2 ^ 32 - KERNBASE))"

definition P2V :: "nat \<Rightarrow> nat" where
  "P2V a = n32 (a + KERNBASE)"

definition PGSIZE :: nat where [simp]: "PGSIZE = 4096"

text \<open>\<open>PGROUNDUP\<close> and \<open>PGROUNDDOWN\<close> mask the low twelve bits; the sum in \<open>PGROUNDUP\<close> wraps.\<close>

definition PGROUNDDOWN :: "nat \<Rightarrow> nat" where
  "PGROUNDDOWN a = a - a mod PGSIZE"

definition PGROUNDUP :: "nat \<Rightarrow> nat" where
  "PGROUNDUP sz = PGROUNDDOWN (n32 (sz + PGSIZE - 1))"

lemma V2P_kva: "KERNBASE \<le> a \<Longrightarrow> a < 2 ^ 32 \<Longrightarrow> V2P a = a - KERNBASE"
  by (simp add: V2P_def n32_def mod_if)

lemma P2V_V2P: "KERNBASE \<le> a \<Longrightarrow> a < 2 ^ 32 \<Longrightarrow> P2V (V2P a) = a"
proof -
  assume a: "KERNBASE \<le> a" "a < 2 ^ 32"
  have "V2P a = a - KERNBASE" using a by (rule V2P_kva)
  then show ?thesis using a by (simp add: P2V_def n32_def)
qed

lemma V2P_P2V: "a < 2 ^ 32 - KERNBASE \<Longrightarrow> V2P (P2V a) = a"
  by (simp add: V2P_def P2V_def n32_def)

lemma PGROUNDDOWN_aligned [simp]: "PGROUNDDOWN a mod PGSIZE = 0"
  by (simp add: PGROUNDDOWN_def minus_mod_eq_mult_div)

lemma PGROUNDDOWN_le: "PGROUNDDOWN a \<le> a" "a < PGROUNDDOWN a + PGSIZE"
proof -
  show "PGROUNDDOWN a \<le> a" by (simp add: PGROUNDDOWN_def)
  have "a mod 4096 < 4096" by simp
  then show "a < PGROUNDDOWN a + PGSIZE"
    unfolding PGROUNDDOWN_def PGSIZE_def by linarith
qed

lemma PGROUNDUP_aligned [simp]: "PGROUNDUP a mod PGSIZE = 0"
  by (simp only: PGROUNDUP_def PGROUNDDOWN_aligned)

lemma PGROUNDUP_bounds:
  assumes "a \<le> 2 ^ 32 - PGSIZE"
  shows "a \<le> PGROUNDUP a" and "PGROUNDUP a < a + PGSIZE"
proof -
  have w: "n32 (a + PGSIZE - 1) = a + PGSIZE - 1" using assms by (simp add: n32_def)
  show "a \<le> PGROUNDUP a" and "PGROUNDUP a < a + PGSIZE"
    using PGROUNDDOWN_le [of "a + PGSIZE - 1"] unfolding PGROUNDUP_def w by simp_all
qed

lemma PGROUNDUP_id: "a mod PGSIZE = 0 \<Longrightarrow> a + PGSIZE \<le> 2 ^ 32 \<Longrightarrow> PGROUNDUP a = a"
proof -
  assume a: "a mod PGSIZE = 0" "a + PGSIZE \<le> 2 ^ 32"
  then obtain k where "a = 4096 * k" by auto
  then have "(4095 + a) mod 4096 = 4095" by simp
  then show ?thesis using a by (simp add: PGROUNDUP_def PGROUNDDOWN_def n32_def)
qed

end
