(* ===== verification/Spinlock.thy ===== *)
theory Spinlock
  imports Params
begin

text \<open>
  spinlock.c, with \<open>mycpu\<close> of proc.c: spin locks and interrupt nesting on a machine with
  several CPUs. The record \<open>machine\<close> holds the \<open>cpus\<close> array of mp.c (the fields that
  locking uses), the interrupt flag of each processor, the local APIC id each processor reads,
  and the locks. Every function takes the number of the processor that executes it.

  \<open>acquire\<close> is split where the code can be interleaved with another CPU: \<open>acquire_begin\<close>
  is everything up to the loop, \<open>acquire_spin\<close> one execution of the atomic \<open>xchg\<close>.
\<close>

record spinlock =
  locked :: nat
  name :: string
  lcpu :: "nat option"
  pcs :: "u32 list"

record cpu =
  apicid :: u8
  ncli :: int
  intena :: bool

record machine =
  cpus :: "cpu list"
  IF_flag :: "nat \<Rightarrow> bool"
  lapicid :: "nat \<Rightarrow> u8"
  locks :: "nat \<Rightarrow> spinlock"

definition initlock :: "string \<Rightarrow> spinlock \<Rightarrow> spinlock" where
  "initlock n lk = lk\<lparr>name := n, locked := 0, lcpu := None\<rparr>"

definition cli :: "nat \<Rightarrow> (machine, unit) k" where
  "cli i = kput (\<lambda>m. m\<lparr>IF_flag := (IF_flag m)(i := False)\<rparr>)"

definition sti :: "nat \<Rightarrow> (machine, unit) k" where
  "sti i = kput (\<lambda>m. m\<lparr>IF_flag := (IF_flag m)(i := True)\<rparr>)"

definition mycpu :: "nat \<Rightarrow> (machine, nat) k" where
  "mycpu i m =
     (if IF_flag m i then Panic ''mycpu called with interrupts enabled''
      else case scan (\<lambda>c. apicid c = lapicid m i) (cpus m) of
             None \<Rightarrow> Panic ''unknown apicid'' | Some c \<Rightarrow> Ok c m)"

definition upd_cpu :: "nat \<Rightarrow> (cpu \<Rightarrow> cpu) \<Rightarrow> (machine, unit) k" where
  "upd_cpu c f = kput (\<lambda>m. m\<lparr>cpus := upd c f (cpus m)\<rparr>)"

definition pushcli :: "nat \<Rightarrow> (machine, unit) k" where
  "pushcli i =
     bindk (kget (\<lambda>m. IF_flag m i)) (\<lambda>eflags.
     thenk (cli i)
     (bindk (mycpu i) (\<lambda>c.
      bindk (kget (\<lambda>m. cpus m ! c)) (\<lambda>r.
      thenk (whenk (ncli r = 0) (upd_cpu c (\<lambda>c. c\<lparr>intena := eflags\<rparr>)))
            (upd_cpu c (\<lambda>c. c\<lparr>ncli := ncli c + 1\<rparr>))))))"

definition popcli :: "nat \<Rightarrow> (machine, unit) k" where
  "popcli i =
     bindk (kget (\<lambda>m. IF_flag m i)) (\<lambda>fl.
     if fl then kpanic ''popcli - interruptible''
     else bindk (mycpu i) (\<lambda>c.
          thenk (upd_cpu c (\<lambda>c. c\<lparr>ncli := ncli c - 1\<rparr>))
          (bindk (kget (\<lambda>m. cpus m ! c)) (\<lambda>r.
           if ncli r < 0 then kpanic ''popcli''
           else whenk (ncli r = 0 \<and> intena r) (sti i)))))"

definition holding :: "nat \<Rightarrow> nat \<Rightarrow> (machine, bool) k" where
  "holding i l =
     thenk (pushcli i)
     (bindk (mycpu i) (\<lambda>c.
      bindk (kget (\<lambda>m. locked (locks m l) \<noteq> 0 \<and> lcpu (locks m l) = Some c)) (\<lambda>r.
      thenk (popcli i) (kret r))))"

definition upd_lock :: "nat \<Rightarrow> (spinlock \<Rightarrow> spinlock) \<Rightarrow> (machine, unit) k" where
  "upd_lock l f = kput (\<lambda>m. m\<lparr>locks := (locks m)(l := f (locks m l))\<rparr>)"

text \<open>The call stack recorded for debugging: follow the saved frame pointers from \<open>ebp\<close>, at
  most ten frames, as long as they point into the kernel. The stack is read through \<open>mem\<close>.\<close>

fun callers :: "(u32 \<Rightarrow> u32) \<Rightarrow> u32 \<Rightarrow> nat \<Rightarrow> u32 list" where
  "callers mem ebp 0 = []"
| "callers mem ebp (Suc n) =
     (if ebp = 0 \<or> ebp < 0x80000000 \<or> ebp = 0xffffffff then replicate (Suc n) 0
      else mem (ebp + 4) # callers mem (mem ebp) n)"

definition getcallerpcs :: "(u32 \<Rightarrow> u32) \<Rightarrow> u32 \<Rightarrow> u32 list" where
  "getcallerpcs mem v = callers mem (v - 8) 10"

definition acquire_begin :: "nat \<Rightarrow> nat \<Rightarrow> (machine, unit) k" where
  "acquire_begin i l =
     thenk (pushcli i)
     (bindk (holding i l) (\<lambda>h. if h then kpanic ''acquire'' else kret ()))"

text \<open>One \<open>xchg\<close>: \<open>False\<close> when the old value was not 0 (the loop goes round again), \<open>True\<close>
  when the lock was taken; then the debugging fields are filled in.\<close>

definition acquire_spin :: "nat \<Rightarrow> nat \<Rightarrow> u32 list \<Rightarrow> (machine, bool) k" where
  "acquire_spin i l callerpcs =
     bindk (kget (\<lambda>m. locked (locks m l))) (\<lambda>old.
     thenk (upd_lock l (\<lambda>lk. lk\<lparr>locked := 1\<rparr>))
     (if old \<noteq> 0 then kret False
      else bindk (mycpu i) (\<lambda>c.
           thenk (upd_lock l (\<lambda>lk. lk\<lparr>lcpu := Some c, pcs := callerpcs\<rparr>)) (kret True))))"

definition release :: "nat \<Rightarrow> nat \<Rightarrow> (machine, unit) k" where
  "release i l =
     bindk (holding i l) (\<lambda>h.
     if \<not> h then kpanic ''release''
     else thenk (upd_lock l (\<lambda>lk. lk\<lparr>pcs := (pcs lk)[0 := 0], lcpu := None\<rparr>))
          (thenk (upd_lock l (\<lambda>lk. lk\<lparr>locked := 0\<rparr>))
                 (popcli i)))"

section \<open>Well-formed machines\<close>

text \<open>The boot code gives each processor the entry of \<open>cpus\<close> with its own APIC id, and the ids
  differ.\<close>

definition wf_machine :: "machine \<Rightarrow> bool" where
  "wf_machine m \<longleftrightarrow> (\<forall>i < length (cpus m). apicid (cpus m ! i) = lapicid m i)
     \<and> (\<forall>i < length (cpus m). \<forall>j < length (cpus m). lapicid m i = lapicid m j \<longrightarrow> i = j)"

lemma mycpu_self:
  assumes "wf_machine m" "i < length (cpus m)" "\<not> IF_flag m i"
  shows "mycpu i m = Ok i m"
proof -
  have "scan (\<lambda>c. apicid c = lapicid m i) (cpus m) = Some i"
    using assms(1,2) by (simp add: scan_Some_iff wf_machine_def) (metis less_trans nat_neq_iff)
  with assms(3) show ?thesis by (simp add: mycpu_def)
qed

lemma wf_machine_upd [simp]:
  "wf_machine (m\<lparr>IF_flag := f\<rparr>) = wf_machine m"
  "wf_machine (m\<lparr>locks := g\<rparr>) = wf_machine m"
  by (simp_all add: wf_machine_def)

abbreviation cpu_of :: "machine \<Rightarrow> nat \<Rightarrow> cpu" where
  "cpu_of m i \<equiv> cpus m ! i"

definition pushed :: "nat \<Rightarrow> machine \<Rightarrow> machine" where
  "pushed i m = m\<lparr>IF_flag := (IF_flag m)(i := False),
     cpus := upd i (\<lambda>c. c\<lparr>intena := (if ncli c = 0 then IF_flag m i else intena c),
                         ncli := ncli c + 1\<rparr>) (cpus m)\<rparr>"

definition popped :: "nat \<Rightarrow> machine \<Rightarrow> machine" where
  "popped i m = m\<lparr>cpus := upd i (\<lambda>c. c\<lparr>ncli := ncli c - 1\<rparr>) (cpus m),
     IF_flag := (IF_flag m)(i := ncli (cpu_of m i) = 1 \<and> intena (cpu_of m i))\<rparr>"

lemma pushcli_eq:
  assumes "wf_machine m" "i < length (cpus m)"
  shows "pushcli i m = Ok () (pushed i m)"
proof -
  have "mycpu i (m\<lparr>IF_flag := (IF_flag m)(i := False)\<rparr>) = Ok i (m\<lparr>IF_flag := (IF_flag m)(i := False)\<rparr>)"
    using assms by (intro mycpu_self) simp_all
  then show ?thesis
    using assms(2)
    by (auto simp: pushcli_def cli_def upd_cpu_def pushed_def upd_def)
qed

lemma popcli_eq:
  assumes "wf_machine m" "i < length (cpus m)" "\<not> IF_flag m i" "0 < ncli (cpu_of m i)"
  shows "popcli i m = Ok () (popped i m)"
proof -
  have "(IF_flag m)(i := False) = IF_flag m" using assms(3) by (simp add: fun_upd_idem)
  then show ?thesis
    using assms
    by (cases "ncli (cpu_of m i) = 1 \<and> intena (cpu_of m i)")
      (auto simp: popcli_def sti_def upd_cpu_def popped_def upd_def mycpu_self)
qed

lemma wf_pushed [simp]: "wf_machine (pushed i m) = wf_machine m"
  by (simp add: wf_machine_def pushed_def upd_keeps_field [where f = apicid])

lemma wf_popped [simp]: "wf_machine (popped i m) = wf_machine m"
  by (simp add: wf_machine_def popped_def upd_keeps_field [where f = apicid])

lemma pushed_sel [simp]:
  "length (cpus (pushed i m)) = length (cpus m)" "locks (pushed i m) = locks m"
  "\<not> IF_flag (pushed i m) i" "j \<noteq> i \<Longrightarrow> IF_flag (pushed i m) j = IF_flag m j"
  "j \<noteq> i \<Longrightarrow> cpu_of (pushed i m) j = cpu_of m j"
  "i < length (cpus m) \<Longrightarrow> ncli (cpu_of (pushed i m) i) = ncli (cpu_of m i) + 1"
  by (simp_all add: pushed_def)

lemma popped_sel [simp]:
  "length (cpus (popped i m)) = length (cpus m)" "locks (popped i m) = locks m"
  "IF_flag (popped i m) i = (ncli (cpu_of m i) = 1 \<and> intena (cpu_of m i))"
  "j \<noteq> i \<Longrightarrow> IF_flag (popped i m) j = IF_flag m j"
  "j \<noteq> i \<Longrightarrow> cpu_of (popped i m) j = cpu_of m j"
  "i < length (cpus m) \<Longrightarrow> ncli (cpu_of (popped i m) i) = ncli (cpu_of m i) - 1"
  "i < length (cpus m) \<Longrightarrow> intena (cpu_of (popped i m) i) = intena (cpu_of m i)"
  by (simp_all add: popped_def)

lemma popped_pushed:
  assumes "i < length (cpus m)" "0 < ncli (cpu_of m i)" "\<not> IF_flag m i"
  shows "popped i (pushed i m) = m"
proof -
  have "(IF_flag m)(i := False) = IF_flag m" using assms(3) by (simp add: fun_upd_idem)
  with assms show ?thesis
    by (simp add: popped_def pushed_def upd_def)
qed

definition holds :: "nat \<Rightarrow> nat \<Rightarrow> machine \<Rightarrow> bool" where
  "holds i l m \<longleftrightarrow> locked (locks m l) \<noteq> 0 \<and> lcpu (locks m l) = Some i"

lemma holding_eq:
  assumes "wf_machine m" "i < length (cpus m)" "\<not> IF_flag m i" "0 < ncli (cpu_of m i)"
  shows "holding i l m = Ok (holds i l m) m"
proof -
  have "mycpu i (pushed i m) = Ok i (pushed i m)" using assms by (intro mycpu_self) simp_all
  moreover have "popcli i (pushed i m) = Ok () (popped i (pushed i m))"
    using assms by (intro popcli_eq) simp_all
  ultimately show ?thesis
    using assms by (simp add: holding_def pushcli_eq popped_pushed holds_def)
qed

lemma acquire_begin_eq:
  assumes "wf_machine m" "i < length (cpus m)" "0 \<le> ncli (cpu_of m i)"
  shows "acquire_begin i l m
    = (if holds i l m then Panic ''acquire'' else Ok () (pushed i m))"
proof -
  have "holding i l (pushed i m) = Ok (holds i l (pushed i m)) (pushed i m)"
    using assms by (intro holding_eq) simp_all
  moreover have "holds i l (pushed i m) = holds i l m" by (simp add: holds_def)
  ultimately show ?thesis
    using assms by (simp add: acquire_begin_def pushcli_eq)
qed

definition taken :: "nat \<Rightarrow> nat \<Rightarrow> u32 list \<Rightarrow> machine \<Rightarrow> machine" where
  "taken i l ps m = m\<lparr>locks := (locks m)(l := (locks m l)\<lparr>locked := 1, lcpu := Some i, pcs := ps\<rparr>)\<rparr>"

definition freed :: "nat \<Rightarrow> machine \<Rightarrow> machine" where
  "freed l m = m\<lparr>locks := (locks m)(l := (locks m l)\<lparr>pcs := (pcs (locks m l))[0 := 0],
                                                   lcpu := None, locked := 0\<rparr>)\<rparr>"

lemma taken_sel [simp]:
  "cpus (taken i l ps m) = cpus m" "IF_flag (taken i l ps m) = IF_flag m"
  "wf_machine (taken i l ps m) = wf_machine m"
  by (simp_all add: taken_def)

lemma freed_sel [simp]:
  "cpus (freed l m) = cpus m" "IF_flag (freed l m) = IF_flag m" "wf_machine (freed l m) = wf_machine m"
  by (simp_all add: freed_def)

lemma acquire_spin_free:
  assumes "wf_machine m" "i < length (cpus m)" "\<not> IF_flag m i" "locked (locks m l) = 0"
  shows "acquire_spin i l ps m = Ok True (taken i l ps m)"
proof -
  let ?m = "m\<lparr>locks := (locks m)(l := (locks m l)\<lparr>locked := 1\<rparr>)\<rparr>"
  have "mycpu i ?m = Ok i ?m" using assms by (intro mycpu_self) simp_all
  then show ?thesis
    using assms(4) by (simp add: acquire_spin_def upd_lock_def taken_def)
qed

lemma acquire_spin_busy:
  "locked (locks m l) \<noteq> 0 \<Longrightarrow> acquire_spin i l ps m
     = Ok False (m\<lparr>locks := (locks m)(l := (locks m l)\<lparr>locked := 1\<rparr>)\<rparr>)"
  by (simp add: acquire_spin_def upd_lock_def)

lemma release_eq:
  assumes "wf_machine m" "i < length (cpus m)" "\<not> IF_flag m i" "0 < ncli (cpu_of m i)"
  shows "release i l m
    = (if holds i l m then Ok () (popped i (freed l m)) else Panic ''release'')"
proof -
  have "popcli i (freed l m) = Ok () (popped i (freed l m))"
    using assms by (intro popcli_eq) simp_all
  then show ?thesis
    using assms by (simp add: release_def holding_eq upd_lock_def freed_def)
qed

section \<open>CPUs that contend for locks\<close>

text \<open>
  The whole machine at work: \<open>own i\<close> lists the locks whose \<open>acquire\<close> has returned on CPU
  \<open>i\<close> and that it has not released, \<open>spin i\<close> the lock whose \<open>acquire\<close> loop it is
  in. Any CPU may move at any time.
\<close>

record lsys =
  mach :: machine
  own :: "nat \<Rightarrow> nat list"
  spin :: "nat \<Rightarrow> nat option"

inductive lstep :: "lsys \<Rightarrow> lsys \<Rightarrow> bool" where
  start_acquire: "i < length (cpus (mach s)) \<Longrightarrow> spin s i = None \<Longrightarrow>
     acquire_begin i l (mach s) = Ok () m \<Longrightarrow>
     lstep s (s\<lparr>mach := m, spin := (spin s)(i := Some l)\<rparr>)"
| spin_again: "i < length (cpus (mach s)) \<Longrightarrow> spin s i = Some l \<Longrightarrow>
     acquire_spin i l ps (mach s) = Ok False m \<Longrightarrow> lstep s (s\<lparr>mach := m\<rparr>)"
| got_lock: "i < length (cpus (mach s)) \<Longrightarrow> spin s i = Some l \<Longrightarrow>
     acquire_spin i l ps (mach s) = Ok True m \<Longrightarrow>
     lstep s (s\<lparr>mach := m, own := (own s)(i := l # own s i), spin := (spin s)(i := None)\<rparr>)"
| release_lock: "i < length (cpus (mach s)) \<Longrightarrow> spin s i = None \<Longrightarrow> own s i \<noteq> [] \<Longrightarrow>
     release i l (mach s) = Ok () m \<Longrightarrow>
     lstep s (s\<lparr>mach := m, own := (own s)(i := remove1 l (own s i))\<rparr>)"

definition lboot :: "lsys \<Rightarrow> bool" where
  "lboot s \<longleftrightarrow> wf_machine (mach s) \<and> (\<forall>c \<in> set (cpus (mach s)). ncli c = 0)
     \<and> (\<forall>l. locked (locks (mach s) l) = 0 \<and> lcpu (locks (mach s) l) = None)
     \<and> (\<forall>i. own s i = [] \<and> spin s i = None)"

inductive lreach :: "lsys \<Rightarrow> bool" where
  lr_boot: "lboot s \<Longrightarrow> lreach s"
| lr_step: "lreach s \<Longrightarrow> lstep s t \<Longrightarrow> lreach t"

definition cpu_ok :: "lsys \<Rightarrow> nat \<Rightarrow> bool" where
  "cpu_ok s j \<longleftrightarrow>
     ncli (cpu_of (mach s) j) = int (length (own s j)) + (if spin s j = None then 0 else 1)
     \<and> (0 < ncli (cpu_of (mach s) j) \<longrightarrow> \<not> IF_flag (mach s) j)"

definition lock_inv :: "lsys \<Rightarrow> bool" where
  "lock_inv s \<longleftrightarrow> wf_machine (mach s)
     \<and> (\<forall>i < length (cpus (mach s)). cpu_ok s i)
     \<and> (\<forall>i l. l \<in> set (own s i) \<longleftrightarrow> lcpu (locks (mach s) l) = Some i)
     \<and> (\<forall>i. distinct (own s i))
     \<and> (\<forall>l. locked (locks (mach s) l) = 0 \<longleftrightarrow> lcpu (locks (mach s) l) = None)"

lemma lock_invD:
  assumes "lock_inv s"
  shows "wf_machine (mach s)"
    and "i < length (cpus (mach s)) \<Longrightarrow> cpu_ok s i"
    and "l \<in> set (own s i) \<longleftrightarrow> lcpu (locks (mach s) l) = Some i"
    and "distinct (own s i)"
    and "locked (locks (mach s) l) = 0 \<longleftrightarrow> lcpu (locks (mach s) l) = None"
    and "holds i l (mach s) \<longleftrightarrow> l \<in> set (own s i)"
proof -
  show "holds i l (mach s) \<longleftrightarrow> l \<in> set (own s i)"
    using assms by (metis holds_def lock_inv_def option.distinct(1))
qed (use assms in \<open>simp_all add: lock_inv_def\<close>)

lemma cpu_okD:
  assumes "cpu_ok s i"
  shows "0 \<le> ncli (cpu_of (mach s) i)"
    and "spin s i = Some l \<Longrightarrow> 0 < ncli (cpu_of (mach s) i)"
    and "own s i \<noteq> [] \<Longrightarrow> 0 < ncli (cpu_of (mach s) i)"
    and "spin s i = Some l \<Longrightarrow> \<not> IF_flag (mach s) i"
    and "own s i \<noteq> [] \<Longrightarrow> \<not> IF_flag (mach s) i"
  using assms by (auto simp: cpu_ok_def)

lemma lock_inv_boot: "lboot s \<Longrightarrow> lock_inv s"
  by (simp add: lboot_def lock_inv_def cpu_ok_def)

lemma lock_inv_begin:
  assumes inv: "lock_inv s" and i: "i < length (cpus (mach s))" and sp: "spin s i = None"
    and ok: "acquire_begin i l (mach s) = Ok () m"
  shows "lock_inv (s\<lparr>mach := m, spin := (spin s)(i := Some l)\<rparr>)"
proof -
  note I = lock_invD [OF inv]
  have m: "m = pushed i (mach s)"
    using ok acquire_begin_eq [OF I(1) i cpu_okD(1) [OF I(2) [OF i]]] by (simp split: if_splits)
  have "cpu_ok (s\<lparr>mach := m, spin := (spin s)(i := Some l)\<rparr>) j" if "j < length (cpus (mach s))" for j
    using I(2) [OF that] i sp by (cases "j = i") (auto simp: m cpu_ok_def)
  then show ?thesis using I by (simp add: lock_inv_def m)
qed

lemma lock_inv_spin:
  assumes inv: "lock_inv s" and i: "i < length (cpus (mach s))" and sp: "spin s i = Some l"
    and ok: "acquire_spin i l ps (mach s) = Ok False m"
  shows "lock_inv (s\<lparr>mach := m\<rparr>)"
proof -
  note I = lock_invD [OF inv]
  have "locked (locks (mach s) l) \<noteq> 0"
    using ok acquire_spin_free [OF I(1) i cpu_okD(4) [OF I(2) [OF i] sp]] by fastforce
  then have m: "m = (mach s)\<lparr>locks := (locks (mach s))(l := (locks (mach s) l)\<lparr>locked := 1\<rparr>)\<rparr>"
    using ok by (simp add: acquire_spin_busy)
  show ?thesis
    using I \<open>locked (locks (mach s) l) \<noteq> 0\<close> by (simp add: lock_inv_def m cpu_ok_def)
qed

lemma lock_inv_got:
  assumes inv: "lock_inv s" and i: "i < length (cpus (mach s))" and sp: "spin s i = Some l"
    and ok: "acquire_spin i l ps (mach s) = Ok True m"
  shows "lock_inv (s\<lparr>mach := m, own := (own s)(i := l # own s i), spin := (spin s)(i := None)\<rparr>)"
    (is "lock_inv ?t")
proof -
  note I = lock_invD [OF inv]
  have free: "locked (locks (mach s) l) = 0"
    using ok by (cases "locked (locks (mach s) l) = 0") (simp_all add: acquire_spin_busy)
  then have m: "m = taken i l ps (mach s)"
    using ok acquire_spin_free [OF I(1) i cpu_okD(4) [OF I(2) [OF i] sp]] by simp
  have none: "lcpu (locks (mach s) l) = None" using free I(5) by simp
  have "cpu_ok ?t j" if "j < length (cpus (mach s))" for j
    using I(2) [OF that] i sp by (cases "j = i") (auto simp: m cpu_ok_def)
  moreover have "l' \<in> set (own ?t j) \<longleftrightarrow> lcpu (locks (mach ?t) l') = Some j" for j l'
    using I(3) [of l' j] none by (auto simp: m taken_def)
  moreover have "distinct (own ?t j)" for j
    using I(4) [of j] I(4) [of i] I(3) [of l i] none by simp
  moreover have "locked (locks (mach ?t) l') = 0 \<longleftrightarrow> lcpu (locks (mach ?t) l') = None" for l'
    using I(5) [of l'] by (auto simp: m taken_def)
  ultimately show ?thesis using I(1) by (simp add: lock_inv_def m)
qed

lemma lock_inv_release:
  assumes inv: "lock_inv s" and i: "i < length (cpus (mach s))" and sp: "spin s i = None"
    and own: "own s i \<noteq> []" and ok: "release i l (mach s) = Ok () m"
  shows "lock_inv (s\<lparr>mach := m, own := (own s)(i := remove1 l (own s i))\<rparr>)" (is "lock_inv ?t")
proof -
  note I = lock_invD [OF inv]
  have h: "holds i l (mach s)" and m: "m = popped i (freed l (mach s))"
    using ok release_eq [OF I(1) i cpu_okD(5,3) [OF I(2) [OF i] own]] by (simp_all split: if_splits)
  have l: "l \<in> set (own s i)" and lc: "lcpu (locks (mach s) l) = Some i"
    using h I(6) I(3) by simp_all
  have len: "length (own s i) = Suc (length (remove1 l (own s i)))"
    using l by (simp add: length_remove1)
      (metis Suc_pred length_pos_if_in_set)
  have "cpu_ok ?t j" if "j < length (cpus (mach s))" for j
    using I(2) [OF that] i sp len by (cases "j = i") (auto simp: m cpu_ok_def)
  moreover have "l' \<in> set (own ?t j) \<longleftrightarrow> lcpu (locks (mach ?t) l') = Some j" for j l'
    using I(3) [of l' j] I(4) [of i] lc by (auto simp: m freed_def)
  moreover have "locked (locks (mach ?t) l') = 0 \<longleftrightarrow> lcpu (locks (mach ?t) l') = None" for l'
    using I(5) [of l'] by (auto simp: m freed_def)
  ultimately show ?thesis using I(1,4) by (simp add: lock_inv_def m)
qed

lemma lock_inv_step: "lstep s t \<Longrightarrow> lock_inv s \<Longrightarrow> lock_inv t"
  by (induction rule: lstep.induct)
    (blast intro: lock_inv_begin lock_inv_spin lock_inv_got lock_inv_release)+

lemma lock_inv_reach: "lreach s \<Longrightarrow> lock_inv s"
  by (induction rule: lreach.induct) (blast intro: lock_inv_boot lock_inv_step)+

section \<open>Interrupt nesting\<close>

primrec cli_nest :: "nat \<Rightarrow> nat \<Rightarrow> (machine, unit) k" where
  "cli_nest i 0 = kret ()"
| "cli_nest i (Suc n) = thenk (pushcli i) (thenk (cli_nest i n) (popcli i))"

lemma cli_nest_inner:
  assumes "wf_machine m" "i < length (cpus m)" "\<not> IF_flag m i" "0 < ncli (cpu_of m i)"
  shows "cli_nest i n m = Ok () m"
  using assms
proof (induction n arbitrary: m)
  case 0
  then show ?case by simp
next
  case (Suc n)
  have "cli_nest i n (pushed i m) = Ok () (pushed i m)" using Suc.prems by (intro Suc.IH) simp_all
  moreover have "popcli i (pushed i m) = Ok () (popped i (pushed i m))"
    using Suc.prems by (intro popcli_eq) simp_all
  ultimately show ?case using Suc.prems by (simp add: pushcli_eq popped_pushed)
qed

section \<open>Properties\<close>

text \<open>C7: mutual exclusion and interrupt masking. In every state that CPUs can reach by calling
  \<open>acquire\<close> and \<open>release\<close>, a CPU that has acquired a lock runs with interrupts disabled, no
  other CPU has acquired the same lock, and its \<open>release\<close> does not panic.\<close>

theorem spinlock_exclusive:
  assumes "lreach s" "i < length (cpus (mach s))" "l \<in> set (own s i)"
  shows "\<not> IF_flag (mach s) i \<and> (\<forall>j. l \<in> set (own s j) \<longrightarrow> j = i)
    \<and> (\<exists>m. release i l (mach s) = Ok () m)"
proof -
  note I = lock_invD [OF lock_inv_reach [OF assms(1)]]
  have ne: "own s i \<noteq> []" using assms(3) by auto
  note c = cpu_okD(5,3) [OF I(2) [OF assms(2)] ne]
  have "j = i" if "l \<in> set (own s j)" for j
    using that assms(3) I(3) [of l i] I(3) [of l j] by simp
  moreover have "\<exists>m. release i l (mach s) = Ok () m"
    using release_eq [OF I(1) assms(2) c] I(6) assms(3) by simp
  ultimately show ?thesis using c(1) by blast
qed

definition two_cpus :: lsys where
  "two_cpus = \<lparr>mach = \<lparr>cpus = [\<lparr>apicid = 0, ncli = 0, intena = False\<rparr>,
                            \<lparr>apicid = 1, ncli = 0, intena = False\<rparr>],
     IF_flag = (\<lambda>_. True), lapicid = word_of_nat,
     locks = (\<lambda>_. \<lparr>locked = 0, name = ''demo'', lcpu = None, pcs = []\<rparr>)\<rparr>,
     own = (\<lambda>_. []), spin = (\<lambda>_. None)\<rparr>"

lemma two_cpus_boot: "lboot two_cpus"
  by (auto simp: lboot_def two_cpus_def wf_machine_def less_Suc_eq nth_Cons')

lemma two_cpus_locked:
  "\<exists>s. lreach s \<and> length (cpus (mach s)) = 2 \<and> 0 \<in> set (own s 0)"
proof -
  let ?m = "mach two_cpus"
  let ?s1 = "two_cpus\<lparr>mach := pushed 0 ?m, spin := (spin two_cpus)(0 := Some 0)\<rparr>"
  let ?s2 = "?s1\<lparr>mach := taken 0 0 [] (mach ?s1), own := (own ?s1)(0 := 0 # own ?s1 0),
                 spin := (spin ?s1)(0 := None)\<rparr>"
  have wf: "wf_machine ?m" using two_cpus_boot by (simp add: lboot_def)
  have n: "length (cpus ?m) = 2" by (simp add: two_cpus_def)
  have free: "\<not> holds 0 0 ?m" "locked (locks ?m 0) = 0" "spin two_cpus 0 = None"
    and z: "0 \<le> ncli (cpu_of ?m 0)"
    by (simp_all add: two_cpus_def holds_def)
  have "lstep two_cpus ?s1"
    by (rule start_acquire) (use wf n free z in \<open>simp_all add: acquire_begin_eq\<close>)
  then have r1: "lreach ?s1" using lr_boot [OF two_cpus_boot] by (rule lr_step [rotated])
  have "lstep ?s1 ?s2"
    by (rule got_lock [where ps = "[]"]) (use wf n free in \<open>simp_all add: acquire_spin_free\<close>)
  then have "lreach ?s2" by (rule lr_step [OF r1])
  then show ?thesis using n by (intro exI [of _ ?s2]) simp
qed

theorem spinlock_exclusive_witness:
  "\<exists>s::lsys. 0 \<in> set (own s 0) \<and> \<not> IF_flag (mach s) 0 \<and> 0 \<notin> set (own s 1)"
proof -
  obtain s where s: "lreach s" "length (cpus (mach s)) = 2" "0 \<in> set (own s 0)"
    using two_cpus_locked by blast
  have "0 < length (cpus (mach s))" using s(2) by simp
  from spinlock_exclusive [OF s(1) this s(3)] s(3) show ?thesis by (intro exI [of _ s]) auto
qed

text \<open>C19: \<open>pushcli\<close> and \<open>popcli\<close> are matched: after any number of nested pairs the interrupt
  flag and the nesting depth are what they were, interrupts being enabled again only by the
  outermost \<open>popcli\<close>, and never when they were off before.\<close>

theorem cli_nest_restores:
  assumes "wf_machine m" "i < length (cpus m)" "ncli (cpu_of m i) = 0"
  shows "\<exists>m'. cli_nest i n m = Ok () m' \<and> IF_flag m' = IF_flag m
    \<and> ncli (cpu_of m' i) = 0 \<and> locks m' = locks m"
proof (cases n)
  case 0
  then show ?thesis using assms by simp
next
  case (Suc k)
  have "cli_nest i k (pushed i m) = Ok () (pushed i m)"
    using assms by (intro cli_nest_inner) simp_all
  moreover have "popcli i (pushed i m) = Ok () (popped i (pushed i m))"
    using assms by (intro popcli_eq) simp_all
  moreover have "IF_flag (popped i (pushed i m)) = IF_flag m"
    using assms by (auto simp: popped_def pushed_def)
  ultimately show ?thesis using assms Suc by (simp add: pushcli_eq)
qed

theorem cli_nest_restores_witness:
  "\<exists>m'. cli_nest 1 3 (mach two_cpus) = Ok () m' \<and> IF_flag m' = IF_flag (mach two_cpus)
    \<and> ncli (cpu_of m' 1) = 0 \<and> locks m' = locks (mach two_cpus)"
proof (rule cli_nest_restores)
  show "wf_machine (mach two_cpus)" using two_cpus_boot by (simp add: lboot_def)
qed (simp_all add: two_cpus_def)

end
