(* ===== verification/Kernel_Base.thy ===== *)
theory Kernel_Base
  imports Params
begin

text \<open>
  The part of the kernel state that every component shares, as seen by the kernel thread that
  is running: the locks it holds, the process table of proc.c with \<open>nextpid\<close> and \<open>initproc\<close>,
  the tick counter of trap.c, \<open>c->proc\<close>, the page table register, the kernel stack of the
  task state segment and \<open>kpgdir\<close> of vm.c. Pointers are indices: a \<open>struct proc *\<close> is a
  position in \<open>ptable.proc\<close>, a \<open>struct file *\<close> a position in \<open>ftable.file\<close>, a
  \<open>struct inode *\<close> a position in \<open>icache.inode\<close>, with \<open>None\<close> for the null pointer. Page
  directories and kernel stacks are kernel virtual addresses, 0 being null. The trap frame, which
  the C code keeps at the top of the kernel stack, is a field of the process.

  Other components extend the record \<open>kbase\<close> by their own fields; their operations are typed on
  the record scheme, so that operations of lower components apply unchanged.
\<close>

section \<open>Locks and sleep channels\<close>

text \<open>Every spinlock of the kernel has its own address, as has every object used as a sleep
  channel. A sleep-lock (sleeplock.h) belongs to a buffer or to an inode.\<close>

datatype slid = BufSl nat | InodeSl nat

datatype lockid = PtableLk | TicksLk | KmemLk | BcacheLk | LogLk | IcacheLk | FtableLk | IdeLk
  | ConsLk | PipeLk nat | SleepLk slid

datatype chan = ChProc nat | ChTicks | ChLog | ChBuf nat | ChSleep slid | ChNread nat | ChNwrite nat
  | ChInput

section \<open>Processes\<close>

datatype procstate = UNUSED | EMBRYO | SLEEPING | RUNNABLE | RUNNING | ZOMBIE

text \<open>The registers of \<open>struct trapframe\<close> (x86.h) without the padding.\<close>

record trapframe =
  tf_edi :: u32
  tf_esi :: u32
  tf_ebp :: u32
  tf_ebx :: u32
  tf_edx :: u32
  tf_ecx :: u32
  tf_eax :: u32
  tf_gs :: u16
  tf_fs :: u16
  tf_es :: u16
  tf_ds :: u16
  tf_trapno :: u32
  tf_err :: u32
  tf_eip :: u32
  tf_cs :: u16
  tf_eflags :: u32
  tf_esp :: u32
  tf_ss :: u16

text \<open>\<open>struct proc\<close>; of \<open>context\<close> only the saved \<open>eip\<close> is read by C code.\<close>

datatype kentry = Forkret | Resume

record proc =
  sz :: nat
  pgdir :: nat
  kstack :: nat
  state :: procstate
  pid :: int
  parent :: "nat option"
  tf :: trapframe
  context_eip :: kentry
  chan :: "chan option"
  killed :: bool
  ofile :: "nat option list"
  cwd :: "nat option"
  pname :: string
  traceflag :: int
  counter :: int
  timeslice :: int
  tickets :: int
  retime :: int
  stime :: int
  rutime :: int
  ctime :: int
  total_time :: int
  max_time :: int
  init_time :: int
  priority :: int

text \<open>All zeros, as the bss segment is at boot.\<close>

definition zero_tf :: trapframe where
  "zero_tf = \<lparr>tf_edi = 0, tf_esi = 0, tf_ebp = 0, tf_ebx = 0, tf_edx = 0, tf_ecx = 0, tf_eax = 0,
     tf_gs = 0, tf_fs = 0, tf_es = 0, tf_ds = 0, tf_trapno = 0, tf_err = 0, tf_eip = 0, tf_cs = 0,
     tf_eflags = 0, tf_esp = 0, tf_ss = 0\<rparr>"

definition zero_proc :: proc where
  "zero_proc = \<lparr>sz = 0, pgdir = 0, kstack = 0, state = UNUSED, pid = 0, parent = None, tf = zero_tf,
     context_eip = Forkret, chan = None, killed = False, ofile = replicate NOFILE None, cwd = None,
     pname = [], traceflag = 0, counter = 0, timeslice = 0, tickets = 0, retime = 0, stime = 0,
     rutime = 0, ctime = 0, total_time = 0, max_time = 0, init_time = 0, priority = 0\<rparr>"

record kbase =
  held :: "lockid list"
  procs :: "proc list"
  nextpid :: int
  initproc :: "nat option"
  ticks :: u32
  cur :: "nat option"
  cr3 :: nat
  esp0 :: nat
  kpgdir :: nat

definition boot_kbase :: kbase where
  "boot_kbase = \<lparr>held = [], procs = replicate NPROC zero_proc, nextpid = 1, initproc = None,
     ticks = 0, cur = None, cr3 = 0, esp0 = 0, kpgdir = 0\<rparr>"

section \<open>Locks as seen by one kernel thread\<close>

text \<open>
  What \<open>acquire\<close> and \<open>release\<close> of spinlock.c mean to the thread that calls them: the list of
  locks held grows and shrinks, acquiring a held lock and releasing a lock not held are panics.
  \<open>Lock_Refine\<close> proves that the detailed model in \<open>Spinlock\<close> implements these two operations.
  Interrupts are off exactly while the list is not empty, and \<open>ncli\<close> is its length.
\<close>

definition lock :: "lockid \<Rightarrow> ('z kbase_scheme, unit) k" where
  "lock l = bindk (kget held) (\<lambda>h. if l \<in> set h then kpanic ''acquire''
     else kput (\<lambda>s. s\<lparr>held := l # h\<rparr>))"

definition unlock :: "lockid \<Rightarrow> ('z kbase_scheme, unit) k" where
  "unlock l = bindk (kget held) (\<lambda>h. if l \<in> set h then kput (\<lambda>s. s\<lparr>held := remove1 l h\<rparr>)
     else kpanic ''release'')"

lemma lock_run [simp]:
  "lock l s = (if l \<in> set (held s) then Panic ''acquire'' else Ok () (s\<lparr>held := l # held s\<rparr>))"
  by (simp add: lock_def)

lemma unlock_run [simp]:
  "unlock l s = (if l \<in> set (held s) then Ok () (s\<lparr>held := remove1 l (held s)\<rparr>)
     else Panic ''release'')"
  by (simp add: unlock_def)

text \<open>Records do not normalise the order of independent updates; the base fields are brought in
  the order of their declaration.\<close>

lemma kbase_commute [simp]:
  "s\<lparr>procs := p, held := h\<rparr> = s\<lparr>held := h, procs := p\<rparr>"
  "s\<lparr>nextpid := n, held := h\<rparr> = s\<lparr>held := h, nextpid := n\<rparr>"
  "s\<lparr>nextpid := n, procs := p\<rparr> = s\<lparr>procs := p, nextpid := n\<rparr>"
  "s\<lparr>ticks := k, held := h\<rparr> = s\<lparr>held := h, ticks := k\<rparr>"
  "s\<lparr>ticks := k, procs := p\<rparr> = s\<lparr>procs := p, ticks := k\<rparr>"
  "s\<lparr>cur := c, held := h\<rparr> = s\<lparr>held := h, cur := c\<rparr>"
  "s\<lparr>cur := c, procs := p\<rparr> = s\<lparr>procs := p, cur := c\<rparr>"
  by (cases s, simp)+

lemma held_idem [simp]: "held s = h \<Longrightarrow> s\<lparr>held := h\<rparr> = s"
  by (cases s) simp

section \<open>Access to the process table\<close>

abbreviation proc_at :: "'z kbase_scheme \<Rightarrow> nat \<Rightarrow> proc" where
  "proc_at s i \<equiv> procs s ! i"

definition set_proc :: "nat \<Rightarrow> (proc \<Rightarrow> proc) \<Rightarrow> ('z kbase_scheme, unit) k" where
  "set_proc i f = kput (\<lambda>s. s\<lparr>procs := upd i f (procs s)\<rparr>)"

lemma set_proc_run [simp]: "set_proc i f s = Ok () (s\<lparr>procs := upd i f (procs s)\<rparr>)"
  by (simp add: set_proc_def)

text \<open>\<open>myproc()\<close> followed by a dereference.\<close>

definition curproc :: "('z kbase_scheme, nat) k" where
  "curproc = bindk (kget cur) (\<lambda>c. case c of None \<Rightarrow> kfault ''null proc'' | Some p \<Rightarrow> kret p)"

lemma curproc_run [simp]:
  "curproc s = (case cur s of None \<Rightarrow> Fault ''null proc'' | Some p \<Rightarrow> Ok p s)"
  by (simp add: curproc_def split: option.splits)

end
