(* ===== verification/Lock_Refine.thy ===== *)
theory Lock_Refine
  imports Spinlock Kernel_Base
begin

text \<open>
  The lock operations of \<open>Kernel_Base\<close>, which the rest of the kernel model uses, are implemented
  by spinlock.c: one call of \<open>lock\<close> or \<open>unlock\<close> corresponds to a run of \<open>acquire\<close> or \<open>release\<close>
  on the machine of \<open>Spinlock\<close>, and a panic to a panic. The second half shows what two CPUs that
  take the same two locks in opposite orders run into.
\<close>

section \<open>Refinement\<close>

lemma map_remove1_inj: "inj_on f (insert x (set xs)) \<Longrightarrow> map f (remove1 x xs) = remove1 (f x) (map f xs)"
  by (induction xs) (auto simp: inj_on_def)

lemma holding_idle:
  assumes "wf_machine m" "i < length (cpus m)" "ncli (cpu_of m i) = 0"
  shows "\<exists>m'. holding i l m = Ok (holds i l m) m'"
proof -
  have "mycpu i (pushed i m) = Ok i (pushed i m)" using assms by (intro mycpu_self) simp_all
  moreover have "popcli i (pushed i m) = Ok () (popped i (pushed i m))"
    using assms by (intro popcli_eq) simp_all
  ultimately show ?thesis using assms by (simp add: holding_def pushcli_eq holds_def)
qed

lemma spin_runs:
  assumes s: "lock_inv s" "i < length (cpus (mach s))" "spin s i = None" and l: "l \<notin> set (own s i)"
  shows "lstep s (s\<lparr>mach := pushed i (mach s), spin := (spin s)(i := Some l)\<rparr>)"
proof -
  note I = lock_invD [OF s(1)]
  have "acquire_begin i l (mach s) = Ok () (pushed i (mach s))"
    using acquire_begin_eq [OF I(1) s(2) cpu_okD(1) [OF I(2) [OF s(2)]]] I(6) l by simp
  then show ?thesis using s(2,3) by (rule start_acquire [rotated 2])
qed

lemma acquire_runs:
  assumes s: "lock_inv s" "i < length (cpus (mach s))" "spin s i = None"
    and free: "\<And>j. l \<notin> set (own s j)"
  shows "\<exists>s'. lstep\<^sup>*\<^sup>* s s' \<and> spin s' = spin s \<and> own s' = (own s)(i := l # own s i)
    \<and> length (cpus (mach s')) = length (cpus (mach s))"
proof -
  note I = lock_invD [OF s(1)]
  let ?t = "s\<lparr>mach := pushed i (mach s), spin := (spin s)(i := Some l)\<rparr>"
  let ?u = "?t\<lparr>mach := taken i l [] (mach ?t), own := (own ?t)(i := l # own ?t i), spin := (spin ?t)(i := None)\<rparr>"
  have st: "lstep s ?t" by (rule spin_runs) (use s free in simp_all)
  have "lcpu (locks (mach s) l) = None" using I(3) free by (metis option.exhaust)
  then have "acquire_spin i l [] (mach ?t) = Ok True (taken i l [] (mach ?t))"
    using I(1,5) s(2) by (intro acquire_spin_free) simp_all
  then have "lstep ?t ?u" by (intro got_lock) (use s(2) in simp_all)
  with st have "lstep\<^sup>*\<^sup>* s ?u" by (meson converse_rtranclp_into_rtranclp r_into_rtranclp)
  moreover have "spin ?u = spin s" using s(3) by (simp add: fun_upd_idem)
  ultimately show ?thesis by (intro exI [of _ ?u]) simp
qed

lemma lreach_steps: "lstep\<^sup>*\<^sup>* s t \<Longrightarrow> lreach s \<Longrightarrow> lreach t"
  by (induction rule: rtranclp_induct) (auto intro: lr_step)

lemma release_panics:
  assumes s: "lock_inv s" "i < length (cpus (mach s))" "spin s i = None" and l: "l \<notin> set (own s i)"
  shows "release i l (mach s) = Panic ''release''"
proof (cases "own s i = []")
  case False
  note I = lock_invD [OF s(1)]
  show ?thesis using release_eq [OF I(1) s(2) cpu_okD(5,3) [OF I(2) [OF s(2)] False]] I(6) l by simp
next
  case True
  note I = lock_invD [OF s(1)]
  have "ncli (cpu_of (mach s) i) = 0" using I(2) [OF s(2)] s(3) True by (simp add: cpu_ok_def)
  then obtain m' where "holding i l (mach s) = Ok False m'"
    using holding_idle [OF I(1) s(2)] I(6) l by metis
  then show ?thesis by (simp add: release_def bindk_def)
qed

text \<open>C25: spinlock.c implements the kernel's lock interface. While CPU \<open>i\<close> holds the locks
  \<open>held k\<close>, the call \<open>lock l\<close> panics exactly as \<open>acquire\<close> does; when it succeeds and no CPU holds
  \<open>l\<close>, the machine has a run of \<open>acquire\<close> after which CPU \<open>i\<close> holds the locks of the new state
  and nobody else's locks have changed. Likewise for \<open>unlock\<close> and \<open>release\<close>.\<close>

theorem spinlock_refines:
  assumes "lreach s" "i < length (cpus (mach s))" "spin s i = None"
    and "inj_on lid (insert l (set (held k)))" "own s i = map lid (held k)"
  shows "(case lock l k of
      Ok _ k' \<Rightarrow> (\<forall>j. lid l \<notin> set (own s j)) \<longrightarrow> (\<exists>s'. lstep\<^sup>*\<^sup>* s s' \<and> spin s' i = None
         \<and> own s' = (own s)(i := map lid (held k')))
    | Panic e \<Rightarrow> acquire_begin i (lid l) (mach s) = Panic e
    | _ \<Rightarrow> False)
  \<and> (case unlock l k of
      Ok _ k' \<Rightarrow> (\<exists>s'. lstep s s' \<and> spin s' i = None \<and> own s' = (own s)(i := map lid (held k')))
    | Panic e \<Rightarrow> release i (lid l) (mach s) = Panic e
    | _ \<Rightarrow> False)"
proof -
  note inv = lock_inv_reach [OF assms(1)]
  note I = lock_invD [OF inv]
  have mem: "lid l \<in> set (own s i) \<longleftrightarrow> l \<in> set (held k)"
    using assms(4,5) by (auto dest: inj_onD)
  have rem: "map lid (remove1 l (held k)) = remove1 (lid l) (own s i)"
    using assms(4,5) map_remove1_inj [of lid l "held k"] by simp
  show ?thesis
  proof (cases "l \<in> set (held k)")
    case True
    then have "acquire_begin i (lid l) (mach s) = Panic ''acquire''"
      using acquire_begin_eq [OF I(1) assms(2) cpu_okD(1) [OF I(2) [OF assms(2)]]] I(6) mem by simp
    moreover have ne: "own s i \<noteq> []" using True mem by auto
    then have "release i (lid l) (mach s) = Ok () (popped i (freed (lid l) (mach s)))"
      using release_eq [OF I(1) assms(2) cpu_okD(5,3) [OF I(2) [OF assms(2)] ne]] I(6) mem True by simp
    from release_lock [OF assms(2,3) ne this]
    have "\<exists>s'. lstep s s' \<and> spin s' i = None \<and> own s' = (own s)(i := map lid (remove1 l (held k)))"
      using rem assms(3)
      by (intro exI [of _ "s\<lparr>mach := popped i (freed (lid l) (mach s)), own := (own s)(i := remove1 (lid l) (own s i))\<rparr>"])
        simp
    ultimately show ?thesis using True by simp
  next
    case False
    then show ?thesis
      using acquire_runs [OF inv assms(2,3), of "lid l"] release_panics [OF inv assms(2,3), of "lid l"]
        mem assms(3,5) by (simp, metis)
  qed
qed

theorem spinlock_refines_witness:
  "\<exists>s'. lstep\<^sup>*\<^sup>* two_cpus s' \<and> own s' 0 = [7]"
proof -
  have "lreach two_cpus" using two_cpus_boot by (rule lr_boot)
  from spinlock_refines [OF this, of 0 "\<lambda>_. 7" PtableLk boot_kbase]
  show ?thesis by (auto simp: two_cpus_def boot_kbase_def)
qed

section \<open>Deadlock\<close>

lemma spinning_blocked:
  assumes "lock_inv s" "lstep s t" "spin s a = Some y" "y \<in> set (own s b)" "spin s b \<noteq> None"
  shows "spin t a = Some y \<and> y \<in> set (own t b)"
  using assms(2)
proof cases
  case (got_lock i l ps m)
  have "a \<noteq> i"
  proof
    assume "a = i"
    then have "l = y" using got_lock assms(3) by simp
    then have "locked (locks (mach s) y) \<noteq> 0"
      using lock_invD(3,5) [OF assms(1)] assms(4) by (metis option.distinct(1))
    then show False using got_lock \<open>l = y\<close> by (simp add: acquire_spin_busy)
  qed
  then show ?thesis using got_lock assms(3-5) by auto
qed (use assms in auto)

text \<open>C36: two CPUs that each spin on a lock the other one holds spin for ever. This happens in a
  \<open>PRIORITY\<close> build: the timer interrupt takes \<open>tickslock\<close> and then \<open>ptable.lock\<close> (in
  \<open>countprocs\<close>), while \<open>allocproc\<close> and \<open>scheduler\<close> hold \<open>ptable.lock\<close> when \<open>curr_time\<close> takes
  \<open>tickslock\<close>.\<close>

theorem opposite_order_deadlock:
  assumes "lreach s" "spin s a = Some y" "y \<in> set (own s b)" "spin s b = Some x" "x \<in> set (own s a)"
    and "lstep\<^sup>*\<^sup>* s t"
  shows "spin t a = Some y \<and> spin t b = Some x"
proof -
  have "lreach t \<and> spin t a = Some y \<and> y \<in> set (own t b) \<and> spin t b = Some x \<and> x \<in> set (own t a)"
    using assms(6)
  proof (induction rule: rtranclp_induct)
    case base
    then show ?case using assms by simp
  next
    case (step t u)
    then have "lock_inv t" "lreach u" using lock_inv_reach lr_step by blast+
    then show ?case using spinning_blocked [of t u a y b] spinning_blocked [of t u b x a] step by auto
  qed
  then show ?thesis by blast
qed

lemma deadlock_reachable:
  "\<exists>s. lreach s \<and> spin s 0 = Some 1 \<and> own s 0 = [0] \<and> spin s 1 = Some 0 \<and> own s 1 = [1]"
proof -
  let ?P = "\<lambda>s. lreach s \<and> lock_inv s \<and> length (cpus (mach s)) = 2"
  have step: "?P t" if "lstep\<^sup>*\<^sup>* s t" "?P s" "length (cpus (mach t)) = length (cpus (mach s))" for s t
    using that lreach_steps lock_inv_reach by fastforce
  have P0: "?P two_cpus" "spin two_cpus = (\<lambda>_. None)" "own two_cpus = (\<lambda>_. [])"
    using lr_boot [OF two_cpus_boot] lock_inv_reach by (auto simp: two_cpus_def)
  obtain s1 where s1: "lstep\<^sup>*\<^sup>* two_cpus s1" "spin s1 = (\<lambda>_. None)" "own s1 = (\<lambda>_. [])(0 := [0])"
    "length (cpus (mach s1)) = length (cpus (mach two_cpus))"
    using acquire_runs [of two_cpus 0 0] P0 by auto
  note P1 = step [OF s1(1) P0(1) s1(4)]
  obtain s2 where s2: "lstep\<^sup>*\<^sup>* s1 s2" "spin s2 = (\<lambda>_. None)" "own s2 = (\<lambda>_. [])(0 := [0], 1 := [1])"
    "length (cpus (mach s2)) = length (cpus (mach s1))"
    using acquire_runs [of s1 1 1] P1 s1(2,3) by auto
  note P2 = step [OF s2(1) P1 s2(4)]
  let ?s3 = "s2\<lparr>mach := pushed 0 (mach s2), spin := (spin s2)(0 := Some 1)\<rparr>"
  have "lstep s2 ?s3" using spin_runs [of s2 0 1] P2 s2(2,3) by simp
  then have P3: "?P ?s3" using P2 by (intro step [OF r_into_rtranclp P2]) simp_all
  let ?s4 = "?s3\<lparr>mach := pushed 1 (mach ?s3), spin := (spin ?s3)(1 := Some 0)\<rparr>"
  have "lstep ?s3 ?s4" using spin_runs [of ?s3 1 0] P3 s2(2,3) by simp
  then have "lreach ?s4" using P3 lr_step by blast
  then show ?thesis using s2(2,3) by (intro exI [of _ ?s4]) simp
qed

theorem opposite_order_deadlock_witness:
  "\<exists>s. lreach s \<and> own s 0 = [0] \<and> own s 1 = [1] \<and> {t. lstep\<^sup>*\<^sup>* s t} \<subseteq> {t. spin t 0 = Some 1 \<and> spin t 1 = Some 0}"
proof -
  obtain s where s: "lreach s" "spin s 0 = Some 1" "own s 0 = [0]" "spin s 1 = Some 0" "own s 1 = [1]"
    using deadlock_reachable by blast
  have "spin t 0 = Some 1 \<and> spin t 1 = Some 0" if "lstep\<^sup>*\<^sup>* s t" for t
    by (rule opposite_order_deadlock [OF s(1,2) _ s(4) _ that]) (simp_all only: s list.set insertI1)
  then show ?thesis using s by blast
qed

end
