(* ===== verification/Memory.thy ===== *)
theory Memory
  imports Params
begin

text \<open>
  Byte-addressed memory and the string.c library. Memory is a function from addresses to bytes;
  32-bit words are stored least significant byte first. The routines of string.c are translated
  loop by loop and shown equal to what their callers rely on: \<open>memset\<close> fills, \<open>memmove\<close> copies
  correctly also between overlapping regions, the string functions respect their bounds.
\<close>

type_synonym mem = "nat \<Rightarrow> u8"

section \<open>Words in memory\<close>

definition ld32 :: "mem \<Rightarrow> nat \<Rightarrow> nat" where
  "ld32 m a = unat (m a) + 256 * unat (m (a + 1)) + 65536 * unat (m (a + 2)) + 16777216 * unat (m (a + 3))"

definition st32 :: "nat \<Rightarrow> nat \<Rightarrow> mem \<Rightarrow> mem" where
  "st32 a v m = m(a := of_nat v, a + 1 := of_nat (v div 256), a + 2 := of_nat (v div 65536),
                  a + 3 := of_nat (v div 16777216))"

lemma unat_of_nat8 [simp]: "unat (of_nat v :: u8) = v mod 256"
  by (simp add: unsigned_of_nat take_bit_eq_mod)

lemma unat8_less [simp]: "unat (w :: u8) < 256"
  using unsigned_less [of w] by simp

lemma ld32_bound: "ld32 m a < 2 ^ 32"
proof -
  have "ld32 m a < 4294967296"
    using unat8_less [of "m a"] unat8_less [of "m (a + 1)"] unat8_less [of "m (a + 2)"]
      unat8_less [of "m (a + 3)"] unfolding ld32_def by linarith
  then show ?thesis by simp
qed

lemma bytes_of_word: "v < 2 ^ 32 \<Longrightarrow>
  v mod 256 + 256 * (v div 256 mod 256) + 65536 * (v div 65536 mod 256)
    + 16777216 * (v div 16777216 mod 256) = (v :: nat)"
proof -
  assume v: "v < 2 ^ 32"
  let ?a = "v div 256" and ?b = "v div 256 div 256" and ?c = "v div 256 div 256 div 256"
  have e: "v div 65536 = ?b" "v div 16777216 = ?c" by (simp_all add: div_mult2_eq [symmetric])
  have "?c < 256" using v by (simp add: div_mult2_eq [symmetric])
  then have "?c mod 256 = ?c" by simp
  moreover have "v mod 256 + 256 * ?a = v" "?a mod 256 + 256 * ?b = ?a" "?b mod 256 + 256 * ?c = ?b"
    by simp_all
  ultimately show ?thesis unfolding e by linarith
qed

lemma ld32_st32 [simp]: "v < 2 ^ 32 \<Longrightarrow> ld32 (st32 a v m) a = v"
  using bytes_of_word [of v] by (simp add: ld32_def st32_def)

lemma ld32_cong:
  "(\<And>i. i < 4 \<Longrightarrow> m (a + i) = m' (a + i)) \<Longrightarrow> ld32 m a = ld32 m' a"
proof -
  assume h: "\<And>i. i < 4 \<Longrightarrow> m (a + i) = m' (a + i)"
  show ?thesis using h [of 0] h [of 1] h [of 2] h [of 3] by (simp add: ld32_def)
qed

lemma st32_other: "x < a \<or> a + 4 \<le> x \<Longrightarrow> st32 a v m x = m x"
  by (auto simp: st32_def)

lemma ld32_st32_other [simp]: "b + 4 \<le> a \<or> a + 4 \<le> b \<Longrightarrow> ld32 (st32 a v m) b = ld32 m b"
  by (rule ld32_cong) (auto intro!: st32_other)

section \<open>string.c\<close>

text \<open>\<open>stosb\<close> and \<open>stosl\<close> of x86.h: \<open>rep stos\<close> with \<open>cnt\<close> repetitions.\<close>

fun stosb :: "nat \<Rightarrow> u8 \<Rightarrow> nat \<Rightarrow> mem \<Rightarrow> mem" where
  "stosb addr data 0 m = m"
| "stosb addr data (Suc cnt) m = stosb (addr + 1) data cnt (m(addr := data))"

fun stosl :: "nat \<Rightarrow> nat \<Rightarrow> nat \<Rightarrow> mem \<Rightarrow> mem" where
  "stosl addr data 0 m = m"
| "stosl addr data (Suc cnt) m = stosl (addr + 4) data cnt (st32 addr data m)"

definition memset :: "nat \<Rightarrow> u8 \<Rightarrow> nat \<Rightarrow> mem \<Rightarrow> mem" where
  "memset dst c n m =
     (if dst mod 4 = 0 \<and> n mod 4 = 0
      then stosl dst (unat c * 16777216 + unat c * 65536 + unat c * 256 + unat c) (n div 4) m
      else stosb dst c n m)"

fun memcmp :: "mem \<Rightarrow> nat \<Rightarrow> nat \<Rightarrow> nat \<Rightarrow> int" where
  "memcmp m s1 s2 0 = 0"
| "memcmp m s1 s2 (Suc n) =
     (if m s1 \<noteq> m s2 then int (unat (m s1)) - int (unat (m s2)) else memcmp m (s1 + 1) (s2 + 1) n)"

fun copy_up :: "nat \<Rightarrow> nat \<Rightarrow> nat \<Rightarrow> mem \<Rightarrow> mem" where
  "copy_up d s 0 m = m"
| "copy_up d s (Suc n) m = copy_up (d + 1) (s + 1) n (m(d := m s))"

fun copy_down :: "nat \<Rightarrow> nat \<Rightarrow> nat \<Rightarrow> mem \<Rightarrow> mem" where
  "copy_down d s 0 m = m"
| "copy_down d s (Suc n) m = copy_down (d - 1) (s - 1) n (m(d - 1 := m (s - 1)))"

definition memmove :: "nat \<Rightarrow> nat \<Rightarrow> nat \<Rightarrow> mem \<Rightarrow> mem" where
  "memmove dst src n m =
     (if src < dst \<and> dst < n32 (src + n) then copy_down (dst + n) (src + n) n m else copy_up dst src n m)"

definition memcpy :: "nat \<Rightarrow> nat \<Rightarrow> nat \<Rightarrow> mem \<Rightarrow> mem" where
  "memcpy dst src n m = memmove dst src n m"

fun strncmp :: "mem \<Rightarrow> nat \<Rightarrow> nat \<Rightarrow> nat \<Rightarrow> int" where
  "strncmp m p q 0 = 0"
| "strncmp m p q (Suc n) =
     (if m p \<noteq> 0 \<and> m p = m q then strncmp m (p + 1) (q + 1) n
      else int (unat (m p)) - int (unat (m q)))"

text \<open>\<open>strncpy\<close> and \<open>safestrcpy\<close> write through \<open>s\<close> what they read through \<open>t\<close>; the count is an
  \<open>int\<close>, and a count that is not positive copies nothing.\<close>

fun strncpy_loop :: "nat \<Rightarrow> nat \<Rightarrow> nat \<Rightarrow> mem \<Rightarrow> mem" where
  "strncpy_loop s t 0 m = m"
| "strncpy_loop s t (Suc n) m =
     (if m t \<noteq> 0 then strncpy_loop (s + 1) (t + 1) n (m(s := m t))
      else stosb (s + 1) 0 n (m(s := m t)))"

definition strncpy :: "nat \<Rightarrow> nat \<Rightarrow> int \<Rightarrow> mem \<Rightarrow> mem" where
  "strncpy s t n m = strncpy_loop s t (nat n) m"

fun safestrcpy_loop :: "nat \<Rightarrow> nat \<Rightarrow> nat \<Rightarrow> mem \<Rightarrow> mem" where
  "safestrcpy_loop s t 0 m = m(s := 0)"
| "safestrcpy_loop s t (Suc n) m =
     (if m t \<noteq> 0 then safestrcpy_loop (s + 1) (t + 1) n (m(s := m t)) else (m(s := m t))(s + 1 := 0))"

definition safestrcpy :: "nat \<Rightarrow> nat \<Rightarrow> int \<Rightarrow> mem \<Rightarrow> mem" where
  "safestrcpy s t n m = (if n \<le> 0 then m else safestrcpy_loop s t (nat n - 1) m)"

partial_function (option) strlen_from :: "mem \<Rightarrow> nat \<Rightarrow> nat \<Rightarrow> nat option" where
  "strlen_from m s n = (if m (s + n) \<noteq> 0 then strlen_from m s (n + 1) else Some n)"

definition strlen :: "mem \<Rightarrow> nat \<Rightarrow> nat option" where
  "strlen m s = strlen_from m s 0"

section \<open>What the routines compute\<close>

lemma stosb_at: "stosb a c n m x = (if a \<le> x \<and> x < a + n then c else m x)"
proof (induction n arbitrary: a m)
  case (Suc n)
  show ?case unfolding stosb.simps Suc.IH by auto
qed auto

lemma repeated_byte:
  assumes "(c :: nat) < 256"
  shows "(of_nat (c * 16777216 + c * 65536 + c * 256 + c) :: u8) = of_nat c"
    "(of_nat ((c * 16777216 + c * 65536 + c * 256 + c) div 256) :: u8) = of_nat c"
    "(of_nat ((c * 16777216 + c * 65536 + c * 256 + c) div 65536) :: u8) = of_nat c"
    "(of_nat ((c * 16777216 + c * 65536 + c * 256 + c) div 16777216) :: u8) = of_nat c"
proof -
  let ?w = "c * 16777216 + c * 65536 + c * 256 + c"
  let ?x = "c + 256 * (c + 256 * c)" and ?y = "c + 256 * c"
  have w: "?w = c + 256 * ?x" by simp
  have d: "(c + 256 * z) div 256 = z" "(c + 256 * z) mod 256 = c" for z using assms by simp_all
  have e: "?w div 65536 = ?w div 256 div 256" "?w div 16777216 = ?w div 256 div 256 div 256"
    by (simp_all add: div_mult2_eq [symmetric])
  have "?w mod 256 = c" "?w div 256 mod 256 = c" "?w div 65536 mod 256 = c" "?w div 16777216 mod 256 = c"
    unfolding e unfolding w d using assms by simp_all
  then show "(of_nat ?w :: u8) = of_nat c" "(of_nat (?w div 256) :: u8) = of_nat c"
    "(of_nat (?w div 65536) :: u8) = of_nat c" "(of_nat (?w div 16777216) :: u8) = of_nat c"
    using assms by (simp_all only: word_unat_eq_iff unat_of_nat8 mod_mod_trivial) simp_all
qed

lemma st32_repeated:
  "st32 a (unat c * 16777216 + unat c * 65536 + unat c * 256 + unat c) m x
     = (if a \<le> x \<and> x < a + 4 then c else m x)"
proof -
  have "of_nat (unat c) = c" by simp
  then show ?thesis unfolding st32_def repeated_byte [OF unat8_less [of c]] by auto
qed

lemma stosl_at:
  "w = unat c * 16777216 + unat c * 65536 + unat c * 256 + unat c \<Longrightarrow>
   stosl a w n m x = (if a \<le> x \<and> x < a + 4 * n then c else m x)"
proof (induction n arbitrary: a m)
  case (Suc n)
  show ?case unfolding stosl.simps Suc.IH [OF Suc.prems] unfolding Suc.prems st32_repeated by auto
qed auto

lemma memset_at: "memset a c n m x = (if a \<le> x \<and> x < a + n then c else m x)"
  by (auto simp: memset_def stosb_at stosl_at)

lemma copy_up_at:
  "d \<le> s \<or> s + n \<le> d \<Longrightarrow> copy_up d s n m x = (if d \<le> x \<and> x < d + n then m (s + (x - d)) else m x)"
proof (induction n arbitrary: d s m)
  case (Suc n)
  then have IH: "copy_up (d + 1) (s + 1) n (m(d := m s)) x
    = (if d + 1 \<le> x \<and> x < d + 1 + n then (m(d := m s)) (s + 1 + (x - (d + 1))) else (m(d := m s)) x)"
    by (intro Suc.IH) auto
  have "s + 1 + (x - (d + 1)) = s + (x - d)" "s + (x - d) \<noteq> d" if "d + 1 \<le> x" "x < d + 1 + n"
    using that Suc.prems by auto
  then show ?case unfolding copy_up.simps IH by auto
qed auto

lemma copy_down_at:
  "s \<le> d \<Longrightarrow> n \<le> s \<Longrightarrow>
   copy_down d s n m x = (if d - n \<le> x \<and> x < d then m (s - (d - x)) else m x)"
proof (induction n arbitrary: d s m)
  case (Suc n)
  have "n \<le> s - 1" "s - 1 \<le> d - 1" using Suc.prems by auto
  from Suc.IH [OF this(2,1)] show ?case using Suc.prems by auto
qed auto

text \<open>The bytes at \<open>a\<close> as a list, and a list of bytes written at \<open>a\<close>.\<close>

definition rd :: "mem \<Rightarrow> nat \<Rightarrow> nat \<Rightarrow> u8 list" where
  "rd m a n = map (\<lambda>i. m (a + i)) [0..<n]"

definition wr :: "nat \<Rightarrow> u8 list \<Rightarrow> mem \<Rightarrow> mem" where
  "wr a xs m = (\<lambda>x. if a \<le> x \<and> x < a + length xs then xs ! (x - a) else m x)"

lemma length_rd [simp]: "length (rd m a n) = n"
  by (simp add: rd_def)

lemma nth_rd [simp]: "i < n \<Longrightarrow> rd m a n ! i = m (a + i)"
  by (simp add: rd_def)

lemma rd_wr [simp]: "rd (wr a xs m) a (length xs) = xs"
  by (rule nth_equalityI) (simp_all add: wr_def)

lemma memmove_at:
  assumes "src + n < 2 ^ 32"
  shows "memmove dst src n m x = (if dst \<le> x \<and> x < dst + n then m (src + (x - dst)) else m x)"
proof -
  have s: "n32 (src + n) = src + n" using assms by (simp add: n32_def)
  show ?thesis
  proof (cases "src < dst \<and> dst < src + n")
    case True
    then have "copy_down (dst + n) (src + n) n m x
      = (if dst \<le> x \<and> x < dst + n then m (src + n - (dst + n - x)) else m x)"
      by (simp add: copy_down_at)
    moreover have "src + n - (dst + n - x) = src + (x - dst)" if "dst \<le> x" "x < dst + n"
      using that True by auto
    ultimately show ?thesis using True s by (simp add: memmove_def)
  next
    case False
    then show ?thesis using s by (auto simp: memmove_def copy_up_at)
  qed
qed

section \<open>C strings\<close>

text \<open>A C string at \<open>a\<close>: the bytes of a list without zero bytes, then a zero byte.\<close>

definition cstr :: "mem \<Rightarrow> nat \<Rightarrow> u8 list \<Rightarrow> bool" where
  "cstr m a xs \<longleftrightarrow> rd m a (length xs) = xs \<and> m (a + length xs) = 0 \<and> 0 \<notin> set xs"

lemma rd_Suc: "rd m a (Suc n) = m a # rd m (a + 1) n"
  by (rule nth_equalityI) (auto simp: nth_Cons split: nat.splits)

lemma rd_0 [simp]: "rd m a 0 = []"
  by (simp add: rd_def)

lemma cstr_Nil [simp]: "cstr m a [] \<longleftrightarrow> m a = 0"
  by (simp add: cstr_def)

lemma cstr_Cons [simp]: "cstr m a (x # xs) \<longleftrightarrow> x \<noteq> 0 \<and> m a = x \<and> cstr m (a + 1) xs"
  by (auto simp: cstr_def rd_Suc)

lemma rd_cong: "(\<And>x. a \<le> x \<Longrightarrow> x < a + n \<Longrightarrow> m x = m' x) \<Longrightarrow> rd m a n = rd m' a n"
  by (rule nth_equalityI) auto

lemma cstr_cong: "(\<And>x. a \<le> x \<Longrightarrow> x \<le> a + length xs \<Longrightarrow> m x = m' x) \<Longrightarrow> cstr m a xs = cstr m' a xs"
  using rd_cong [of a "length xs" m m'] by (simp add: cstr_def)

lemma strlen_cstr: "cstr m s xs \<Longrightarrow> strlen m s = Some (length xs)"
proof -
  assume c: "cstr m s xs"
  have "strlen_from m s k = Some (length xs)" if "k \<le> length xs" for k
    using that
  proof (induction "length xs - k" arbitrary: k)
    case 0
    then show ?case using c by (subst strlen_from.simps) (simp add: cstr_def)
  next
    case (Suc d)
    then have k: "k < length xs" by simp
    then have "m (s + k) = xs ! k" using c by (metis cstr_def nth_rd)
    then have "m (s + k) \<noteq> 0" using k c by (metis cstr_def nth_mem)
    then show ?case using Suc k by (subst strlen_from.simps) simp
  qed
  then show ?thesis by (simp add: strlen_def)
qed

lemma strncmp_eq:
  "cstr m p xs \<Longrightarrow> cstr m q ys \<Longrightarrow> strncmp m p q n = 0 \<longleftrightarrow> take n xs = take n ys"
proof (induction n arbitrary: p q xs ys)
  case (Suc n)
  have u: "int (unat v) - int (unat w) = 0 \<longleftrightarrow> v = w" for v w :: u8
    by (metis cancel_comm_monoid_add_class.diff_cancel eq_iff_diff_eq_0 of_nat_eq_iff word_unat_eq_iff)
  show ?case
  proof (cases "m p \<noteq> 0 \<and> m p = m q")
    case True
    then show ?thesis
      using Suc.prems Suc.IH [of "p + 1" _ "q + 1"] by (cases xs; cases ys) auto
  next
    case False
    then have "strncmp m p q (Suc n) = 0 \<longleftrightarrow> m p = m q"
      using u [of "m p" "m q"] by (simp only: strncmp.simps if_False)
    then show ?thesis using Suc.prems False by (cases xs; cases ys) auto
  qed
qed simp

lemma safestrcpy_loop_at:
  "x < s \<or> s + n < x \<Longrightarrow> safestrcpy_loop s t n m x = m x"
  by (induction s t n m rule: safestrcpy_loop.induct) auto

lemma safestrcpy_loop_cstr:
  assumes "cstr m t xs" "s + n < t \<or> t + length xs < s"
  shows "cstr (safestrcpy_loop s t n m) s (take n xs)"
  using assms
proof (induction n arbitrary: s t m xs)
  case 0
  then show ?case by simp
next
  case (Suc n)
  show ?case
  proof (cases xs)
    case Nil
    then show ?thesis using Suc.prems by simp
  next
    case (Cons y ys)
    let ?m = "m(s := m t)"
    have "cstr ?m (t + 1) ys"
      using Suc.prems Cons by (subst cstr_cong [of _ _ _ m]) auto
    then have "cstr (safestrcpy_loop (s + 1) (t + 1) n ?m) (s + 1) (take n ys)"
      by (rule Suc.IH) (use Suc.prems Cons in auto)
    moreover have "safestrcpy_loop (s + 1) (t + 1) n ?m s = m t"
      by (subst safestrcpy_loop_at) simp_all
    ultimately show ?thesis using Suc.prems Cons by simp
  qed
qed

section \<open>Properties\<close>

text \<open>C26: \<open>memmove\<close> copies also when the regions overlap: afterwards the destination holds the bytes
  the source had before, and nothing outside the destination has changed.\<close>

theorem memmove_copies:
  assumes "src + n < 2 ^ 32" "dst + n < 2 ^ 32"
  shows "rd (memmove dst src n m) dst n = rd m src n
    \<and> (\<forall>x. x < dst \<or> dst + n \<le> x \<longrightarrow> memmove dst src n m x = m x)"
  using memmove_at [OF assms(1)] by (auto intro: nth_equalityI)

theorem memmove_copies_witness:
  "rd (memmove 2 0 5 (\<lambda>a. of_nat a)) 2 5 = [0, 1, 2, 3, 4]"
proof -
  have "rd (memmove 2 0 5 (\<lambda>a. of_nat a)) 2 5 = rd (\<lambda>a. of_nat a) 0 5"
    using memmove_copies [of 0 5 2 "\<lambda>a. of_nat a"] by simp
  also have "\<dots> = [0, 1, 2, 3, 4]" by (simp add: rd_def numeral_eq_Suc)
  finally show ?thesis .
qed

text \<open>C27: \<open>safestrcpy\<close> always leaves a terminated string, the source cut to one byte less than the
  buffer, and never writes outside the buffer.\<close>

theorem safestrcpy_terminates:
  assumes "cstr m t xs" "0 < n" "s + nat n \<le> t \<or> t + length xs < s"
  shows "cstr (safestrcpy s t n m) s (take (nat n - 1) xs)
    \<and> (\<forall>x. x < s \<or> s + nat n \<le> x \<longrightarrow> safestrcpy s t n m x = m x)"
proof -
  have n: "nat n = Suc (nat n - 1)" using assms(2) by simp
  have "cstr (safestrcpy_loop s t (nat n - 1) m) s (take (nat n - 1) xs)"
    using assms(1,3) n by (intro safestrcpy_loop_cstr) auto
  then show ?thesis
    using assms(2) safestrcpy_loop_at [of _ s "nat n - 1" t m] by (auto simp: safestrcpy_def)
qed

theorem safestrcpy_terminates_witness:
  "cstr (safestrcpy 100 0 3 ((\<lambda>_. 0)(0 := 97, 1 := 98, 2 := 99))) 100 [97, 98]"
  using safestrcpy_terminates [of "(\<lambda>_. 0)(0 := 97, 1 := 98, 2 := 99)" 0 "[97, 98, 99]" 3 100] by simp

end
