(* ===== verification/Proc_Table.thy ===== *)
theory Proc_Table
  imports Kernel_Base
begin

text \<open>
  The operations of proc.c on the process table: accounting, priorities, sleeping and waking,
  killing, and giving up the CPU. Creation and destruction of processes are in \<open>Proc_Life\<close>, the
  two schedulers in \<open>Scheduler\<close>.

  \<open>sched\<close> ends in \<open>Block\<close>: control passes to the scheduler with \<open>ptable.lock\<close> held. What the
  caller does when it is picked again is the matching \<open>resume\<close> definition.
\<close>

section \<open>Operations\<close>

definition curr_time :: "('z kbase_scheme, int) k" where
  "curr_time = thenk (lock TicksLk) (bindk (kget ticks) (\<lambda>t.
     thenk (unlock TicksLk) (kret (sint t))))"

text \<open>\<open>set_max_time\<close>: the first loop counts the slots with a pid and sums their priorities, the
  second divides.\<close>

definition has_pid :: "proc \<Rightarrow> bool" where
  "has_pid p \<longleftrightarrow> pid p \<noteq> 0"

definition priority_sum :: "proc list \<Rightarrow> int" where
  "priority_sum ps = fold (\<lambda>p acc. if has_pid p then s32 (acc + priority p) else acc) ps 0"

definition proc_count :: "proc list \<Rightarrow> int" where
  "proc_count ps = fold (\<lambda>p acc. if has_pid p then acc + 1 else acc) ps 0"

definition set_max_time :: "('z kbase_scheme, int) k" where
  "set_max_time = bindk (kget procs) (\<lambda>ps.
     thenk (eachk (\<lambda>i. whenk (has_pid (ps ! i))
         (case idiv32 (s32 (10000 * priority (ps ! i))) (priority_sum ps) of
            None \<Rightarrow> kfault ''divide error''
          | Some v \<Rightarrow> set_proc i (\<lambda>p. p\<lparr>max_time := v\<rparr>))) [0..<length ps])
       (kret (proc_count ps)))"

text \<open>\<open>countprocs\<close>, called by the timer interrupt.\<close>

definition count_tick :: "proc \<Rightarrow> proc" where
  "count_tick p = (case state p of
     RUNNABLE \<Rightarrow> p\<lparr>retime := s32 (retime p + 1)\<rparr>
   | RUNNING \<Rightarrow> p\<lparr>rutime := s32 (rutime p + 1)\<rparr>
   | SLEEPING \<Rightarrow> p\<lparr>stime := s32 (stime p + 1)\<rparr>
   | _ \<Rightarrow> p)"

definition countprocs :: "('z kbase_scheme, unit) k" where
  "countprocs = thenk (lock PtableLk)
     (thenk (kput (\<lambda>s. s\<lparr>procs := map count_tick (procs s)\<rparr>)) (unlock PtableLk))"

definition set_priority :: "int \<Rightarrow> int \<Rightarrow> ('z kbase_scheme, int) k" where
  "set_priority n prio = thenk (lock PtableLk) (bindk (kget procs) (\<lambda>ps.
     thenk (case scan (\<lambda>p. pid p = n) ps of
              Some i \<Rightarrow> set_proc i (\<lambda>p. p\<lparr>priority := prio\<rparr>)
            | None \<Rightarrow> kret ())
       (thenk (unlock PtableLk) (kret n))))"

definition sched :: "('z kbase_scheme, unit) k" where
  "sched = bindk (kget held) (\<lambda>h.
     if PtableLk \<notin> set h then kpanic ''sched ptable.lock''
     else if length h \<noteq> 1 then kpanic ''sched locks''
     else bindk curproc (\<lambda>p. bindk (kget (\<lambda>s. state (proc_at s p))) (\<lambda>st.
       if st = RUNNING then kpanic ''sched running''
       else if h = [] then kpanic ''sched interruptible''
       else thenk (set_proc p (\<lambda>q. q\<lparr>counter := s32 (counter q + 1)\<rparr>)) kblock)))"

definition yield :: "('z kbase_scheme, unit) k" where
  "yield = thenk (lock PtableLk) (bindk curproc (\<lambda>p.
     thenk (set_proc p (\<lambda>q. q\<lparr>timeslice := s32 (timeslice q - 1)\<rparr>))
       (bindk (kget (\<lambda>s. timeslice (proc_at s p))) (\<lambda>t.
          thenk (whenk (t = 0) (thenk (set_proc p (\<lambda>q. q\<lparr>state := RUNNABLE\<rparr>)) sched))
            (unlock PtableLk)))))"

definition yield_resume :: "('z kbase_scheme, unit) k" where
  "yield_resume = unlock PtableLk"

definition sys_yield :: "('z kbase_scheme, int) k" where
  "sys_yield = thenk yield (kret 0)"

definition sleep :: "chan \<Rightarrow> lockid option \<Rightarrow> ('z kbase_scheme, unit) k" where
  "sleep ch lko = bindk (kget cur) (\<lambda>c. case c of None \<Rightarrow> kpanic ''sleep'' | Some p \<Rightarrow>
     (case lko of None \<Rightarrow> kpanic ''sleep without lk'' | Some lk \<Rightarrow>
       thenk (whenk (lk \<noteq> PtableLk) (thenk (lock PtableLk) (unlock lk)))
         (thenk (set_proc p (\<lambda>q. q\<lparr>chan := Some ch\<rparr>))
           (thenk (set_proc p (\<lambda>q. q\<lparr>state := SLEEPING\<rparr>)) sched))))"

definition sleep_resume :: "lockid \<Rightarrow> ('z kbase_scheme, unit) k" where
  "sleep_resume lk = bindk curproc (\<lambda>p. thenk (set_proc p (\<lambda>q. q\<lparr>chan := None\<rparr>))
     (whenk (lk \<noteq> PtableLk) (thenk (unlock PtableLk) (lock lk))))"

definition wakeup_proc :: "chan option \<Rightarrow> proc \<Rightarrow> proc" where
  "wakeup_proc c p = (if state p = SLEEPING \<and> chan p = c then p\<lparr>state := RUNNABLE\<rparr> else p)"

definition wakeup1 :: "chan option \<Rightarrow> ('z kbase_scheme, unit) k" where
  "wakeup1 c = kput (\<lambda>s. s\<lparr>procs := map (wakeup_proc c) (procs s)\<rparr>)"

definition wakeup :: "chan \<Rightarrow> ('z kbase_scheme, unit) k" where
  "wakeup c = thenk (lock PtableLk) (thenk (wakeup1 (Some c)) (unlock PtableLk))"

definition kill :: "int \<Rightarrow> ('z kbase_scheme, int) k" where
  "kill n = thenk (lock PtableLk) (bindk (kget procs) (\<lambda>ps.
     case scan (\<lambda>p. pid p = n) ps of
       Some i \<Rightarrow> thenk (set_proc i (\<lambda>p. p\<lparr>killed := True\<rparr>))
         (thenk (whenk (state (ps ! i) = SLEEPING) (set_proc i (\<lambda>p. p\<lparr>state := RUNNABLE\<rparr>)))
           (thenk (unlock PtableLk) (kret 0)))
     | None \<Rightarrow> thenk (unlock PtableLk) (kret (- 1))))"

text \<open>\<open>procdump\<close> prints one line per slot in use; the call stack of a sleeping process comes from
  \<open>getcallerpcs\<close> on its saved frame pointer, here the function \<open>pcs\<close> of the slot.\<close>

definition states_name :: "procstate \<Rightarrow> string" where
  "states_name st = (case st of UNUSED \<Rightarrow> ''unused'' | EMBRYO \<Rightarrow> ''embryo'' | SLEEPING \<Rightarrow> ''sleep ''
     | RUNNABLE \<Rightarrow> ''runble'' | RUNNING \<Rightarrow> ''run   '' | ZOMBIE \<Rightarrow> ''zombie'')"

definition procdump_lines :: "(nat \<Rightarrow> u32 list) \<Rightarrow> proc list \<Rightarrow> (int \<times> string \<times> string \<times> u32 list) list" where
  "procdump_lines pcs ps = map (\<lambda>i. let p = ps ! i in
       (pid p, states_name (state p), pname p,
        if state p = SLEEPING then takeWhile (\<lambda>pc. pc \<noteq> 0) (take 10 (pcs i)) else []))
     (filter (\<lambda>i. state (ps ! i) \<noteq> UNUSED) [0..<length ps])"

section \<open>Running the operations\<close>

lemma curr_time_run [simp]:
  "TicksLk \<notin> set (held s) \<Longrightarrow> curr_time s = Ok (sint (ticks s)) s"
  by (simp add: curr_time_def)

lemma countprocs_run:
  "PtableLk \<notin> set (held s) \<Longrightarrow> countprocs s = Ok () (s\<lparr>procs := map count_tick (procs s)\<rparr>)"
  by (simp add: countprocs_def)

lemma wakeup1_run [simp]: "wakeup1 c s = Ok () (s\<lparr>procs := map (wakeup_proc c) (procs s)\<rparr>)"
  by (simp add: wakeup1_def)

lemma wakeup_run [simp]:
  "wakeup c s = (if PtableLk \<in> set (held s) then Panic ''acquire''
     else Ok () (s\<lparr>procs := map (wakeup_proc (Some c)) (procs s)\<rparr>))"
  by (simp add: wakeup_def)

definition kill_proc :: "proc \<Rightarrow> proc" where
  "kill_proc p = (if state p = SLEEPING then p\<lparr>killed := True, state := RUNNABLE\<rparr>
                  else p\<lparr>killed := True\<rparr>)"

lemma kill_run:
  assumes "PtableLk \<notin> set (held s)"
  shows "kill n s = (case scan (\<lambda>p. pid p = n) (procs s) of
      Some i \<Rightarrow> Ok 0 (s\<lparr>procs := upd i kill_proc (procs s)\<rparr>)
    | None \<Rightarrow> Ok (- 1) s)"
  using assms by (auto simp: kill_def whenk_def kill_proc_def intro!: arg_cong [where f = "\<lambda>x. s\<lparr>procs := x\<rparr>"] upd_cong
    split: option.splits)

lemma set_priority_run:
  assumes "PtableLk \<notin> set (held s)"
  shows "set_priority n prio s = (case scan (\<lambda>p. pid p = n) (procs s) of
      Some i \<Rightarrow> Ok n (s\<lparr>procs := upd i (\<lambda>p. p\<lparr>priority := prio\<rparr>) (procs s)\<rparr>)
    | None \<Rightarrow> Ok n s)"
  using assms by (auto simp: set_priority_def split: option.splits)

lemma sched_run:
  assumes "held s = [PtableLk]" "cur s = Some p" "state (proc_at s p) \<noteq> RUNNING"
  shows "sched s = Block (s\<lparr>procs := upd p (\<lambda>q. q\<lparr>counter := s32 (counter q + 1)\<rparr>) (procs s)\<rparr>)"
  using assms by (simp add: sched_def)

lemma sched_block:
  "sched s = Block s' \<Longrightarrow> \<exists>p. cur s = Some p \<and> held s = [PtableLk] \<and> state (proc_at s p) \<noteq> RUNNING
     \<and> s' = s\<lparr>procs := upd p (\<lambda>q. q\<lparr>counter := s32 (counter q + 1)\<rparr>) (procs s)\<rparr>"
  by (cases "cur s") (auto simp: sched_def length_Suc_conv split: if_splits)

lemma sched_not_Ok [simp]: "sched s \<noteq> Ok x s'"
  by (cases "cur s") (auto simp: sched_def)

section \<open>The process table invariant\<close>

text \<open>
  \<open>ptable_ok\<close>: the table has its \<open>NPROC\<close> slots, every pid in it was handed out by \<open>nextpid\<close>,
  no two slots have the same non-zero pid, parents and the current process point into the table,
  and every process has its \<open>NOFILE\<close> descriptors.
\<close>

definition proc_ok :: "int \<Rightarrow> proc \<Rightarrow> bool" where
  "proc_ok np p \<longleftrightarrow> 0 \<le> pid p \<and> pid p < np \<and> (\<forall>q. parent p = Some q \<longrightarrow> q < NPROC)
     \<and> length (ofile p) = NOFILE"

definition ptable_ok :: "'z kbase_scheme \<Rightarrow> bool" where
  "ptable_ok s \<longleftrightarrow> length (procs s) = NPROC \<and> 1 \<le> nextpid s
     \<and> (\<forall>p \<in> set (procs s). proc_ok (nextpid s) p)
     \<and> (\<forall>i < NPROC. \<forall>j < NPROC. pid (proc_at s i) = pid (proc_at s j) \<longrightarrow> pid (proc_at s i) \<noteq> 0 \<longrightarrow> i = j)
     \<and> (\<forall>p. cur s = Some p \<longrightarrow> p < NPROC) \<and> (\<forall>p. initproc s = Some p \<longrightarrow> p < NPROC)"

lemma ptable_okD:
  assumes "ptable_ok s"
  shows "length (procs s) = NPROC" "1 \<le> nextpid s"
    "i < NPROC \<Longrightarrow> proc_ok (nextpid s) (proc_at s i)"
    "i < NPROC \<Longrightarrow> j < NPROC \<Longrightarrow> pid (proc_at s i) = pid (proc_at s j) \<Longrightarrow> pid (proc_at s i) \<noteq> 0 \<Longrightarrow> i = j"
    "cur s = Some p \<Longrightarrow> p < NPROC" "initproc s = Some p \<Longrightarrow> p < NPROC"
  using assms by (auto simp: ptable_ok_def)

text \<open>An update of the table that leaves pids, parents and descriptor tables alone.\<close>

definition benign :: "(proc \<Rightarrow> proc) \<Rightarrow> bool" where
  "benign f \<longleftrightarrow> (\<forall>p. pid (f p) = pid p \<and> parent (f p) = parent p \<and> length (ofile (f p)) = length (ofile p))"

lemma benignI:
  "(\<And>p. pid (f p) = pid p) \<Longrightarrow> (\<And>p. parent (f p) = parent p) \<Longrightarrow>
   (\<And>p. length (ofile (f p)) = length (ofile p)) \<Longrightarrow> benign f"
  by (simp add: benign_def)

lemma proc_ok_benign: "benign f \<Longrightarrow> proc_ok n (f p) = proc_ok n p"
  by (simp add: benign_def proc_ok_def)

lemma ptable_ok_procs:
  assumes "ptable_ok s" "length ps = NPROC"
    and "\<And>i. i < NPROC \<Longrightarrow> \<exists>f. benign f \<and> ps ! i = f (proc_at s i)"
  shows "ptable_ok (s\<lparr>procs := ps\<rparr>)"
proof -
  have ok: "proc_ok (nextpid s) (ps ! i)" and pid: "pid (ps ! i) = pid (proc_at s i)" if "i < NPROC" for i
    using assms(3) [OF that] ptable_okD(3) [OF assms(1) that] by (auto simp: proc_ok_benign benign_def)
  have "proc_ok (nextpid s) p" if "p \<in> set ps" for p
    using that ok assms(2) by (auto simp: in_set_conv_nth)
  moreover have "i = j" if "i < NPROC" "j < NPROC" "pid (ps ! i) = pid (ps ! j)" "pid (ps ! i) \<noteq> 0" for i j
    using ptable_okD(4) [OF assms(1) that(1,2)] pid that by simp
  ultimately show ?thesis using assms(1,2) by (simp add: ptable_ok_def)
qed

lemma benign_id: "benign (\<lambda>p. p)"
  by (simp add: benign_def)

lemma ptable_ok_upd: "ptable_ok s \<Longrightarrow> benign f \<Longrightarrow> ptable_ok (s\<lparr>procs := upd i f (procs s)\<rparr>)"
proof (rule ptable_ok_procs)
  fix j assume a: "ptable_ok s" "benign f" "j < NPROC"
  then show "\<exists>g. benign g \<and> upd i f (procs s) ! j = g (proc_at s j)"
    using ptable_okD(1) [OF a(1)] benign_id by (cases "i = j") auto
qed (auto dest: ptable_okD(1))

lemma ptable_ok_map: "ptable_ok s \<Longrightarrow> benign f \<Longrightarrow> ptable_ok (s\<lparr>procs := map f (procs s)\<rparr>)"
  by (rule ptable_ok_procs) (auto simp: ptable_okD(1))

lemma ptable_ok_held [simp]: "ptable_ok (s\<lparr>held := h\<rparr>) = ptable_ok s"
  by (simp add: ptable_ok_def)

lemma keeps_lock [keeps_intro]: "keeps ptable_ok (lock l)"
  by (rule keepsI) (auto split: if_splits)

lemma keeps_unlock [keeps_intro]: "keeps ptable_ok (unlock l)"
  by (rule keepsI) (auto split: if_splits)

lemma keeps_curproc [keeps_intro]: "keeps I curproc"
  by (rule keepsI) (auto split: option.splits)

lemma keeps_set_proc [keeps_intro]: "benign f \<Longrightarrow> keeps ptable_ok (set_proc i f)"
  by (rule keepsI) (auto intro: ptable_ok_upd)

lemma keeps_map_procs [keeps_intro]:
  "benign f \<Longrightarrow> keeps ptable_ok (kput (\<lambda>s. s\<lparr>procs := map f (procs s)\<rparr>))"
  by (rule keeps_put) (rule ptable_ok_map)

lemma benign_simps [simp, intro]:
  "benign (\<lambda>p. p\<lparr>max_time := v\<rparr>)" "benign count_tick" "benign (wakeup_proc c)" "benign kill_proc"
  "benign (\<lambda>p. p\<lparr>priority := v\<rparr>)" "benign (\<lambda>p. p\<lparr>state := st\<rparr>)" "benign (\<lambda>p. p\<lparr>chan := c\<rparr>)"
  "benign (\<lambda>p. p\<lparr>killed := b\<rparr>)" "benign (\<lambda>p. p\<lparr>counter := s32 (counter p + 1)\<rparr>)"
  "benign (\<lambda>p. p\<lparr>timeslice := s32 (timeslice p - 1)\<rparr>)"
  by (simp_all add: benign_def count_tick_def wakeup_proc_def kill_proc_def split: procstate.splits)

lemma keeps_curr_time [keeps_intro]: "keeps ptable_ok curr_time"
  unfolding curr_time_def by (intro keeps_intro)

lemma keeps_set_max_time [keeps_intro]: "keeps ptable_ok set_max_time"
  unfolding set_max_time_def by (intro keeps_intro benign_simps)

lemma keeps_countprocs [keeps_intro]: "keeps ptable_ok countprocs"
  unfolding countprocs_def by (intro keeps_intro benign_simps)

lemma keeps_set_priority [keeps_intro]: "keeps ptable_ok (set_priority n v)"
  unfolding set_priority_def by (intro keeps_intro benign_simps)

lemma keeps_sched [keeps_intro]: "keeps ptable_ok sched"
  unfolding sched_def by (intro keeps_intro benign_simps)

lemma keeps_yield [keeps_intro]: "keeps ptable_ok yield"
  unfolding yield_def by (intro keeps_intro benign_simps)

lemma keeps_sleep [keeps_intro]: "keeps ptable_ok (sleep c l)"
  unfolding sleep_def by (intro keeps_intro benign_simps)

lemma keeps_sleep_resume [keeps_intro]: "keeps ptable_ok (sleep_resume l)"
  unfolding sleep_resume_def by (intro keeps_intro benign_simps)

lemma keeps_wakeup [keeps_intro]: "keeps ptable_ok (wakeup c)"
  unfolding wakeup_def wakeup1_def by (intro keeps_intro benign_simps)

lemma keeps_kill [keeps_intro]: "keeps ptable_ok (kill n)"
  unfolding kill_def by (intro keeps_intro benign_simps)

section \<open>Time slices\<close>

primrec yields :: "nat \<Rightarrow> ('z kbase_scheme, unit) k" where
  "yields 0 = kret ()"
| "yields (Suc k) = thenk (yields k) yield"

definition sliced :: "nat \<Rightarrow> nat \<Rightarrow> 'z kbase_scheme \<Rightarrow> 'z kbase_scheme" where
  "sliced p k s = s\<lparr>procs := upd p (\<lambda>q. q\<lparr>timeslice := s32 (timeslice q - int k)\<rparr>) (procs s)\<rparr>"

lemma sliced_simps [simp]:
  "held (sliced p k s) = held s" "cur (sliced p k s) = cur s"
  "length (procs (sliced p k s)) = length (procs s)"
  "p < length (procs s) \<Longrightarrow> timeslice (proc_at (sliced p k s) p) = s32 (timeslice (proc_at s p) - int k)"
  by (simp_all add: sliced_def)

lemma s32_s32_diff: "s32 (s32 x - y) = s32 (x - y)"
  using s32_s32_add [of x "- y"] by simp

lemma sliced_sliced: "sliced p (Suc 0) (sliced p k s) = sliced p (Suc k) s"
  by (simp add: sliced_def s32_s32_diff algebra_simps)

lemma yield_run:
  assumes "PtableLk \<notin> set (held s)" "cur s = Some p" "p < length (procs s)"
  shows "yield s = (if s32 (timeslice (proc_at s p) - 1) \<noteq> 0 then Ok () (sliced p 1 s)
    else thenk (set_proc p (\<lambda>q. q\<lparr>state := RUNNABLE\<rparr>)) sched ((sliced p 1 s)\<lparr>held := PtableLk # held s\<rparr>))"
  using assms
  by (auto simp: yield_def sliced_def thenk_def bindk_def split: res.splits)

lemma yields_run:
  assumes "PtableLk \<notin> set (held s)" "cur s = Some p" "p < length (procs s)"
    and "s32 (timeslice (proc_at s p)) = timeslice (proc_at s p)"
    and "\<And>j. 0 < j \<Longrightarrow> j \<le> k \<Longrightarrow> s32 (timeslice (proc_at s p) - int j) \<noteq> 0"
  shows "yields k s = Ok () (sliced p k s)"
  using assms(5)
proof (induction k)
  case 0
  have "upd p (\<lambda>q. q\<lparr>timeslice := s32 (timeslice q)\<rparr>) (procs s) = procs s"
    using assms(3,4) by (simp add: upd_def)
  then show ?case by (simp add: sliced_def)
next
  case (Suc k)
  then have "yields k s = Ok () (sliced p k s)" by simp
  moreover have "yield (sliced p k s) = Ok () (sliced p (Suc k) s)"
    using assms(1-3) Suc.prems [of "Suc k"] yield_run [of "sliced p k s" p]
    by (simp add: sliced_sliced s32_s32_diff algebra_simps)
  ultimately show ?case by simp
qed

text \<open>How many calls of \<open>yield\<close> a time slice of \<open>t\<close> lasts: \<open>t\<close> when it is positive; otherwise the
  counter runs through the negative numbers and wraps.\<close>

definition slice_len :: "int \<Rightarrow> nat" where
  "slice_len t = nat (if 0 < t then t else t + 2 ^ 32)"

lemma s32_zero_iff: "- (2 ^ 32) < x \<Longrightarrow> x < 2 ^ 32 \<Longrightarrow> s32 x = 0 \<longleftrightarrow> x = 0"
proof -
  assume x: "- (2 ^ 32) < x" "x < 2 ^ 32"
  define q where "q = (x + 2 ^ 31) div 2 ^ 32"
  have e: "x + 2 ^ 31 = 2 ^ 32 * q + (x + 2 ^ 31) mod 2 ^ 32"
    unfolding q_def by (rule mult_div_mod_eq [symmetric])
  have "x = 0" if "s32 x = 0"
  proof -
    have "x = 4294967296 * q" using e that by (simp add: s32_def)
    then show ?thesis using x by auto
  qed
  then show ?thesis by (auto simp: s32_def)
qed

section \<open>Shares of the CPU\<close>

lemma eachk_set_procs:
  assumes "\<And>i. i < n \<Longrightarrow> c i = set_proc i (g i)"
  shows "n \<le> length (procs s) \<Longrightarrow> eachk c [0..<n] s =
    Ok () (s\<lparr>procs := map (\<lambda>i. if i < n then g i (proc_at s i) else proc_at s i) [0..<length (procs s)]\<rparr>)"
  using assms
proof (induction n)
  case 0
  then show ?case by (simp add: map_nth)
next
  case (Suc n)
  have "upd n (g n) (map (\<lambda>i. if i < n then g i (proc_at s i) else proc_at s i) [0..<length (procs s)])
      = map (\<lambda>i. if i < Suc n then g i (proc_at s i) else proc_at s i) [0..<length (procs s)]"
    using Suc.prems(1) by (intro nth_equalityI) (auto simp: nth_upd)
  then show ?case using Suc by (simp add: eachk_append)
qed

lemma fold_guard:
  "fold (\<lambda>p acc. if P p then f p acc else acc) ps a = fold f (filter P ps) a"
  by (induction ps arbitrary: a) auto

lemma fold_s32_sum:
  assumes "\<And>p. p \<in> set ps \<Longrightarrow> 0 \<le> f p" "0 \<le> a" "a + sum_list (map f ps) < 2 ^ 31"
  shows "fold (\<lambda>p acc. s32 (acc + f p)) ps a = a + sum_list (map f ps)"
  using assms
proof (induction ps arbitrary: a)
  case Nil
  then show ?case by simp
next
  case (Cons p ps)
  have "0 \<le> sum_list (map f ps)" using Cons.prems(1) by (intro sum_list_nonneg) auto
  moreover have "0 \<le> f p" using Cons.prems(1) by simp
  ultimately have "s32 (a + f p) = a + f p" using Cons.prems(2,3) by (intro s32_id) auto
  then show ?case using Cons by (simp add: add.assoc)
qed

abbreviation live :: "proc list \<Rightarrow> proc list" where
  "live ps \<equiv> filter has_pid ps"

lemma priority_sum_eq:
  assumes "\<forall>p \<in> set (live ps). 0 \<le> priority p" "sum_list (map priority (live ps)) < 2 ^ 31"
  shows "priority_sum ps = sum_list (map priority (live ps))"
  unfolding priority_sum_def fold_guard using assms by (subst fold_s32_sum) auto

lemma proc_count_eq: "proc_count ps = int (length (live ps))"
proof -
  have "fold (\<lambda>_ acc. acc + 1) xs a = a + int (length xs)" for xs :: "proc list" and a
    by (induction xs arbitrary: a) auto
  then show ?thesis by (simp add: proc_count_def fold_guard)
qed

lemma share_sum_bounds:
  fixes xs :: "int list"
  assumes "0 < S"
  shows "S * sum_list (map (\<lambda>x. c * x div S) xs) \<le> c * sum_list xs
    \<and> c * sum_list xs \<le> S * sum_list (map (\<lambda>x. c * x div S) xs) + (S - 1) * int (length xs)"
proof (induction xs)
  case Nil
  then show ?case by simp
next
  case (Cons x xs)
  have d: "c * x = S * (c * x div S) + c * x mod S" by (rule mult_div_mod_eq [symmetric])
  have m: "0 \<le> c * x mod S" "c * x mod S \<le> S - 1" using assms by simp_all
  have "(S - 1) * int (length (x # xs)) = (S - 1) * int (length xs) + (S - 1)"
    by (simp add: algebra_simps)
  then show ?case using Cons d m by (simp only: list.map sum_list.Cons distrib_left) linarith
qed

definition share :: "proc list \<Rightarrow> proc \<Rightarrow> proc" where
  "share ps p = (if has_pid p then p\<lparr>max_time := 10000 * priority p div priority_sum ps\<rparr> else p)"

lemma set_max_time_run:
  assumes pr: "\<forall>p \<in> set (live (procs s)). 0 \<le> priority p \<and> priority p \<le> 214748"
    and S: "0 < priority_sum (procs s)"
  shows "set_max_time s = Ok (proc_count (procs s)) (s\<lparr>procs := map (share (procs s)) (procs s)\<rparr>)"
proof -
  let ?c = "\<lambda>i. whenk (has_pid (proc_at s i))
         (case idiv32 (s32 (10000 * priority (proc_at s i))) (priority_sum (procs s)) of
            None \<Rightarrow> kfault ''divide error''
          | Some v \<Rightarrow> set_proc i (\<lambda>p. p\<lparr>max_time := v\<rparr>))"
  let ?g = "\<lambda>i p. if has_pid (proc_at s i)
      then p\<lparr>max_time := 10000 * priority (proc_at s i) div priority_sum (procs s)\<rparr> else p"
  have "?c i = set_proc i (?g i)" if "i < length (procs s)" for i
  proof (cases "has_pid (proc_at s i)")
    case True
    then have "0 \<le> priority (proc_at s i)" "priority (proc_at s i) \<le> 214748" using pr that by auto
    then have "s32 (10000 * priority (proc_at s i)) = 10000 * priority (proc_at s i)"
      "0 \<le> priority (proc_at s i)" by (simp_all add: s32_id)
    then show ?thesis using True S by (simp add: idiv32_pos)
  next
    case False
    then show ?thesis by (simp add: fun_eq_iff upd_def)
  qed
  from eachk_set_procs [of "length (procs s)" ?c ?g s, OF this]
  have "eachk ?c [0..<length (procs s)] s
      = Ok () (s\<lparr>procs := map (\<lambda>i. ?g i (proc_at s i)) [0..<length (procs s)]\<rparr>)"
    by (simp only: le_refl if_True cong: map_cong) simp
  also have "map (\<lambda>i. ?g i (proc_at s i)) [0..<length (procs s)] = map (share (procs s)) (procs s)"
    by (intro nth_equalityI) (auto simp: share_def)
  finally show ?thesis by (simp add: set_max_time_def)
qed

section \<open>Properties\<close>

text \<open>C20: \<open>kill\<close> hits exactly the process with the given pid: it becomes killed and, if it was
  asleep, runnable; no other slot changes and the table stays well formed.\<close>

theorem kill_exact:
  assumes "ptable_ok s" "PtableLk \<notin> set (held s)" "i < NPROC" "pid (proc_at s i) = n" "n \<noteq> 0"
  shows "\<exists>s'. kill n s = Ok 0 s' \<and> ptable_ok s' \<and> killed (proc_at s' i)
    \<and> state (proc_at s' i) = (if state (proc_at s i) = SLEEPING then RUNNABLE else state (proc_at s i))
    \<and> (\<forall>j. j \<noteq> i \<longrightarrow> proc_at s' j = proc_at s j)"
proof -
  note len = ptable_okD(1) [OF assms(1)]
  obtain j where j: "scan (\<lambda>p. pid p = n) (procs s) = Some j"
    using scan_ex [of i "procs s" "\<lambda>p. pid p = n"] assms(3,4) len by auto
  then have "j = i" using ptable_okD(4) [OF assms(1), of j i] scan_SomeD [OF j] assms(3-5) len by simp
  with j have k: "kill n s = Ok 0 (s\<lparr>procs := upd i kill_proc (procs s)\<rparr>)"
    using kill_run [OF assms(2)] by simp
  moreover have "ptable_ok (s\<lparr>procs := upd i kill_proc (procs s)\<rparr>)"
    by (rule ptable_ok_upd [OF assms(1)]) simp
  ultimately show ?thesis using assms(3) len
    by (intro exI [of _ "s\<lparr>procs := upd i kill_proc (procs s)\<rparr>"]) (auto simp: kill_proc_def)
qed

definition one_sleeper :: kbase where
  "one_sleeper = boot_kbase\<lparr>procs := (procs boot_kbase)
     [3 := zero_proc\<lparr>state := SLEEPING, pid := 7, chan := Some ChTicks\<rparr>], nextpid := 8\<rparr>"

lemma nth_sleeper:
  "i < 64 \<Longrightarrow> procs one_sleeper ! i
     = (if i = 3 then zero_proc\<lparr>state := SLEEPING, pid := 7, chan := Some ChTicks\<rparr> else zero_proc)"
  by (simp add: one_sleeper_def boot_kbase_def nth_list_update)

lemma one_sleeper_ok: "ptable_ok one_sleeper"
proof -
  have len: "length (procs one_sleeper) = 64"
    by (simp add: one_sleeper_def boot_kbase_def)
  have "proc_ok 8 p" if "p \<in> set (procs one_sleeper)" for p
    using that len by (auto simp: in_set_conv_nth nth_sleeper proc_ok_def zero_proc_def split: if_splits)
  then show ?thesis using len unfolding ptable_ok_def
    by (auto simp: nth_sleeper zero_proc_def split: if_splits) (simp_all add: one_sleeper_def boot_kbase_def)
qed

theorem kill_exact_witness:
  "\<exists>s'. kill 7 one_sleeper = Ok 0 s' \<and> killed (proc_at s' 3) \<and> state (proc_at s' 3) = RUNNABLE"
proof -
  have "PtableLk \<notin> set (held one_sleeper)" by (simp add: one_sleeper_def boot_kbase_def)
  moreover have "pid (proc_at one_sleeper 3) = 7" "state (proc_at one_sleeper 3) = SLEEPING"
    by (simp_all add: nth_sleeper)
  ultimately show ?thesis using kill_exact [OF one_sleeper_ok, of 3 7] by auto
qed

text \<open>C21: a time slice lasts exactly \<open>slice_len t\<close> timer interrupts: every earlier \<open>yield\<close> returns
  to the caller with the slice one shorter, and the last one makes the process runnable and enters
  the scheduler. A slice of 5 gives 5; a slice that was never set (0, the \<open>PRIORITY\<close> build) lasts
  \<open>2 ^ 32\<close> interrupts.\<close>

theorem yield_preempts:
  assumes "held s = []" "cur s = Some p" "p < length (procs s)"
    and "- (2 ^ 31) \<le> timeslice (proc_at s p)" "timeslice (proc_at s p) < 2 ^ 31"
  shows "(\<forall>k < slice_len (timeslice (proc_at s p)). \<exists>s'. yields k s = Ok () s'
        \<and> state (proc_at s' p) = state (proc_at s p)
        \<and> timeslice (proc_at s' p) = s32 (timeslice (proc_at s p) - int k))
    \<and> (\<exists>s'. yields (slice_len (timeslice (proc_at s p))) s = Block s'
        \<and> state (proc_at s' p) = RUNNABLE \<and> held s' = [PtableLk])"
proof -
  let ?t = "timeslice (proc_at s p)"
  have t: "s32 ?t = ?t" using assms(4,5) by (rule s32_id)
  have nz: "s32 (?t - int j) \<noteq> 0" if "0 < j" "j < slice_len ?t" for j
    using that assms(4,5) by (subst s32_zero_iff) (auto simp: slice_len_def split: if_splits)
  have run: "yields k s = Ok () (sliced p k s)" if "k < slice_len ?t" for k
    using that nz by (intro yields_run [OF _ assms(2,3) t]) (simp_all add: assms(1))
  obtain m where m: "slice_len ?t = Suc m"
    using assms(4,5) by (cases "slice_len ?t") (auto simp: slice_len_def split: if_splits)
  have z: "s32 (?t - int (Suc m)) = 0"
  proof (cases "0 < ?t")
    case True
    then have "?t = int (Suc m)" using m by (simp add: slice_len_def)
    then show ?thesis by (simp add: s32_def)
  next
    case False
    then have e: "?t - int (Suc m) = - (2 ^ 32)" using m assms(4) by (simp add: slice_len_def)
    show ?thesis unfolding e by (simp add: s32_def)
  qed
  then have "s32 (timeslice (proc_at (sliced p m s) p) - 1) = 0"
    using assms(3) by (simp add: s32_s32_diff algebra_simps)
  then have "\<exists>s'. yield (sliced p m s) = Block s' \<and> state (proc_at s' p) = RUNNABLE \<and> held s' = [PtableLk]"
    using assms(1-3) by (simp add: yield_run sliced_sliced sched_run)
  then show ?thesis using run m assms(3)
    by (auto simp: sliced_def intro!: exI)
qed

definition one_running :: kbase where
  "one_running = \<lparr>held = [], procs = [zero_proc\<lparr>state := RUNNING, pid := 1, timeslice := 5\<rparr>],
     nextpid = 2, initproc = Some 0, ticks = 0, cur = Some 0, cr3 = 0, esp0 = 0, kpgdir = 0\<rparr>"

theorem yield_preempts_witness:
  "(\<exists>s'. yields 4 one_running = Ok () s' \<and> state (proc_at s' 0) = RUNNING)
   \<and> (\<exists>s'. yields 5 one_running = Block s' \<and> state (proc_at s' 0) = RUNNABLE)"
proof -
  have o: "held one_running = []" "cur one_running = Some 0" "0 < length (procs one_running)"
    "timeslice (proc_at one_running 0) = 5" "state (proc_at one_running 0) = RUNNING"
    by (simp_all add: one_running_def)
  have five: "slice_len 5 = 5" by (simp add: slice_len_def)
  have y: "(\<forall>k < 5. \<exists>s'. yields k one_running = Ok () s' \<and> state (proc_at s' 0) = RUNNING
        \<and> timeslice (proc_at s' 0) = s32 (5 - int k))
    \<and> (\<exists>s'. yields 5 one_running = Block s' \<and> state (proc_at s' 0) = RUNNABLE \<and> held s' = [PtableLk])"
    using yield_preempts [OF o(1-3)] unfolding o five by simp
  from y [THEN conjunct1, THEN spec [of _ 4]] y show ?thesis by auto
qed

text \<open>C22: the shares that \<open>set_max_time\<close> hands out are proportional to the priorities, rounded
  down, and together use up the 10000 units of a round except for less than one unit per process.\<close>

theorem set_max_time_shares:
  assumes "\<forall>p \<in> set (live (procs s)). 0 \<le> priority p \<and> priority p \<le> 214748"
    and "length (procs s) = NPROC" and "0 < sum_list (map priority (live (procs s)))"
  shows "\<exists>s'. set_max_time s = Ok (int (length (live (procs s)))) s'
    \<and> (\<forall>i < NPROC. has_pid (proc_at s i) \<longrightarrow> max_time (proc_at s' i)
          = 10000 * priority (proc_at s i) div sum_list (map priority (live (procs s))))
    \<and> sum_list (map max_time (live (procs s'))) \<le> 10000
    \<and> 10000 - int (length (live (procs s))) < sum_list (map max_time (live (procs s')))"
proof -
  let ?l = "live (procs s)" and ?S = "sum_list (map priority (live (procs s)))"
  let ?s' = "s\<lparr>procs := map (share (procs s)) (procs s)\<rparr>"
  have "?S \<le> sum_list (map (\<lambda>_. 214748) ?l)" using assms(1) by (intro sum_list_mono) auto
  also have "\<dots> = 214748 * int (length ?l)" by (simp add: sum_list_triv)
  also have "length ?l \<le> NPROC" using assms(2) length_filter_le [of has_pid "procs s"] by simp
  then have "214748 * int (length ?l) < 2 ^ 31" by simp
  finally have S: "priority_sum (procs s) = ?S" using assms(1) by (intro priority_sum_eq) auto
  have run: "set_max_time s = Ok (int (length ?l)) ?s'"
    using set_max_time_run [OF assms(1)] S assms(3) by (simp add: proc_count_eq)
  have hp: "has_pid \<circ> share (procs s) = has_pid"
    by (auto simp: share_def has_pid_def fun_eq_iff)
  have "map max_time (live (procs ?s')) = map (\<lambda>x. 10000 * x div ?S) (map priority ?l)"
    by (auto simp: filter_map hp share_def S)
  then have "?S * sum_list (map max_time (live (procs ?s'))) \<le> 10000 * ?S"
    "10000 * ?S \<le> ?S * sum_list (map max_time (live (procs ?s'))) + (?S - 1) * int (length ?l)"
    using share_sum_bounds [OF assms(3), of 10000 "map priority ?l"] by simp_all
  moreover have "0 < int (length ?l)" using assms(3) by (cases ?l) auto
  then have "(?S - 1) * int (length ?l) < ?S * int (length ?l)" by simp
  ultimately have "?S * sum_list (map max_time (live (procs ?s'))) \<le> ?S * 10000"
    "?S * 10000 < ?S * (sum_list (map max_time (live (procs ?s'))) + int (length ?l))"
    by (simp_all only: distrib_left mult.commute [of _ 10000])
  then have "sum_list (map max_time (live (procs ?s'))) \<le> 10000"
    "10000 < sum_list (map max_time (live (procs ?s'))) + int (length ?l)"
    using assms(3) mult_le_cancel_left_pos mult_less_cancel_left_pos by blast+
  then show ?thesis using run assms(2) by (auto simp: share_def S intro!: exI [of _ ?s'])
qed

definition three_prios :: kbase where
  "three_prios = boot_kbase\<lparr>procs := map (\<lambda>v. zero_proc\<lparr>pid := v, priority := v\<rparr>) [1, 2, 4]
     @ replicate 61 zero_proc\<rparr>"

theorem set_max_time_shares_witness:
  "\<exists>s'. set_max_time three_prios = Ok 3 s' \<and> max_time (proc_at s' 2) = 5714
     \<and> sum_list (map max_time (live (procs s'))) \<le> 10000"
proof -
  have l: "live (procs three_prios) = map (\<lambda>v. zero_proc\<lparr>pid := v, priority := v\<rparr>) [1, 2, 4]"
    by (simp add: three_prios_def has_pid_def zero_proc_def)
  have S: "sum_list (map priority (live (procs three_prios))) = 7" unfolding l by simp
  have "length (procs three_prios) = NPROC" by (simp add: three_prios_def)
  moreover have "\<forall>p \<in> set (live (procs three_prios)). 0 \<le> priority p \<and> priority p \<le> 214748"
    unfolding l by simp
  ultimately obtain s' where s': "set_max_time three_prios = Ok (int (length (live (procs three_prios)))) s'"
    "\<forall>i < NPROC. has_pid (proc_at three_prios i) \<longrightarrow>
       max_time (proc_at s' i) = 10000 * priority (proc_at three_prios i) div 7"
    "sum_list (map max_time (live (procs s'))) \<le> 10000"
    using set_max_time_shares [of three_prios] unfolding S by auto
  moreover have "has_pid (proc_at three_prios 2)" "priority (proc_at three_prios 2) = 4"
    by (simp_all add: three_prios_def has_pid_def)
  ultimately show ?thesis using l by (intro exI [of _ s']) auto
qed

end
