(* ===== verification/Scheduler.thy ===== *)
theory Scheduler
  imports Rand Proc_Table
begin

text \<open>
  The two schedulers of proc.c. The Makefile compiles one of them in, \<open>LOTTERY\<close> by default.
  A scheduler never returns; it is modelled round by round, each round ending at the \<open>swtch\<close>
  into the chosen process (result \<open>Some i\<close>, with \<open>ptable.lock\<close> held for the process to
  release) or at the end of the table (\<open>None\<close>). The code after \<open>swtch\<close> returns is a definition
  of its own.
\<close>

section \<open>State\<close>

text \<open>Adds the generator of rand.c, the global \<open>proc_quantum\<close>, and the interrupt flag of the
  scheduler thread (which matters only while it holds no lock).\<close>

record ksched = kbase +
  rng :: mt_state
  proc_quantum :: int
  intr_flag :: bool

section \<open>Switching address spaces (vm.c)\<close>

definition switchkvm :: "('z kbase_scheme, unit) k" where
  "switchkvm = kput (\<lambda>s. s\<lparr>cr3 := V2P (kpgdir s)\<rparr>)"

definition switchuvm :: "nat option \<Rightarrow> ('z kbase_scheme, unit) k" where
  "switchuvm po = (case po of None \<Rightarrow> kpanic ''switchuvm: no process'' | Some p \<Rightarrow>
     bindk (kget (\<lambda>s. proc_at s p)) (\<lambda>q.
       if kstack q = 0 then kpanic ''switchuvm: no kstack''
       else if pgdir q = 0 then kpanic ''switchuvm: no pgdir''
       else kput (\<lambda>s. s\<lparr>esp0 := n32 (kstack q + KSTACKSIZE), cr3 := V2P (pgdir q)\<rparr>)))"

section \<open>The lottery scheduler\<close>

definition total_tickets :: "proc list \<Rightarrow> int" where
  "total_tickets ps = fold (\<lambda>p acc. if state p = RUNNABLE then s32 (acc + tickets p) else acc) ps 0"

text \<open>The second loop: advance until \<open>tickets_passed\<close> reaches the winning ticket.\<close>

fun lottery_scan :: "int \<Rightarrow> int \<Rightarrow> proc list \<Rightarrow> nat option" where
  "lottery_scan winner passed [] = None"
| "lottery_scan winner passed (p # ps) =
     (if state p \<noteq> RUNNABLE then map_option Suc (lottery_scan winner passed ps)
      else if s32 (passed + tickets p) < winner
        then map_option Suc (lottery_scan winner (s32 (passed + tickets p)) ps)
      else Some 0)"

definition run_rng :: "(mt_state \<Rightarrow> ('a, mt_state) res) \<Rightarrow> ('z ksched_scheme, 'a) k" where
  "run_rng f s = (case f (rng s) of Ok v r \<Rightarrow> Ok v (s\<lparr>rng := r\<rparr>) | Panic m \<Rightarrow> Panic m
     | Fault m \<Rightarrow> Fault m | Hang \<Rightarrow> Hang | Block r \<Rightarrow> Block (s\<lparr>rng := r\<rparr>))"

definition lottery_dispatch :: "nat \<Rightarrow> ('z kbase_scheme, unit) k" where
  "lottery_dispatch i = thenk (kput (\<lambda>s. s\<lparr>cur := Some i\<rparr>)) (thenk (switchuvm (Some i))
     (thenk (set_proc i (\<lambda>p. p\<lparr>state := RUNNING\<rparr>))
     (thenk (set_proc i (\<lambda>p. p\<lparr>counter := s32 (counter p + 1)\<rparr>))
            (set_proc i (\<lambda>p. p\<lparr>timeslice := INTERV\<rparr>)))))"

definition lottery_round :: "bool \<Rightarrow> ('z ksched_scheme, nat option) k" where
  "lottery_round foundproc =
     thenk (kput (\<lambda>s. s\<lparr>intr_flag := True\<rparr>))
     (bindk (kget procs) (\<lambda>ps. bindk (run_rng (random_at_most (total_tickets ps))) (\<lambda>winner.
     thenk (whenk (\<not> foundproc) (kput (\<lambda>s. s\<lparr>intr_flag := False\<rparr>)))
     (thenk (lock PtableLk) (bindk (kget procs) (\<lambda>ps.
       case lottery_scan winner 0 ps of
         Some i \<Rightarrow> thenk (lottery_dispatch i) (kret (Some i))
       | None \<Rightarrow> thenk (unlock PtableLk) (kret None)))))))"

text \<open>After the process has switched back.\<close>

definition lottery_back :: "('z kbase_scheme, unit) k" where
  "lottery_back = thenk switchkvm (thenk (kput (\<lambda>s. s\<lparr>cur := None\<rparr>)) (unlock PtableLk))"

section \<open>The priority scheduler\<close>

definition proc_time :: "int \<Rightarrow> proc \<Rightarrow> int" where
  "proc_time now p = s32 (s32 (now * 10) - s32 (init_time p * 10))"

definition highest :: "proc list \<Rightarrow> nat \<Rightarrow> nat" where
  "highest ps i = fold (\<lambda>j h. if state (ps ! j) = RUNNABLE \<and> priority (ps ! h) < priority (ps ! j)
                              then j else h) [0..<length ps] i"

definition prio_dispatch :: "nat \<Rightarrow> ('z kbase_scheme, unit) k" where
  "prio_dispatch i = thenk (kput (\<lambda>s. s\<lparr>cur := Some i\<rparr>)) (thenk (switchuvm (Some i))
     (set_proc i (\<lambda>p. p\<lparr>state := RUNNING\<rparr>)))"

text \<open>The loop over the table from a given index; it stops at the first process it dispatches.\<close>

primrec prio_from :: "nat list \<Rightarrow> ('z kbase_scheme, nat option) k" where
  "prio_from [] = kret None"
| "prio_from (j # js) = bindk curr_time (\<lambda>now. bindk (kget (\<lambda>s. proc_at s j)) (\<lambda>p.
     if state p \<noteq> RUNNABLE \<or> max_time p \<le> proc_time now p then
       thenk (whenk (max_time p \<le> proc_time now p)
           (bindk curr_time (\<lambda>t1. thenk (set_proc j (\<lambda>q. q\<lparr>total_time := s32 (t1 - init_time q)\<rparr>))
             (bindk curr_time (\<lambda>t2. set_proc j (\<lambda>q. q\<lparr>init_time := t2\<rparr>))))))
         (prio_from js)
     else bindk (kget (\<lambda>s. highest (procs s) j)) (\<lambda>h.
       thenk (prio_dispatch h) (kret (Some h)))))"

definition prio_scan :: "nat \<Rightarrow> ('z kbase_scheme, nat option) k" where
  "prio_scan j = bindk (prio_from [j..<NPROC]) (\<lambda>r. case r of
     Some h \<Rightarrow> kret (Some h) | None \<Rightarrow> thenk (unlock PtableLk) (kret None))"

definition prio_round :: "('z ksched_scheme, nat option) k" where
  "prio_round = thenk (kput (\<lambda>s. s\<lparr>intr_flag := True\<rparr>)) (thenk (lock PtableLk)
     (bindk set_max_time (\<lambda>q. thenk (kput (\<lambda>s. s\<lparr>proc_quantum := q\<rparr>)) (prio_scan 0))))"

text \<open>After process \<open>h\<close> has switched back the loop goes on at the slot after \<open>h\<close>, since the loop
  variable was overwritten with \<open>highP\<close>.\<close>

definition prio_back :: "nat \<Rightarrow> ('z kbase_scheme, nat option) k" where
  "prio_back h = thenk switchkvm (thenk (kput (\<lambda>s. s\<lparr>cur := None\<rparr>)) (prio_scan (Suc h)))"

section \<open>Tickets\<close>

abbreviation runnable :: "proc \<Rightarrow> bool" where
  "runnable p \<equiv> state p = RUNNABLE"

definition ticket_sum :: "proc list \<Rightarrow> int" where
  "ticket_sum ps = sum_list (map tickets (filter runnable ps))"

definition tickets_ok :: "proc list \<Rightarrow> bool" where
  "tickets_ok ps \<longleftrightarrow> (\<forall>p \<in> set ps. runnable p \<longrightarrow> 0 \<le> tickets p) \<and> ticket_sum ps < 2 ^ 31"

lemma ticket_sum_simps [simp]:
  "ticket_sum [] = 0"
  "ticket_sum (p # ps) = (if runnable p then tickets p else 0) + ticket_sum ps"
  by (simp_all add: ticket_sum_def)

lemma ticket_sum_nonneg: "tickets_ok ps \<Longrightarrow> 0 \<le> ticket_sum ps"
  unfolding ticket_sum_def tickets_ok_def by (intro sum_list_nonneg) auto

lemma tickets_ok_Cons: "tickets_ok (p # ps) \<Longrightarrow> tickets_ok ps"
  by (auto simp: tickets_ok_def split: if_splits)

lemma total_tickets_eq: "tickets_ok ps \<Longrightarrow> total_tickets ps = ticket_sum ps"
  unfolding total_tickets_def fold_guard ticket_sum_def tickets_ok_def
  by (subst fold_s32_sum) auto

lemma lottery_scan_iff:
  assumes "tickets_ok ps" "0 \<le> a" "a + ticket_sum ps < 2 ^ 31"
  shows "lottery_scan w a ps = Some i \<longleftrightarrow> i < length ps \<and> runnable (ps ! i)
    \<and> w \<le> a + ticket_sum (take (Suc i) ps)
    \<and> (filter runnable (take i ps) = [] \<or> a + ticket_sum (take i ps) < w)"
  using assms
proof (induction ps arbitrary: a i)
  case Nil
  then show ?case by simp
next
  case (Cons p ps)
  note ok = tickets_ok_Cons [OF Cons.prems(1)]
  note nn = ticket_sum_nonneg [OF ok]
  show ?case
  proof (cases "runnable p")
    case False
    then show ?thesis using Cons.IH [OF ok Cons.prems(2)] Cons.prems(3) by (cases i) auto
  next
    case True
    then have t: "0 \<le> tickets p" using Cons.prems(1) by (simp add: tickets_ok_def)
    then have s: "s32 (a + tickets p) = a + tickets p"
      using Cons.prems nn True by (intro s32_id) auto
    have IH: "lottery_scan w (a + tickets p) ps = Some j \<longleftrightarrow> j < length ps \<and> runnable (ps ! j)
        \<and> w \<le> a + tickets p + ticket_sum (take (Suc j) ps)
        \<and> (filter runnable (take j ps) = [] \<or> a + tickets p + ticket_sum (take j ps) < w)" for j
      using Cons.IH [OF ok, of "a + tickets p"] Cons.prems t True by simp
    have nnt: "0 \<le> ticket_sum (take j ps)" for j
      using ok unfolding ticket_sum_def tickets_ok_def
      by (intro sum_list_nonneg) (auto dest: in_set_takeD)
    show ?thesis
    proof (cases i)
      case 0
      then show ?thesis using True s by auto
    next
      case (Suc j)
      then show ?thesis using True s IH [of j] nnt [of j] by (auto simp: ticket_sum_def)
    qed
  qed
qed

lemma lottery_scan_total:
  assumes "tickets_ok ps" "w \<le> ticket_sum ps" "\<exists>p \<in> set ps. runnable p"
  shows "\<exists>i. lottery_scan w 0 ps = Some i"
proof -
  have "lottery_scan w a ps \<noteq> None" if "tickets_ok ps" "w \<le> a + ticket_sum ps" "\<exists>p \<in> set ps. runnable p"
    "0 \<le> a" "a + ticket_sum ps < 2 ^ 31" for a
    using that
  proof (induction ps arbitrary: a)
    case Nil
    then show ?case by simp
  next
    case (Cons p ps)
    note ok = tickets_ok_Cons [OF Cons.prems(1)]
    note nn = ticket_sum_nonneg [OF ok]
    show ?case
    proof (cases "runnable p")
      case False
      then show ?thesis using Cons.IH [OF ok, of a] Cons.prems by auto
    next
      case True
      then have "0 \<le> tickets p" using Cons.prems(1) by (simp add: tickets_ok_def)
      moreover have "s32 (a + tickets p) = a + tickets p"
        using calculation Cons.prems nn True by (intro s32_id) auto
      moreover have "\<exists>q \<in> set ps. runnable q" if "a + tickets p < w"
      proof (rule ccontr)
        assume "\<not> ?thesis"
        then have "filter runnable ps = []" by (simp add: filter_empty_conv)
        then show False using that Cons.prems(2) True by (simp add: ticket_sum_def)
      qed
      ultimately show ?thesis using Cons.IH [OF ok, of "a + tickets p"] Cons.prems True by auto
    qed
  qed
  from this [of 0] assms show ?thesis by (auto simp: tickets_ok_def)
qed

section \<open>The chosen process\<close>

lemma switchuvm_run:
  "kstack (proc_at s p) \<noteq> 0 \<Longrightarrow> pgdir (proc_at s p) \<noteq> 0 \<Longrightarrow> switchuvm (Some p) s =
     Ok () (s\<lparr>esp0 := n32 (kstack (proc_at s p) + KSTACKSIZE), cr3 := V2P (pgdir (proc_at s p))\<rparr>)"
  by (simp add: switchuvm_def)

text \<open>Every process that can be picked has a kernel stack and a page table.\<close>

definition runnable_ok :: "proc list \<Rightarrow> bool" where
  "runnable_ok ps \<longleftrightarrow> (\<forall>p \<in> set ps. runnable p \<longrightarrow> kstack p \<noteq> 0 \<and> pgdir p \<noteq> 0)"

definition lottery_picked :: "proc \<Rightarrow> proc" where
  "lottery_picked p = p\<lparr>state := RUNNING, counter := s32 (counter p + 1), timeslice := INTERV\<rparr>"

lemma lottery_dispatch_run:
  assumes "runnable_ok (procs s)" "i < length (procs s)" "runnable (proc_at s i)"
  shows "lottery_dispatch i s = Ok () (s\<lparr>cur := Some i, esp0 := n32 (kstack (proc_at s i) + KSTACKSIZE),
     cr3 := V2P (pgdir (proc_at s i)), procs := upd i lottery_picked (procs s)\<rparr>)"
proof -
  have "kstack (proc_at s i) \<noteq> 0" "pgdir (proc_at s i) \<noteq> 0"
    using assms by (auto simp: runnable_ok_def)
  then show ?thesis
    by (simp add: lottery_dispatch_def switchuvm_run lottery_picked_def [abs_def])
qed

lemma scan_runnable:
  "lottery_scan w a ps = Some i \<Longrightarrow> i < length ps \<and> runnable (ps ! i)"
  by (induction w a ps arbitrary: i rule: lottery_scan.induct) (auto split: if_splits)

lemma run_rng_run [simp]: "f (rng s) = Ok v r \<Longrightarrow> run_rng f s = Ok v (s\<lparr>rng := r\<rparr>)"
  by (simp add: run_rng_def)

section \<open>Properties\<close>

text \<open>C13: the odds of the lottery. With non-negative tickets, the number of winning tickets, out of
  the \<open>total_tickets + 1\<close> values the generator draws from, that select a runnable process is its
  number of tickets; the first runnable process of the table gets one more.\<close>

theorem lottery_odds:
  assumes "tickets_ok ps" "i < length ps" "runnable (ps ! i)"
  shows "card {w. 0 \<le> w \<and> w \<le> total_tickets ps \<and> lottery_scan w 0 ps = Some i}
    = nat (tickets (ps ! i)) + (if filter runnable (take i ps) = [] then 1 else 0)"
proof -
  let ?b = "ticket_sum (take i ps)" and ?t = "tickets (ps ! i)"
  have app: "ticket_sum (xs @ ys) = ticket_sum xs + ticket_sum ys" for xs ys
    by (simp add: ticket_sum_def)
  have nn: "0 \<le> ticket_sum xs" if "set xs \<subseteq> set ps" for xs
    using that assms(1) unfolding ticket_sum_def tickets_ok_def by (intro sum_list_nonneg) auto
  have t: "0 \<le> ?t" using assms by (auto simp: tickets_ok_def)
  have suc: "ticket_sum (take (Suc i) ps) = ?b + ?t"
    using assms(2,3) by (simp add: take_Suc_conv_app_nth app)
  have "ticket_sum ps = ?b + ?t + ticket_sum (drop (Suc i) ps)"
    using app [of "take i ps" "ps ! i # drop (Suc i) ps"] id_take_nth_drop [OF assms(2)] assms(3)
    by simp
  then have le: "?b + ?t \<le> ticket_sum ps" using nn [of "drop (Suc i) ps"] by (simp add: set_drop_subset)
  have b: "0 \<le> ?b" using nn [of "take i ps"] by (simp add: set_take_subset)
  have sel: "lottery_scan w 0 ps = Some i \<longleftrightarrow>
      w \<le> ?b + ?t \<and> (filter runnable (take i ps) = [] \<or> ?b < w)" for w
    using lottery_scan_iff [OF assms(1), of 0 w i] assms suc by (simp add: tickets_ok_def)
  show ?thesis
  proof (cases "filter runnable (take i ps) = []")
    case True
    then have "?b = 0" by (simp add: ticket_sum_def)
    then have "{w. 0 \<le> w \<and> w \<le> total_tickets ps \<and> lottery_scan w 0 ps = Some i} = {0..?t}"
      using le True by (auto simp: sel total_tickets_eq [OF assms(1)])
    then show ?thesis using True t by (simp add: nat_add_distrib)
  next
    case False
    then have "{w. 0 \<le> w \<and> w \<le> total_tickets ps \<and> lottery_scan w 0 ps = Some i} = {?b + 1..?b + ?t}"
      using le b False by (auto simp: sel total_tickets_eq [OF assms(1)])
    then show ?thesis using False by simp
  qed
qed

definition lottery_example :: "proc list" where
  "lottery_example = [zero_proc\<lparr>state := RUNNABLE, tickets := 10\<rparr>, zero_proc\<lparr>state := SLEEPING, tickets := 10\<rparr>,
     zero_proc\<lparr>state := RUNNABLE, tickets := 30\<rparr>]"

theorem lottery_odds_witness:
  "card {w. 0 \<le> w \<and> w \<le> total_tickets lottery_example \<and> lottery_scan w 0 lottery_example = Some 0} = 11
   \<and> card {w. 0 \<le> w \<and> w \<le> total_tickets lottery_example \<and> lottery_scan w 0 lottery_example = Some 2} = 30"
proof -
  have "tickets_ok lottery_example" by (simp add: tickets_ok_def lottery_example_def)
  from lottery_odds [OF this, of 0] lottery_odds [OF this, of 2]
  show ?thesis by (simp add: lottery_example_def)
qed

text \<open>C14: a lottery round always runs somebody. When some process is runnable, the tickets are sane
  and the generator produces a value, the round ends by switching to a process that was runnable;
  it is now running with a full time slice in its own address space and the scheduler's
  \<open>ptable.lock\<close> is held; no other process changes.\<close>

theorem lottery_round_runs:
  assumes "held s = []" "tickets_ok (procs s)" "runnable_ok (procs s)" "\<exists>p \<in> set (procs s). runnable p"
    and "\<exists>x \<in> set (genrands n (rng s)). x < draw_bound (total_tickets (procs s))"
  shows "\<exists>i s'. lottery_round fp s = Ok (Some i) s' \<and> i < length (procs s) \<and> runnable (proc_at s i) \<and> cur s' = Some i
    \<and> held s' = [PtableLk] \<and> cr3 s' = V2P (pgdir (proc_at s i))
    \<and> procs s' = (procs s)[i := (proc_at s i)\<lparr>state := RUNNING,
         counter := s32 (counter (proc_at s i) + 1), timeslice := 5\<rparr>]"
proof -
  let ?T = "total_tickets (procs s)"
  have T: "?T = ticket_sum (procs s)" "0 \<le> ?T" "?T < 2 ^ 31"
    using total_tickets_eq [OF assms(2)] ticket_sum_nonneg [OF assms(2)] assms(2)
    by (simp_all add: tickets_ok_def)
  obtain x r where d: "draw (draw_bound ?T) (rng s) = Some (x, r)"
    using assms(5) draw_returns by blast
  let ?w = "int (unat (x div bin_size ?T))"
  have "unat (x div bin_size ?T) \<le> nat ?T"
    using bin_value_le [OF T(2,3) draw_result [OF d]] .
  then have "?w \<le> ticket_sum (procs s)" using T by linarith
  then obtain i where i: "lottery_scan ?w 0 (procs s) = Some i"
    using lottery_scan_total [OF assms(2) _ assms(4)] by blast
  note i' = scan_runnable [OF i]
  have w: "random_at_most ?T (rng s) = Ok ?w r" by (rule random_at_most_ok [OF T(2,3) d])
  obtain s1 where s1: "s1 = (if fp then s\<lparr>intr_flag := True, rng := r\<rparr>
      else s\<lparr>intr_flag := True, rng := r, intr_flag := False\<rparr>)\<lparr>held := [PtableLk]\<rparr>" by blast
  then have p1: "procs s1 = procs s" "held s1 = [PtableLk]" by simp_all
  have "lottery_round fp s = thenk (lottery_dispatch i) (kret (Some i)) s1"
    using w assms(1) i by (cases fp) (simp_all add: lottery_round_def s1)
  also have "\<dots> = Ok (Some i) (s1\<lparr>cur := Some i, esp0 := n32 (kstack (proc_at s1 i) + KSTACKSIZE),
     cr3 := V2P (pgdir (proc_at s1 i)), procs := upd i lottery_picked (procs s1)\<rparr>)"
    using lottery_dispatch_run [of s1 i] assms(3) i' p1 by simp
  finally show ?thesis using i' p1 by (simp add: lottery_picked_def upd_def)
qed

definition lottery_boot :: ksched where
  "lottery_boot = kbase.extend boot_kbase \<lparr>rng = mt_boot, proc_quantum = 0, intr_flag = False\<rparr>
     \<lparr>procs := [zero_proc\<lparr>state := RUNNABLE, tickets := 15, kstack := 8192, pgdir := 4096\<rparr>]\<rparr>"

theorem lottery_round_runs_witness:
  "\<exists>s'. lottery_round True lottery_boot = Ok (Some 0) s' \<and> state (proc_at s' 0) = RUNNING
     \<and> timeslice (proc_at s' 0) = 5"
proof -
  have p: "procs lottery_boot = [zero_proc\<lparr>state := RUNNABLE, tickets := 15, kstack := 8192, pgdir := 4096\<rparr>]"
    "held lottery_boot = []" "rng lottery_boot = mt_boot"
    by (simp_all add: lottery_boot_def boot_kbase_def kbase.defs)
  have "draw_bound 15 = 0x80000000"
    by (simp add: draw_bound_def num_rand_def RAND_MAX_def num_bins_def)
  moreover have "total_tickets (procs lottery_boot) = 15" by (simp add: p total_tickets_def s32_def)
  ultimately have "\<exists>x \<in> set (genrands 1 (rng lottery_boot)). x < draw_bound (total_tickets (procs lottery_boot))"
    by (simp add: genrand_bound)
  moreover have "tickets_ok (procs lottery_boot)" "runnable_ok (procs lottery_boot)"
    "\<exists>q \<in> set (procs lottery_boot). runnable q"
    by (simp_all add: p tickets_ok_def runnable_ok_def)
  ultimately obtain i s' where r: "lottery_round True lottery_boot = Ok (Some i) s'"
    "i < length (procs lottery_boot)"
    "procs s' = (procs lottery_boot)[i := (proc_at lottery_boot i)\<lparr>state := RUNNING,
         counter := s32 (counter (proc_at lottery_boot i) + 1), timeslice := 5\<rparr>]"
    using lottery_round_runs [OF p(2), of 1 True] by blast
  then show ?thesis by (simp add: p)
qed

lemma total_tickets_range: "- (2 ^ 31) \<le> total_tickets ps"
proof -
  have "- (2 ^ 31) \<le> fold (\<lambda>p acc. if runnable p then s32 (acc + tickets p) else acc) ps a"
    if "- (2 ^ 31) \<le> a" for a
    using that by (induction ps arbitrary: a) (auto simp: s32_range(1) [simplified])
  then show ?thesis by (simp add: total_tickets_def)
qed

text \<open>C23: the ticket count is not validated by \<open>set_tickets\<close>. When the runnable processes hold -1
  tickets in total, the scheduler takes a divide error; when they hold fewer, it never leaves the
  rejection loop of \<open>random_at_most\<close>.\<close>

theorem lottery_round_negative:
  assumes "total_tickets (procs s) < 0"
  shows "lottery_round fp s = (if total_tickets (procs s) = - 1 then Fault ''divide error'' else Hang)"
proof -
  let ?T = "total_tickets (procs s)"
  have "random_at_most ?T (rng s) = (if ?T = - 1 then Fault ''divide error'' else Hang)"
    using random_at_most_minus_one [of "rng s"] random_at_most_below [of ?T "rng s"]
      total_tickets_range [of "procs s"] assms by auto
  then show ?thesis by (auto simp: lottery_round_def run_rng_def)
qed

theorem lottery_round_negative_witness:
  "lottery_round True (lottery_boot\<lparr>procs := [zero_proc\<lparr>state := RUNNABLE, tickets := - 1\<rparr>]\<rparr>)
     = Fault ''divide error''"
  using lottery_round_negative [of "lottery_boot\<lparr>procs := [zero_proc\<lparr>state := RUNNABLE, tickets := - 1\<rparr>]\<rparr>"]
  by (simp add: total_tickets_def s32_def)

section \<open>The priority scheduler picks the highest priority\<close>

lemma highest_inv:
  assumes "runnable (ps ! i)" "i < length ps"
  shows "highest ps i < length ps \<and> runnable (ps ! highest ps i)
    \<and> (\<forall>j < length ps. runnable (ps ! j) \<longrightarrow> priority (ps ! j) \<le> priority (ps ! highest ps i))"
proof -
  have "highest ps i < length ps \<and> runnable (ps ! highest ps i)
      \<and> priority (ps ! i) \<le> priority (ps ! highest ps i)
      \<and> (\<forall>j < length ps. runnable (ps ! j) \<longrightarrow> priority (ps ! j) \<le> priority (ps ! highest ps i))"
    unfolding highest_def
    by (rule fold_upt_inv [where P = "\<lambda>n h. h < length ps \<and> runnable (ps ! h)
          \<and> priority (ps ! i) \<le> priority (ps ! h)
          \<and> (\<forall>j < n. runnable (ps ! j) \<longrightarrow> priority (ps ! j) \<le> priority (ps ! h))"])
      (use assms in \<open>auto simp: less_Suc_eq intro: order_trans less_imp_le\<close>)
  then show ?thesis by blast
qed

text \<open>The scan changes nothing but the two time stamps of a process.\<close>

definition strip :: "proc \<Rightarrow> proc" where
  "strip p = p\<lparr>total_time := 0, init_time := 0\<rparr>"

lemma strip_eqD:
  assumes "strip p = strip q"
  shows "state p = state q" "priority p = priority q" "kstack p = kstack q" "pgdir p = pgdir q"
    "max_time p = max_time q"
  using assms by (cases p; cases q; simp add: strip_def)+

definition eligible :: "int \<Rightarrow> proc \<Rightarrow> bool" where
  "eligible now p \<longleftrightarrow> runnable p \<and> proc_time now p < max_time p"

definition expire :: "int \<Rightarrow> proc \<Rightarrow> proc" where
  "expire now p = p\<lparr>total_time := s32 (now - init_time p), init_time := now\<rparr>"

lemma prio_step:
  fixes s :: "'z kbase_scheme"
  assumes "TicksLk \<notin> set (held s)"
  shows "prio_from (j # js) s = (let now = sint (ticks s); p = proc_at s j in
     if eligible now p then thenk (prio_dispatch (highest (procs s) j)) (kret (Some (highest (procs s) j))) s
     else if max_time p \<le> proc_time now p then prio_from js (s\<lparr>procs := upd j (expire now) (procs s)\<rparr>)
     else prio_from js s)"
  using assms by (auto simp: Let_def eligible_def expire_def [abs_def])

lemma prio_dispatch_run:
  assumes "kstack (proc_at s i) \<noteq> 0" "pgdir (proc_at s i) \<noteq> 0"
  shows "prio_dispatch i s = Ok () (s\<lparr>cur := Some i, esp0 := n32 (kstack (proc_at s i) + KSTACKSIZE),
     cr3 := V2P (pgdir (proc_at s i)), procs := upd i (\<lambda>p. p\<lparr>state := RUNNING\<rparr>) (procs s)\<rparr>)"
  using assms by (simp add: prio_dispatch_def switchuvm_run)

lemma strip_nth:
  "map strip ps = map strip qs \<Longrightarrow> i < length ps \<Longrightarrow> strip (ps ! i) = strip (qs ! i)"
  by (metis length_map nth_map)

definition picks_highest :: "'z kbase_scheme \<Rightarrow> nat \<Rightarrow> 'z kbase_scheme \<Rightarrow> bool" where
  "picks_highest s h s' \<longleftrightarrow> h < length (procs s) \<and> runnable (proc_at s h)
     \<and> (\<forall>j < length (procs s). runnable (proc_at s j) \<longrightarrow> priority (proc_at s j) \<le> priority (proc_at s h))
     \<and> cur s' = Some h \<and> state (proc_at s' h) = RUNNING \<and> cr3 s' = V2P (pgdir (proc_at s h))"

lemma prio_from_run:
  fixes s :: "'z kbase_scheme"
  assumes "TicksLk \<notin> set (held s)" "runnable_ok (procs s)" "set js \<subseteq> {..<length (procs s)}" "distinct js"
  shows "if \<exists>j \<in> set js. eligible (sint (ticks s)) (proc_at s j)
    then \<exists>h s'. prio_from js s = Ok (Some h) s' \<and> picks_highest s h s' \<and> held s' = held s
    else \<exists>ps. prio_from js s = Ok None (s\<lparr>procs := ps\<rparr>) \<and> map strip ps = map strip (procs s)"
  using assms
proof (induction js arbitrary: s)
  case Nil
  show ?case by (auto intro: exI [of _ "procs s"])
next
  case (Cons j js)
  let ?now = "sint (ticks s)"
  have j: "j < length (procs s)" using Cons.prems(3) by simp
  show ?case
  proof (cases "eligible ?now (proc_at s j)")
    case True
    let ?h = "highest (procs s) j"
    have h: "?h < length (procs s)" "runnable (proc_at s ?h)"
      "\<forall>k < length (procs s). runnable (proc_at s k) \<longrightarrow> priority (proc_at s k) \<le> priority (proc_at s ?h)"
      using highest_inv [of "procs s" j] True j by (auto simp: eligible_def)
    then have "kstack (proc_at s ?h) \<noteq> 0" "pgdir (proc_at s ?h) \<noteq> 0"
      using Cons.prems(2) by (auto simp: runnable_ok_def)
    then show ?thesis using True h
      by (simp add: prio_step [OF Cons.prems(1)] prio_dispatch_run picks_highest_def Let_def del: prio_from.simps)
  next
    case False
    define t where "t = (if max_time (proc_at s j) \<le> proc_time ?now (proc_at s j)
      then s\<lparr>procs := upd j (expire ?now) (procs s)\<rparr> else s)"
    have run: "prio_from (j # js) s = prio_from js t"
      using False by (simp only: prio_step [OF Cons.prems(1)]) (simp add: Let_def t_def)
    have str: "map strip (procs t) = map strip (procs s)"
      by (rule nth_equalityI) (auto simp: t_def nth_upd expire_def strip_def)
    have len: "length (procs t) = length (procs s)" using str by (metis length_map)
    have other: "proc_at t k = proc_at s k" if "k \<in> set js" for k
      using that Cons.prems(4) by (cases "k = j") (auto simp: t_def)
    have t: "held t = held s" "ticks t = ticks s" by (simp_all add: t_def)
    have ok: "runnable_ok (procs t)"
      using Cons.prems(2) len strip_eqD [OF strip_nth [OF str]]
      unfolding runnable_ok_def all_set_conv_all_nth by (metis)
    have ph: "picks_highest s h s'" if "picks_highest t h s'" for h s'
      using that len strip_eqD [OF strip_nth [OF str]] unfolding picks_highest_def by metis
    have e: "(\<exists>k \<in> set (j # js). eligible ?now (proc_at s k)) \<longleftrightarrow> (\<exists>k \<in> set js. eligible (sint (ticks t)) (proc_at t k))"
      using False other t by auto
    have IH: "if \<exists>k \<in> set js. eligible (sint (ticks t)) (proc_at t k)
      then \<exists>h s'. prio_from js t = Ok (Some h) s' \<and> picks_highest t h s' \<and> held s' = held t
      else \<exists>ps. prio_from js t = Ok None (t\<lparr>procs := ps\<rparr>) \<and> map strip ps = map strip (procs t)"
      using Cons.prems len t ok by (intro Cons.IH) auto
    have "t\<lparr>procs := ps\<rparr> = s\<lparr>procs := ps\<rparr>" for ps by (simp add: t_def)
    then show ?thesis using IH ph e run str t by (auto split: if_splits)
  qed
qed

text \<open>C15: the priority scheduler. A scan of the table from slot \<open>j\<close> finds somebody exactly when some
  runnable process from slot \<open>j\<close> on has not used up its share; it then switches to a runnable
  process of maximal priority among all runnable processes of the table. Otherwise it releases
  \<open>ptable.lock\<close> and has changed nothing but time stamps.\<close>

theorem prio_scan_highest:
  assumes "held s = [PtableLk]" "length (procs s) = NPROC" "runnable_ok (procs s)"
  shows "if \<exists>i. j \<le> i \<and> i < NPROC \<and> eligible (sint (ticks s)) (proc_at s i)
    then \<exists>h s'. prio_scan j s = Ok (Some h) s' \<and> picks_highest s h s' \<and> held s' = [PtableLk]
    else \<exists>ps. prio_scan j s = Ok None (s\<lparr>procs := ps, held := []\<rparr>) \<and> map strip ps = map strip (procs s)"
proof -
  have e: "(\<exists>i. j \<le> i \<and> i < NPROC \<and> eligible (sint (ticks s)) (proc_at s i))
      \<longleftrightarrow> (\<exists>i \<in> set [j..<NPROC]. eligible (sint (ticks s)) (proc_at s i))" by auto
  have "set [j..<NPROC] \<subseteq> {..<length (procs s)}" using assms(2) by auto
  from prio_from_run [OF _ assms(3) this] assms(1) show ?thesis
    unfolding e prio_scan_def by (auto split: if_splits simp del: upt_Suc)
qed

definition prio_boot :: kbase where
  "prio_boot = boot_kbase\<lparr>held := [PtableLk], procs := map (\<lambda>v. zero_proc\<lparr>state := RUNNABLE, pid := v,
     priority := v, max_time := 100, kstack := 8192, pgdir := 4096\<rparr>) [1, 5, 2] @ replicate 61 zero_proc\<rparr>"

theorem prio_scan_highest_witness:
  "\<exists>h s'. prio_scan 0 prio_boot = Ok (Some h) s' \<and> picks_highest prio_boot h s'"
proof -
  have p: "held prio_boot = [PtableLk]" "length (procs prio_boot) = NPROC" "ticks prio_boot = 0"
    "runnable_ok (procs prio_boot)"
    by (simp_all add: prio_boot_def boot_kbase_def runnable_ok_def zero_proc_def)
  have "eligible (sint (ticks prio_boot)) (proc_at prio_boot 0)"
    by (simp add: p eligible_def proc_time_def s32_def) (simp add: prio_boot_def zero_proc_def)
  then have "\<exists>i. 0 \<le> i \<and> i < NPROC \<and> eligible (sint (ticks prio_boot)) (proc_at prio_boot i)"
    by (intro exI [of _ 0]) simp
  with prio_scan_highest [OF p(1,2,4), of 0] show ?thesis by auto
qed

end
