(* ===== verification/Kalloc.thy ===== *)
theory Kalloc
  imports Memory Scheduler
begin

text \<open>
  kalloc.c: the allocator of 4096-byte pages. The free list is the linked list the code keeps in
  the free pages themselves: \<open>freelist\<close> is the address of the first free page, and the first
  word of each free page is the address of the next. The abstraction \<open>free_pages\<close> relates it to
  the list of free pages, on which \<open>kalloc\<close> pops and \<open>kfree\<close> pushes.
\<close>

section \<open>State and operations\<close>

text \<open>Kernel memory is addressed by kernel virtual address. \<open>kend\<close> and \<open>kdata\<close> are the symbols \<open>end\<close>
  and \<open>data\<close> that the linker script defines.\<close>

record kkmem = ksched +
  memory :: mem
  use_lock :: bool
  freelist :: nat
  kend :: nat
  kdata :: nat

definition kfree :: "nat \<Rightarrow> ('z kkmem_scheme, unit) k" where
  "kfree v = bindk (kget kend) (\<lambda>e.
     if v mod PGSIZE \<noteq> 0 \<or> v < e \<or> PHYSTOP \<le> V2P v then kpanic ''kfree''
     else thenk (kput (\<lambda>s. s\<lparr>memory := memset v 1 PGSIZE (memory s)\<rparr>)) (bindk (kget use_lock) (\<lambda>ul.
       thenk (whenk ul (lock KmemLk))
       (thenk (kput (\<lambda>s. s\<lparr>memory := st32 v (freelist s) (memory s)\<rparr>))
       (thenk (kput (\<lambda>s. s\<lparr>freelist := v\<rparr>))
              (whenk ul (unlock KmemLk)))))))"

definition kalloc :: "('z kkmem_scheme, nat) k" where
  "kalloc = bindk (kget use_lock) (\<lambda>ul.
     thenk (whenk ul (lock KmemLk)) (bindk (kget freelist) (\<lambda>r.
     thenk (whenk (r \<noteq> 0) (kput (\<lambda>s. s\<lparr>freelist := ld32 (memory s) r\<rparr>)))
     (thenk (whenk ul (unlock KmemLk)) (kret r)))))"

function freerange_from :: "nat \<Rightarrow> nat \<Rightarrow> ('z kkmem_scheme, unit) k" where
  "freerange_from p vend =
     (if p + PGSIZE \<le> vend then thenk (kfree p) (freerange_from (p + PGSIZE) vend) else kret ())"
  by pat_completeness auto
termination by (relation "measure (\<lambda>(p, vend). vend - p)") auto

declare freerange_from.simps [simp del]

definition freerange :: "nat \<Rightarrow> nat \<Rightarrow> ('z kkmem_scheme, unit) k" where
  "freerange vstart vend = freerange_from (PGROUNDUP vstart) vend"

definition kinit1 :: "nat \<Rightarrow> nat \<Rightarrow> ('z kkmem_scheme, unit) k" where
  "kinit1 vstart vend = thenk (kput (\<lambda>s. s\<lparr>use_lock := False\<rparr>)) (freerange vstart vend)"

definition kinit2 :: "nat \<Rightarrow> nat \<Rightarrow> ('z kkmem_scheme, unit) k" where
  "kinit2 vstart vend = thenk (freerange vstart vend) (kput (\<lambda>s. s\<lparr>use_lock := True\<rparr>))"

section \<open>What a page allocator promises\<close>

text \<open>The contract the clients (proc.c, vm.c, pipe.c) rely on, for a relation \<open>pool s xs\<close> that says
  that in state \<open>s\<close> the pages \<open>xs\<close> are free and for the set of addresses that may be freed.\<close>

locale page_pool =
  fixes pool :: "'s \<Rightarrow> nat list \<Rightarrow> bool"
    and valid_page :: "'s \<Rightarrow> nat \<Rightarrow> bool"
    and alloc :: "('s, nat) k"
    and free :: "nat \<Rightarrow> ('s, unit) k"
  assumes pool_distinct: "pool s xs \<Longrightarrow> distinct xs"
    and pool_valid: "pool s xs \<Longrightarrow> x \<in> set xs \<Longrightarrow> valid_page s x \<and> x \<noteq> 0"
    and alloc_empty: "pool s [] \<Longrightarrow> alloc s = Ok 0 s"
    and alloc_page: "pool s (x # xs) \<Longrightarrow> \<exists>s'. alloc s = Ok x s' \<and> pool s' xs
          \<and> valid_page s' = valid_page s"
    and free_page: "pool s xs \<Longrightarrow> valid_page s v \<Longrightarrow> v \<notin> set xs \<Longrightarrow>
          \<exists>s'. free v s = Ok () s' \<and> pool s' (v # xs) \<and> valid_page s' = valid_page s"
begin

primrec allocs :: "nat \<Rightarrow> ('s, nat list) k" where
  "allocs 0 = kret []"
| "allocs (Suc n) = bindk alloc (\<lambda>x. bindk (allocs n) (\<lambda>xs. kret (x # xs)))"

lemma allocs_pool:
  "pool s xs \<Longrightarrow> n \<le> length xs \<Longrightarrow>
   \<exists>s'. allocs n s = Ok (take n xs) s' \<and> pool s' (drop n xs) \<and> valid_page s' = valid_page s"
proof (induction n arbitrary: s xs)
  case 0
  then show ?case by simp
next
  case (Suc n)
  then obtain x ys where xs: "xs = x # ys" by (cases xs) auto
  obtain s1 where s1: "alloc s = Ok x s1" "pool s1 ys" "valid_page s1 = valid_page s"
    using alloc_page Suc.prems xs by blast
  obtain s2 where "allocs n s1 = Ok (take n ys) s2" "pool s2 (drop n ys)" "valid_page s2 = valid_page s1"
    using Suc.IH [OF s1(2)] Suc.prems xs by auto
  then show ?case using s1 xs by (intro exI [of _ s2]) simp
qed

lemma allocs_fresh:
  assumes "pool s xs" "n \<le> length xs"
  shows "\<exists>ys s'. allocs n s = Ok ys s' \<and> length ys = n \<and> distinct ys \<and> 0 \<notin> set ys
    \<and> set ys \<inter> set (drop n xs) = {} \<and> pool s' (drop n xs)"
proof -
  have "distinct (take n xs @ drop n xs)" using pool_distinct [OF assms(1)] by simp
  then have "set (take n xs) \<inter> set (drop n xs) = {}" by (simp only: distinct_append)
  moreover have "distinct (take n xs)" using pool_distinct [OF assms(1)] by simp
  moreover have "0 \<notin> set (take n xs)" using pool_valid [OF assms(1)] by (metis in_set_takeD)
  ultimately show ?thesis using allocs_pool [OF assms] assms(2) by auto
qed

lemma frees_pool:
  "pool s xs \<Longrightarrow> distinct vs \<Longrightarrow> set vs \<inter> set xs = {} \<Longrightarrow> (\<And>v. v \<in> set vs \<Longrightarrow> valid_page s v) \<Longrightarrow>
   \<exists>s'. eachk free vs s = Ok () s' \<and> pool s' (rev vs @ xs) \<and> valid_page s' = valid_page s"
proof (induction vs arbitrary: s xs)
  case Nil
  then show ?case by simp
next
  case (Cons v vs)
  obtain s1 where s1: "free v s = Ok () s1" "pool s1 (v # xs)" "valid_page s1 = valid_page s"
    using free_page [of s xs v] Cons.prems by auto
  have "\<exists>s'. eachk free vs s1 = Ok () s' \<and> pool s' (rev vs @ v # xs) \<and> valid_page s' = valid_page s1"
    using Cons.prems s1(2,3) by (intro Cons.IH) auto
  then show ?case using s1 by auto
qed

end

section \<open>The free list as a list of pages\<close>

fun linked :: "mem \<Rightarrow> nat \<Rightarrow> nat list \<Rightarrow> bool" where
  "linked m a [] \<longleftrightarrow> a = 0"
| "linked m a (x # xs) \<longleftrightarrow> a = x \<and> linked m (ld32 m x) xs"

text \<open>A page the allocator may hold: aligned, above the kernel image, below the top of memory.\<close>

definition page_ok :: "nat \<Rightarrow> nat \<Rightarrow> bool" where
  "page_ok e v \<longleftrightarrow> v mod PGSIZE = 0 \<and> e \<le> v \<and> KERNBASE < v \<and> v < KERNBASE + PHYSTOP"

definition free_pages :: "'z kkmem_scheme \<Rightarrow> nat list \<Rightarrow> bool" where
  "free_pages s xs \<longleftrightarrow> linked (memory s) (freelist s) xs \<and> distinct xs
     \<and> (\<forall>x \<in> set xs. page_ok (kend s) x) \<and> KmemLk \<notin> set (held s)"

lemma page_ok_kfree:
  "page_ok e v \<Longrightarrow> v mod PGSIZE = 0 \<and> \<not> v < e \<and> \<not> PHYSTOP \<le> V2P v \<and> v < 2 ^ 32 \<and> v \<noteq> 0"
  using V2P_kva [of v] by (auto simp: page_ok_def)

lemma pages_disjoint:
  "(v :: nat) mod 4096 = 0 \<Longrightarrow> x mod 4096 = 0 \<Longrightarrow> v \<noteq> x \<Longrightarrow> v + 4096 \<le> x \<or> x + 4096 \<le> v"
proof -
  assume a: "v mod 4096 = 0" "x mod 4096 = 0" "v \<noteq> x"
  then obtain i j where "v = 4096 * i" "x = 4096 * j" by (metis mod_0_imp_dvd dvdE)
  then show ?thesis using a(3) by (cases "i < j") auto
qed

lemma linked_cong:
  "(\<And>x. x \<in> set xs \<Longrightarrow> ld32 m x = ld32 m' x) \<Longrightarrow> linked m a xs = linked m' a xs"
  by (induction xs arbitrary: a) auto

lemma linked_unique: "linked m a xs \<Longrightarrow> linked m a ys \<Longrightarrow> 0 \<notin> set xs \<Longrightarrow> 0 \<notin> set ys \<Longrightarrow> xs = ys"
proof (induction xs arbitrary: a ys)
  case Nil
  then show ?case by (cases ys) auto
next
  case (Cons x xs)
  then show ?case by (cases ys) auto
qed

definition kfreed :: "nat \<Rightarrow> 'z kkmem_scheme \<Rightarrow> 'z kkmem_scheme" where
  "kfreed v s = s\<lparr>memory := st32 v (freelist s) (memset v 1 PGSIZE (memory s)), freelist := v\<rparr>"

lemma kkmem_held_commute [simp]:
  "s\<lparr>memory := m, held := h\<rparr> = s\<lparr>held := h, memory := m\<rparr>"
  "s\<lparr>freelist := f, held := h\<rparr> = s\<lparr>held := h, freelist := f\<rparr>"
  by (cases s, simp)+

lemma kfree_run:
  "page_ok (kend s) v \<Longrightarrow> KmemLk \<notin> set (held s) \<Longrightarrow> kfree v s = Ok () (kfreed v s)"
  using page_ok_kfree [of "kend s" v]
  by (cases "use_lock s") (simp_all add: kfree_def kfreed_def)

lemma kfree_free:
  assumes "free_pages s xs" "page_ok (kend s) v" "v \<notin> set xs"
  shows "free_pages (kfreed v s) (v # xs)"
proof -
  let ?m = "st32 v (freelist s) (memset v 1 PGSIZE (memory s))"
  have f: "freelist s < 2 ^ 32"
    using assms(1) page_ok_kfree by (cases xs) (auto simp: free_pages_def)
  have "ld32 ?m x = ld32 (memory s) x" if "x \<in> set xs" for x
  proof (rule ld32_cong)
    fix i :: nat assume i: "i < 4"
    have "x mod 4096 = 0" "v mod 4096 = 0" "v \<noteq> x"
      using assms that by (auto simp: free_pages_def page_ok_def)
    from pages_disjoint [OF this(2,1,3)] have "v + 4096 \<le> x \<or> x + 4096 \<le> v" .
    then show "?m (x + i) = memory s (x + i)" using i by (auto simp: st32_other memset_at)
  qed
  then have "linked ?m (freelist s) xs"
    using assms(1) linked_cong [of xs ?m "memory s"] by (simp add: free_pages_def)
  then show ?thesis using assms f by (simp add: free_pages_def kfreed_def)
qed

lemma kalloc_run:
  assumes "free_pages s xs"
  shows "kalloc s = (case xs of [] \<Rightarrow> Ok 0 s | x # _ \<Rightarrow> Ok x (s\<lparr>freelist := ld32 (memory s) x\<rparr>))"
proof (cases xs)
  case Nil
  then show ?thesis using assms by (cases "use_lock s") (simp_all add: kalloc_def free_pages_def)
next
  case (Cons x ys)
  then have "x \<noteq> 0" using assms page_ok_kfree by (auto simp: free_pages_def)
  then show ?thesis using assms Cons by (cases "use_lock s") (simp_all add: kalloc_def free_pages_def)
qed

lemma kalloc_free:
  "free_pages s (x # xs) \<Longrightarrow> free_pages (s\<lparr>freelist := ld32 (memory s) x\<rparr>) xs"
  by (simp add: free_pages_def)

interpretation kp: page_pool free_pages "\<lambda>s. page_ok (kend s)" kalloc kfree
proof unfold_locales
  fix s :: "'z kkmem_scheme" and x xs
  show "free_pages s xs \<Longrightarrow> distinct xs" by (simp add: free_pages_def)
  show "free_pages s xs \<Longrightarrow> x \<in> set xs \<Longrightarrow> page_ok (kend s) x \<and> x \<noteq> 0"
    using page_ok_kfree by (auto simp: free_pages_def)
  show "free_pages s [] \<Longrightarrow> kalloc s = Ok 0 s" by (simp add: kalloc_run)
  show "free_pages s (x # xs) \<Longrightarrow> \<exists>s'. kalloc s = Ok x s' \<and> free_pages s' xs
      \<and> page_ok (kend s') = page_ok (kend s)"
    using kalloc_free [of s x xs] by (auto simp: kalloc_run)
  show "free_pages s xs \<Longrightarrow> page_ok (kend s) x \<Longrightarrow> x \<notin> set xs \<Longrightarrow>
      \<exists>s'. kfree x s = Ok () s' \<and> free_pages s' (x # xs) \<and> page_ok (kend s') = page_ok (kend s)"
    using kfree_free [of s xs x] kfree_run [of s x] by (auto simp: free_pages_def kfreed_def)
qed

section \<open>Filling the pool\<close>

text \<open>The pages of a range, in increasing order.\<close>

definition pages :: "nat \<Rightarrow> nat \<Rightarrow> nat list" where
  "pages p vend = map (\<lambda>i. p + i * PGSIZE) [0..<(vend - p) div PGSIZE]"

lemma pages_rec: "pages p vend = (if p + PGSIZE \<le> vend then p # pages (p + PGSIZE) vend else [])"
proof (cases "p + PGSIZE \<le> vend")
  case True
  then have "(vend - p) div 4096 = Suc ((vend - (p + 4096)) div 4096)" by (simp add: div_nat_eqI div_if)
  then show ?thesis using True
    by (simp add: pages_def upt_conv_Cons map_Suc_upt [symmetric] del: upt_Suc)
next
  case False
  then show ?thesis by (simp add: pages_def)
qed

lemma freerange_from_each: "freerange_from p vend = eachk kfree (pages p vend)"
proof (induction p vend rule: freerange_from.induct)
  case (1 p vend)
  then show ?case by (subst freerange_from.simps, subst pages_rec) simp
qed

lemma mod_add_pages: "(p :: nat) mod 4096 = 0 \<Longrightarrow> (p + i * 4096) mod 4096 = 0"
  by simp

lemma set_pages:
  assumes "p mod PGSIZE = 0"
  shows "set (pages p vend) = {v. v mod PGSIZE = 0 \<and> p \<le> v \<and> v + PGSIZE \<le> vend}"
proof (intro set_eqI iffI)
  fix v assume "v \<in> set (pages p vend)"
  then obtain i where i: "i < (vend - p) div 4096" "v = p + i * 4096" by (auto simp: pages_def)
  have "Suc i * 4096 \<le> (vend - p) div 4096 * 4096" using i(1) by (intro mult_le_mono1) simp
  also have "\<dots> \<le> vend - p" by simp
  finally show "v \<in> {v. v mod PGSIZE = 0 \<and> p \<le> v \<and> v + PGSIZE \<le> vend}"
    using i assms mod_add_pages [of p i] by auto
next
  fix v assume "v \<in> {v. v mod PGSIZE = 0 \<and> p \<le> v \<and> v + PGSIZE \<le> vend}"
  then have v: "v mod 4096 = 0" "p \<le> v" "v + 4096 \<le> vend" by auto
  obtain a b where ab: "v = 4096 * a" "p = 4096 * b" using v(1) assms by (auto elim!: dvdE)
  have "4096 * Suc (a - b) \<le> vend - p" using ab v by simp
  then have "a - b < (vend - p) div 4096" by (simp add: less_eq_div_iff_mult_less_eq Suc_le_eq [symmetric])
  moreover have "v = p + (a - b) * 4096" using ab v by simp
  ultimately show "v \<in> set (pages p vend)" by (auto simp: pages_def)
qed

lemma distinct_pages: "distinct (pages p vend)"
  by (auto simp: pages_def distinct_map inj_on_def)

lemma freerange_run:
  assumes "free_pages s xs" "vend \<le> KERNBASE + PHYSTOP" "kend s \<le> PGROUNDUP a" "KERNBASE < PGROUNDUP a"
    and "\<And>x. x \<in> set xs \<Longrightarrow> x < PGROUNDUP a"
  shows "\<exists>s'. freerange a vend s = Ok () s' \<and> free_pages s' (rev (pages (PGROUNDUP a) vend) @ xs)
    \<and> kend s' = kend s"
proof -
  let ?ps = "pages (PGROUNDUP a) vend"
  have S: "set ?ps = {v. v mod PGSIZE = 0 \<and> PGROUNDUP a \<le> v \<and> v + PGSIZE \<le> vend}"
    by (rule set_pages) (rule PGROUNDUP_aligned)
  have ok: "page_ok (kend s) v" if "v \<in> set ?ps" for v
    using that assms(2-4) unfolding S by (auto simp: page_ok_def)
  have "set ?ps \<inter> set xs = {}" using assms(5) unfolding S by fastforce
  from kp.frees_pool [OF assms(1) distinct_pages this ok]
  obtain s' where "eachk kfree ?ps s = Ok () s'" "free_pages s' (rev ?ps @ xs)" by auto
  moreover have "kend s' = kend s" if "eachk kfree vs s = Ok () s'" for vs and s s' :: "'a kkmem_scheme"
    using that
  proof (induction vs arbitrary: s)
    case (Cons v vs)
    then obtain s1 where s1: "kfree v s = Ok () s1" "eachk kfree vs s1 = Ok () s'"
      by (auto simp: thenk_eq_Ok)
    have "kend s1 = kend s"
      using s1(1) by (cases "use_lock s") (auto simp: kfree_def thenk_eq_Ok split: if_splits)
    then show ?case using Cons.IH [OF s1(2)] by simp
  qed simp
  ultimately show ?thesis by (auto simp: freerange_def freerange_from_each)
qed

section \<open>Properties\<close>

text \<open>C28: pages are handed out once. While \<open>n\<close> pages are free, \<open>n\<close> calls of \<open>kalloc\<close> return \<open>n\<close>
  different non-null addresses, and none of them is still on the free list.\<close>

theorem kalloc_fresh:
  assumes "free_pages s xs" "n \<le> length xs"
  shows "\<exists>ys s'. kp.allocs n s = Ok ys s' \<and> length ys = n \<and> distinct ys \<and> 0 \<notin> set ys
    \<and> set ys \<inter> set (drop n xs) = {} \<and> free_pages s' (drop n xs)"
  using assms by (rule kp.allocs_fresh)

text \<open>C29: initialisation. After \<open>kinit1\<close> and \<open>kinit2\<close> on adjacent ranges the free list consists of
  exactly the whole pages of the range, each of them once, and from then on the lock is used.\<close>

theorem kinit_fills:
  assumes "freelist s = 0" "KmemLk \<notin> set (held s)" "kend s \<le> a" "KERNBASE < a" "a \<le> b" "b \<le> c"
    and "b mod PGSIZE = 0" "c \<le> KERNBASE + PHYSTOP"
  shows "\<exists>s' xs. thenk (kinit1 a b) (kinit2 b c) s = Ok () s' \<and> free_pages s' xs \<and> use_lock s'
    \<and> set xs = {v. v mod PGSIZE = 0 \<and> a \<le> v \<and> v + PGSIZE \<le> c}"
proof -
  let ?s = "s\<lparr>use_lock := False\<rparr>" and ?p = "PGROUNDUP a"
  have small: "a \<le> 2 ^ 32 - PGSIZE" "b + PGSIZE \<le> 2 ^ 32" using assms by simp_all
  have up: "a \<le> ?p" "?p < a + PGSIZE" using PGROUNDUP_bounds [OF small(1)] by simp_all
  have ub: "PGROUNDUP b = b" using PGROUNDUP_id [OF assms(7) small(2)] .
  have "free_pages ?s []" using assms(1,2) by (simp add: free_pages_def)
  then have "\<exists>s'. freerange a b ?s = Ok () s' \<and> free_pages s' (rev (pages ?p b) @ []) \<and> kend s' = kend ?s"
    by (rule freerange_run) (use assms up in auto)
  then obtain s1 where s1: "freerange a b ?s = Ok () s1" "free_pages s1 (rev (pages ?p b))" "kend s1 = kend s"
    by auto
  have S: "set (pages ?p d) = {v. v mod PGSIZE = 0 \<and> ?p \<le> v \<and> v + PGSIZE \<le> d}"
    "set (pages b d) = {v. v mod PGSIZE = 0 \<and> b \<le> v \<and> v + PGSIZE \<le> d}" for d
    by (rule set_pages, rule PGROUNDUP_aligned) (rule set_pages, rule assms(7))
  have "\<exists>s'. freerange b c s1 = Ok () s' \<and> free_pages s' (rev (pages (PGROUNDUP b) c) @ rev (pages ?p b)) \<and> kend s' = kend s1"
    by (rule freerange_run [OF s1(2)]) (use assms s1(3) in \<open>auto simp: ub S simp del: PGROUNDUP_aligned\<close>)
  then obtain s2 where s2: "freerange b c s1 = Ok () s2" "free_pages s2 (rev (pages b c) @ rev (pages ?p b))"
    by (auto simp: ub)
  have pv: "?p \<le> v" if "4096 dvd v" "a \<le> v" for v
    using pages_disjoint [of v ?p] that up PGROUNDUP_aligned [of a] by fastforce
  have bv: "b \<le> v \<or> v + 4096 \<le> b" if "4096 dvd v" for v
    using pages_disjoint [of v b] that assms(7) by fastforce
  have "v \<in> set (rev (pages b c) @ rev (pages ?p b)) \<longleftrightarrow> v mod PGSIZE = 0 \<and> a \<le> v \<and> v + PGSIZE \<le> c" for v
  proof (cases "4096 dvd v")
    case True
    have "(b \<le> v \<and> v + 4096 \<le> c \<or> ?p \<le> v \<and> v + 4096 \<le> b) \<longleftrightarrow> a \<le> v \<and> v + 4096 \<le> c"
      using up assms(5,6) pv [OF True] bv [OF True] by linarith
    then show ?thesis using True unfolding set_append set_rev S by simp
  next
    case False
    then show ?thesis unfolding set_append set_rev S dvd_eq_mod_eq_0 by simp
  qed
  then have "set (rev (pages b c) @ rev (pages ?p b)) = {v. v mod PGSIZE = 0 \<and> a \<le> v \<and> v + PGSIZE \<le> c}"
    by (intro set_eqI) (simp only: mem_Collect_eq)
  then show ?thesis using s1 s2
    by (intro exI [of _ "s2\<lparr>use_lock := True\<rparr>"] exI [of _ "rev (pages b c) @ rev (pages ?p b)"])
      (simp add: kinit1_def kinit2_def free_pages_def)
qed

definition boot_kkmem :: kkmem where
  "boot_kkmem = ksched.extend lottery_boot \<lparr>memory = (\<lambda>_. 0), use_lock = False, freelist = 0,
     kend = KERNLINK + 4096, kdata = KERNLINK\<rparr>"

theorem kinit_fills_witness:
  "\<exists>s' xs. thenk (kinit1 (KERNLINK + 4096) (KERNLINK + 16384)) (kinit2 (KERNLINK + 16384) (KERNLINK + 40960))
       boot_kkmem = Ok () s' \<and> free_pages s' xs \<and> use_lock s'
     \<and> set xs = {v. v mod PGSIZE = 0 \<and> KERNLINK + 4096 \<le> v \<and> v + PGSIZE \<le> KERNLINK + 40960}"
  by (rule kinit_fills) (simp_all add: boot_kkmem_def ksched.defs lottery_boot_def kbase.defs boot_kbase_def)

theorem kalloc_fresh_witness:
  "\<exists>ys s'. kp.allocs 1 (boot_kkmem\<lparr>freelist := KERNLINK + 4096\<rparr>) = Ok ys s' \<and> ys = [KERNLINK + 4096]"
proof -
  let ?s = "boot_kkmem\<lparr>freelist := KERNLINK + 4096\<rparr>"
  have "free_pages ?s [KERNLINK + 4096]"
    by (simp add: free_pages_def page_ok_def boot_kkmem_def ksched.defs lottery_boot_def kbase.defs
        boot_kbase_def ld32_def)
  then have "kalloc ?s = Ok (KERNLINK + 4096) (?s\<lparr>freelist := ld32 (memory ?s) (KERNLINK + 4096)\<rparr>)"
    and f: "free_pages ?s [KERNLINK + 4096]"
    by (simp_all add: kalloc_run)
  with kalloc_fresh [OF f, of 1] show ?thesis by simp
qed

end
