(* ===== verification/Sleeplock.thy ===== *)
theory Sleeplock
  imports Kalloc
begin

text \<open>
  sleeplock.c: locks whose waiters sleep. Every buffer and every inode has one; \<open>slocks\<close> gives
  the \<open>locked\<close> and \<open>pid\<close> fields of each. \<open>acquiresleep\<close> blocks while the lock is taken; the
  woken process goes round its loop again in \<open>acquiresleep_resume\<close>.
\<close>

record sleeplock =
  slk_locked :: bool
  slk_pid :: int

record kslk = kkmem +
  slocks :: "slid \<Rightarrow> sleeplock"

definition set_slock :: "slid \<Rightarrow> (sleeplock \<Rightarrow> sleeplock) \<Rightarrow> ('z kslk_scheme, unit) k" where
  "set_slock l f = kput (\<lambda>s. s\<lparr>slocks := (slocks s)(l := f (slocks s l))\<rparr>)"

definition initsleeplock :: "slid \<Rightarrow> ('z kslk_scheme, unit) k" where
  "initsleeplock l = thenk (set_slock l (\<lambda>k. k\<lparr>slk_locked := False\<rparr>)) (set_slock l (\<lambda>k. k\<lparr>slk_pid := 0\<rparr>))"

text \<open>The loop head of \<open>acquiresleep\<close>, entered with the inner spinlock held.\<close>

definition acquiresleep_loop :: "slid \<Rightarrow> ('z kslk_scheme, unit) k" where
  "acquiresleep_loop l = bindk (kget (\<lambda>s. slk_locked (slocks s l))) (\<lambda>b.
     if b then sleep (ChSleep l) (Some (SleepLk l))
     else thenk (set_slock l (\<lambda>k. k\<lparr>slk_locked := True\<rparr>))
       (bindk curproc (\<lambda>p. bindk (kget (\<lambda>s. pid (proc_at s p))) (\<lambda>n.
          thenk (set_slock l (\<lambda>k. k\<lparr>slk_pid := n\<rparr>)) (unlock (SleepLk l))))))"

definition acquiresleep :: "slid \<Rightarrow> ('z kslk_scheme, unit) k" where
  "acquiresleep l = thenk (lock (SleepLk l)) (acquiresleep_loop l)"

definition acquiresleep_resume :: "slid \<Rightarrow> ('z kslk_scheme, unit) k" where
  "acquiresleep_resume l = thenk (sleep_resume (SleepLk l)) (acquiresleep_loop l)"

definition releasesleep :: "slid \<Rightarrow> ('z kslk_scheme, unit) k" where
  "releasesleep l = thenk (lock (SleepLk l))
     (thenk (set_slock l (\<lambda>k. k\<lparr>slk_locked := False\<rparr>))
     (thenk (set_slock l (\<lambda>k. k\<lparr>slk_pid := 0\<rparr>))
     (thenk (wakeup (ChSleep l)) (unlock (SleepLk l)))))"

definition holdingsleep :: "slid \<Rightarrow> ('z kslk_scheme, bool) k" where
  "holdingsleep l = thenk (lock (SleepLk l)) (bindk curproc (\<lambda>p.
     bindk (kget (\<lambda>s. slk_locked (slocks s l) \<and> slk_pid (slocks s l) = pid (proc_at s p))) (\<lambda>r.
       thenk (unlock (SleepLk l)) (kret r))))"

section \<open>Running the operations\<close>

text \<open>A call context in which no spinlock is held and a process is running.\<close>

definition idle :: "'z kbase_scheme \<Rightarrow> bool" where
  "idle s \<longleftrightarrow> held s = [] \<and> cur s \<noteq> None"

abbreviation mypid :: "'z kbase_scheme \<Rightarrow> int" where
  "mypid s \<equiv> pid (proc_at s (the (cur s)))"

lemma idleD: "idle s \<Longrightarrow> held s = []" "idle s \<Longrightarrow> cur s = Some (the (cur s))"
  by (auto simp: idle_def)

lemma sleeplock_eta [simp]: "k\<lparr>slk_locked := b, slk_pid := n\<rparr> = \<lparr>slk_locked = b, slk_pid = n\<rparr>"
  by (cases k) simp

lemma acquiresleep_free:
  assumes "idle s" "\<not> slk_locked (slocks s l)"
  shows "acquiresleep l s =
    Ok () (s\<lparr>slocks := (slocks s)(l := \<lparr>slk_locked = True, slk_pid = mypid s\<rparr>)\<rparr>)"
proof -
  obtain p where p: "cur s = Some p" "held s = []" using assms(1) by (auto simp: idle_def)
  show ?thesis using assms(2) p
    by (simp add: acquiresleep_def acquiresleep_loop_def set_slock_def)
qed

lemma acquiresleep_busy:
  assumes "idle s" "slk_locked (slocks s l)" "the (cur s) < length (procs s)"
  shows "\<exists>s'. acquiresleep l s = Block s' \<and> slocks s' = slocks s \<and> held s' = [PtableLk]
    \<and> state (proc_at s' (the (cur s))) = SLEEPING \<and> chan (proc_at s' (the (cur s))) = Some (ChSleep l)"
proof -
  obtain p where p: "cur s = Some p" "held s = []" using assms(1) by (auto simp: idle_def)
  show ?thesis using assms(2,3) p
    by (simp add: acquiresleep_def acquiresleep_loop_def sleep_def sched_def)
qed

lemma holdingsleep_run:
  assumes "idle s"
  shows "holdingsleep l s = Ok (slk_locked (slocks s l) \<and> slk_pid (slocks s l) = mypid s) s"
proof -
  obtain p where p: "cur s = Some p" "held s = []" using assms(1) by (auto simp: idle_def)
  show ?thesis using p by (simp add: holdingsleep_def)
qed

lemma releasesleep_run:
  assumes "idle s"
  shows "releasesleep l s =
    Ok () (s\<lparr>slocks := (slocks s)(l := \<lparr>slk_locked = False, slk_pid = 0\<rparr>),
             procs := map (wakeup_proc (Some (ChSleep l))) (procs s)\<rparr>)"
  using assms by (simp add: releasesleep_def idle_def set_slock_def)

end
