(* ===== verification/Disk_Layout.thy ===== *)
theory Disk_Layout
  imports Memory
begin

text \<open>
  The on-disk structures of fs.h inside a block of bytes: numbers are stored least significant byte
  first. The superblock, an inode and a directory entry are records with a reader and a writer at an
  offset of the block; reading back what was written gives it again and leaves the rest of the block
  alone.
\<close>

type_synonym block = "u8 list"

section \<open>Bytes of a block\<close>

primrec le :: "u8 list \<Rightarrow> nat" where
  "le [] = 0"
| "le (x # xs) = unat x + 256 * le xs"

primrec unle :: "nat \<Rightarrow> nat \<Rightarrow> u8 list" where
  "unle 0 v = []"
| "unle (Suc k) v = of_nat v # unle k (v div 256)"

definition get_at :: "nat \<Rightarrow> nat \<Rightarrow> block \<Rightarrow> u8 list" where
  "get_at off n d = take n (drop off d)"

definition put_at :: "nat \<Rightarrow> u8 list \<Rightarrow> block \<Rightarrow> block" where
  "put_at off xs d = take off d @ xs @ drop (off + length xs) d"

definition get32 :: "nat \<Rightarrow> block \<Rightarrow> nat" where
  "get32 off d = le (get_at off 4 d)"

definition put32 :: "nat \<Rightarrow> nat \<Rightarrow> block \<Rightarrow> block" where
  "put32 off v = put_at off (unle 4 v)"

definition get16 :: "nat \<Rightarrow> block \<Rightarrow> nat" where
  "get16 off d = le (get_at off 2 d)"

definition put16 :: "nat \<Rightarrow> nat \<Rightarrow> block \<Rightarrow> block" where
  "put16 off v = put_at off (unle 2 v)"

text \<open>A C \<open>short\<close>.\<close>

definition s16 :: "int \<Rightarrow> int" where
  "s16 x = (x + 2 ^ 15) mod 2 ^ 16 - 2 ^ 15"

definition u16 :: "int \<Rightarrow> nat" where
  "u16 x = nat (x mod 2 ^ 16)"

lemma s16_u16: "s16 x = x \<Longrightarrow> s16 (int (u16 x)) = x"
proof -
  assume "s16 x = x"
  moreover have "s16 (int (u16 x)) = s16 x" by (simp add: s16_def u16_def mod_add_left_eq)
  ultimately show ?thesis by simp
qed

lemma length_unle [simp]: "length (unle k v) = k"
  by (induction k arbitrary: v) auto

lemma le_unle: "le (unle k v) = v mod 256 ^ k"
proof (induction k arbitrary: v)
  case (Suc k)
  have "v mod (256 * 256 ^ k) = 256 * (v div 256 mod 256 ^ k) + v mod 256" by (rule mod_mult2_eq)
  then show ?case using Suc by simp
qed simp

lemma le_less: "le xs < 256 ^ length xs"
proof (induction xs)
  case (Cons x xs)
  have "unat x < 256" by simp
  moreover have "Suc (le xs) \<le> 256 ^ length xs" using Cons by simp
  then have "256 * Suc (le xs) \<le> 256 * 256 ^ length xs" by (rule mult_le_mono2)
  ultimately show ?case unfolding le.simps length_Cons power_Suc mult_Suc_right by linarith
qed simp

lemma length_put_at [simp]: "off + length xs \<le> length d \<Longrightarrow> length (put_at off xs d) = length d"
  by (simp add: put_at_def)

lemma length_get_at [simp]: "off + n \<le> length d \<Longrightarrow> length (get_at off n d) = n"
  by (simp add: get_at_def)

lemma nth_put_at:
  "off + length xs \<le> length d \<Longrightarrow> i < length d \<Longrightarrow>
   put_at off xs d ! i = (if off \<le> i \<and> i < off + length xs then xs ! (i - off) else d ! i)"
  by (auto simp: put_at_def nth_append min_def)

lemma nth_get_at: "off + n \<le> length d \<Longrightarrow> i < n \<Longrightarrow> get_at off n d ! i = d ! (off + i)"
  by (simp add: get_at_def)

lemma get_put_same:
  "off + length xs \<le> length d \<Longrightarrow> length xs = n \<Longrightarrow> get_at off n (put_at off xs d) = xs"
  by (simp add: get_at_def put_at_def)

lemma get_put_other:
  assumes "off + length xs \<le> length d" "off' + n \<le> length d" "off' + n \<le> off \<or> off + length xs \<le> off'"
  shows "get_at off' n (put_at off xs d) = get_at off' n d"
  by (rule nth_equalityI) (use assms in \<open>auto simp: nth_get_at nth_put_at\<close>)

text \<open>A write inside a window changes what the window shows in the same way.\<close>

lemma get_put_inside:
  assumes "w \<le> off" "off + length xs \<le> w + n" "w + n \<le> length d"
  shows "get_at w n (put_at off xs d) = put_at (off - w) xs (get_at w n d)"
  by (rule nth_equalityI) (use assms in \<open>auto simp: nth_get_at nth_put_at add.commute\<close>)

lemma length_put32 [simp]: "off + 4 \<le> length d \<Longrightarrow> length (put32 off v d) = length d"
  by (simp add: put32_def)

lemma length_put16 [simp]: "off + 2 \<le> length d \<Longrightarrow> length (put16 off v d) = length d"
  by (simp add: put16_def)

lemma get32_put32 [simp]: "off + 4 \<le> length d \<Longrightarrow> get32 off (put32 off v d) = n32 v"
  by (simp add: get32_def put32_def get_put_same le_unle n32_def)

lemma get16_put16 [simp]: "off + 2 \<le> length d \<Longrightarrow> get16 off (put16 off v d) = v mod 2 ^ 16"
  by (simp add: get16_def put16_def get_put_same le_unle)

lemma get32_put_at [simp]:
  "off + length xs \<le> length d \<Longrightarrow> o' + 4 \<le> length d \<Longrightarrow> o' + 4 \<le> off \<or> off + length xs \<le> o' \<Longrightarrow>
   get32 o' (put_at off xs d) = get32 o' d"
  by (simp add: get32_def get_put_other)

lemma get16_put_at [simp]:
  "off + length xs \<le> length d \<Longrightarrow> o' + 2 \<le> length d \<Longrightarrow> o' + 2 \<le> off \<or> off + length xs \<le> o' \<Longrightarrow>
   get16 o' (put_at off xs d) = get16 o' d"
  by (simp add: get16_def get_put_other)

lemma get_put_disjoint [simp]:
  "off + 4 \<le> length d \<Longrightarrow> o' + 4 \<le> length d \<Longrightarrow> o' + 4 \<le> off \<or> off + 4 \<le> o' \<Longrightarrow>
   get32 o' (put32 off v d) = get32 o' d"
  "off + 2 \<le> length d \<Longrightarrow> o' + 4 \<le> length d \<Longrightarrow> o' + 4 \<le> off \<or> off + 2 \<le> o' \<Longrightarrow>
   get32 o' (put16 off v d) = get32 o' d"
  "off + 4 \<le> length d \<Longrightarrow> o' + 2 \<le> length d \<Longrightarrow> o' + 2 \<le> off \<or> off + 4 \<le> o' \<Longrightarrow>
   get16 o' (put32 off v d) = get16 o' d"
  "off + 2 \<le> length d \<Longrightarrow> o' + 2 \<le> length d \<Longrightarrow> o' + 2 \<le> off \<or> off + 2 \<le> o' \<Longrightarrow>
   get16 o' (put16 off v d) = get16 o' d"
  by (simp_all add: put32_def put16_def)

lemma get_at_put [simp]:
  "off + 4 \<le> length d \<Longrightarrow> o' + n \<le> length d \<Longrightarrow> o' + n \<le> off \<or> off + 4 \<le> o' \<Longrightarrow>
   get_at o' n (put32 off v d) = get_at o' n d"
  "off + 2 \<le> length d \<Longrightarrow> o' + n \<le> length d \<Longrightarrow> o' + n \<le> off \<or> off + 2 \<le> o' \<Longrightarrow>
   get_at o' n (put16 off v d) = get_at o' n d"
  by (simp_all add: put32_def put16_def get_put_other)

lemma get32_less: "off + 4 \<le> length d \<Longrightarrow> get32 off d < 2 ^ 32"
  using le_less [of "get_at off 4 d"] by (simp add: get32_def)

lemma get16_less: "off + 2 \<le> length d \<Longrightarrow> get16 off d < 2 ^ 16"
  using le_less [of "get_at off 2 d"] by (simp add: get16_def)

text \<open>An array of 32-bit numbers.\<close>

primrec put32s :: "nat \<Rightarrow> nat list \<Rightarrow> block \<Rightarrow> block" where
  "put32s off [] d = d"
| "put32s off (v # vs) d = put32s (off + 4) vs (put32 off v d)"

definition get32s :: "nat \<Rightarrow> nat \<Rightarrow> block \<Rightarrow> nat list" where
  "get32s off n d = map (\<lambda>i. get32 (off + 4 * i) d) [0..<n]"

lemma length_put32s [simp]: "off + 4 * length vs \<le> length d \<Longrightarrow> length (put32s off vs d) = length d"
  by (induction vs arbitrary: off d) auto

lemma length_get32s [simp]: "length (get32s off n d) = n"
  by (simp add: get32s_def)

lemma nth_get32s [simp]: "i < n \<Longrightarrow> get32s off n d ! i = get32 (off + 4 * i) d"
  by (simp add: get32s_def)

lemma get_put32s_other:
  "off + 4 * length vs \<le> length d \<Longrightarrow> o' + n \<le> length d \<Longrightarrow> o' + n \<le> off \<or> off + 4 * length vs \<le> o' \<Longrightarrow>
   get_at o' n (put32s off vs d) = get_at o' n d"
proof (induction vs arbitrary: off d)
  case (Cons v vs)
  then have "get_at o' n (put32s (off + 4) vs (put32 off v d)) = get_at o' n (put32 off v d)"
    by (intro Cons.IH) auto
  also have "\<dots> = get_at o' n d" using Cons.prems by (intro get_at_put(1)) auto
  finally show ?case by simp
qed simp

lemma get32_put32s_other [simp]:
  "off + 4 * length vs \<le> length d \<Longrightarrow> o' + 4 \<le> length d \<Longrightarrow> o' + 4 \<le> off \<or> off + 4 * length vs \<le> o' \<Longrightarrow>
   get32 o' (put32s off vs d) = get32 o' d"
  by (simp add: get32_def get_put32s_other)

lemma get16_put32s_other [simp]:
  "off + 4 * length vs \<le> length d \<Longrightarrow> o' + 2 \<le> length d \<Longrightarrow> o' + 2 \<le> off \<or> off + 4 * length vs \<le> o' \<Longrightarrow>
   get16 o' (put32s off vs d) = get16 o' d"
  by (simp add: get16_def get_put32s_other)

lemma get32_put32s:
  "off + 4 * length vs \<le> length d \<Longrightarrow> i < length vs \<Longrightarrow> get32 (off + 4 * i) (put32s off vs d) = n32 (vs ! i)"
proof (induction vs arbitrary: off d i)
  case (Cons v vs)
  show ?case
  proof (cases i)
    case 0
    then show ?thesis using Cons.prems by simp
  next
    case (Suc j)
    then show ?thesis using Cons.prems Cons.IH [of "off + 4" "put32 off v d" j] by (simp add: add.assoc)
  qed
qed simp

lemma get32s_put32s:
  assumes "off + 4 * length vs \<le> length d" "\<forall>v \<in> set vs. v < 2 ^ 32"
  shows "get32s off (length vs) (put32s off vs d) = vs"
  by (rule nth_equalityI) (use assms in \<open>auto simp: get32_put32s n32_id\<close>)

section \<open>Superblock\<close>

record superblock =
  sb_size :: nat
  sb_nblocks :: nat
  sb_ninodes :: nat
  sb_nlog :: nat
  sb_logstart :: nat
  sb_inodestart :: nat
  sb_bmapstart :: nat

definition get_superblock :: "block \<Rightarrow> superblock" where
  "get_superblock d = \<lparr>sb_size = get32 0 d, sb_nblocks = get32 4 d, sb_ninodes = get32 8 d,
     sb_nlog = get32 12 d, sb_logstart = get32 16 d, sb_inodestart = get32 20 d, sb_bmapstart = get32 24 d\<rparr>"

definition put_superblock :: "superblock \<Rightarrow> block \<Rightarrow> block" where
  "put_superblock sb = put32s 0 [sb_size sb, sb_nblocks sb, sb_ninodes sb, sb_nlog sb, sb_logstart sb,
     sb_inodestart sb, sb_bmapstart sb]"

section \<open>Inodes on disk\<close>

definition NDIRECT :: nat where [simp]: "NDIRECT = 12"
definition NINDIRECT :: nat where [simp]: "NINDIRECT = BSIZE div 4"
definition MAXFILE :: nat where [simp]: "MAXFILE = NDIRECT + NINDIRECT"
definition IPB :: nat where [simp]: "IPB = BSIZE div 64"
definition BPB :: nat where [simp]: "BPB = BSIZE * 8"
definition ROOTINO :: nat where [simp]: "ROOTINO = 1"
definition DIRSIZ :: nat where [simp]: "DIRSIZ = 14"

definition IBLOCK :: "nat \<Rightarrow> superblock \<Rightarrow> nat" where
  "IBLOCK i sb = n32 (i div IPB + sb_inodestart sb)"

definition BBLOCK :: "nat \<Rightarrow> superblock \<Rightarrow> nat" where
  "BBLOCK b sb = n32 (b div BPB + sb_bmapstart sb)"

record dinode =
  di_type :: int
  di_major :: int
  di_minor :: int
  di_nlink :: int
  di_size :: nat
  di_addrs :: "nat list"

text \<open>The 64 bytes of an inode, and an inode stored at an offset of a block.\<close>

definition dec_dinode :: "u8 list \<Rightarrow> dinode" where
  "dec_dinode x = \<lparr>di_type = s16 (int (get16 0 x)), di_major = s16 (int (get16 2 x)),
     di_minor = s16 (int (get16 4 x)), di_nlink = s16 (int (get16 6 x)),
     di_size = get32 8 x, di_addrs = get32s 12 (NDIRECT + 1) x\<rparr>"

definition enc_dinode :: "dinode \<Rightarrow> u8 list" where
  "enc_dinode di = unle 2 (u16 (di_type di)) @ unle 2 (u16 (di_major di)) @ unle 2 (u16 (di_minor di))
     @ unle 2 (u16 (di_nlink di)) @ unle 4 (di_size di) @ concat (map (unle 4) (di_addrs di))"

definition get_dinode :: "nat \<Rightarrow> block \<Rightarrow> dinode" where
  "get_dinode off d = dec_dinode (get_at off 64 d)"

definition put_dinode :: "nat \<Rightarrow> dinode \<Rightarrow> block \<Rightarrow> block" where
  "put_dinode off di d = put_at off (enc_dinode di) d"

definition dinode_ok :: "dinode \<Rightarrow> bool" where
  "dinode_ok di \<longleftrightarrow> s16 (di_type di) = di_type di \<and> s16 (di_major di) = di_major di
     \<and> s16 (di_minor di) = di_minor di \<and> s16 (di_nlink di) = di_nlink di \<and> di_size di < 2 ^ 32
     \<and> length (di_addrs di) = NDIRECT + 1 \<and> (\<forall>a \<in> set (di_addrs di). a < 2 ^ 32)"

lemma u16_less [simp]: "u16 x < 65536"
  by (simp add: u16_def nat_less_iff)

lemma length_enc_dinode [simp]: "length (enc_dinode di) = 12 + 4 * length (di_addrs di)"
  by (simp add: enc_dinode_def length_concat comp_def sum_list_triv)

lemma length_put_dinode [simp]:
  "off + 64 \<le> length d \<Longrightarrow> length (di_addrs di) = 13 \<Longrightarrow> length (put_dinode off di d) = length d"
  by (simp add: put_dinode_def)

lemma get_append:
  "length pre = off \<Longrightarrow> length xs = n \<Longrightarrow> get_at off n (pre @ xs @ post) = xs"
  by (simp add: get_at_def)

lemma get32_concat:
  "i < length vs \<Longrightarrow> get_at (4 * i) 4 (concat (map (unle 4) vs)) = unle 4 (vs ! i)"
proof (induction vs arbitrary: i)
  case (Cons v vs)
  then show ?case by (cases i) (simp_all add: get_at_def)
qed simp

lemma dec_enc_dinode:
  assumes "dinode_ok di"
  shows "dec_dinode (enc_dinode di) = di"
proof -
  let ?e = "enc_dinode di"
  have l: "length (di_addrs di) = 13" "\<forall>a \<in> set (di_addrs di). a < 2 ^ 32" "di_size di < 2 ^ 32"
    using assms by (simp_all add: dinode_ok_def)
  have g: "get_at 0 2 ?e = unle 2 (u16 (di_type di))" "get_at 2 2 ?e = unle 2 (u16 (di_major di))"
    "get_at 4 2 ?e = unle 2 (u16 (di_minor di))" "get_at 6 2 ?e = unle 2 (u16 (di_nlink di))"
    "get_at 8 4 ?e = unle 4 (di_size di)"
    by (simp_all add: enc_dinode_def get_at_def)
  have "get_at (12 + 4 * i) 4 ?e = unle 4 (di_addrs di ! i)" if "i < 13" for i
    using get32_concat [of i "di_addrs di"] that l by (simp add: enc_dinode_def get_at_def)
  then have "get32s 12 13 ?e = di_addrs di"
    using l by (intro nth_equalityI) (auto simp: get32_def le_unle)
  with g l assms show ?thesis
    by (intro dinode.equality) (simp_all add: dec_dinode_def get16_def get32_def le_unle dinode_ok_def s16_u16)
qed

lemma get_put_dinode:
  assumes "off + 64 \<le> length d" "dinode_ok di"
  shows "get_dinode off (put_dinode off di d) = di"
  using assms dec_enc_dinode [OF assms(2)]
  by (simp add: get_dinode_def put_dinode_def get_put_same dinode_ok_def)

text \<open>The other inodes of the block are untouched.\<close>

lemma get_put_dinode_other:
  assumes "off + 64 \<le> length d" "length (di_addrs di) = 13" "o' + 64 \<le> length d"
    and "o' + 64 \<le> off \<or> off + 64 \<le> o'"
  shows "get_dinode o' (put_dinode off di d) = get_dinode o' d"
  using assms by (simp add: get_dinode_def put_dinode_def get_put_other)

lemma dinode_ok_get:
  assumes "off + 64 \<le> length d"
  shows "dinode_ok (get_dinode off d)"
proof -
  have s: "s16 (s16 x) = s16 x" for x by (simp add: s16_def)
  have l: "length (get_at off 64 d) = 64" using assms by simp
  have "get32 (12 + 4 * i) (get_at off 64 d) < 2 ^ 32" if "i < 13" for i
    using that l by (intro get32_less) simp
  moreover have "get32 8 (get_at off 64 d) < 2 ^ 32" using l by (intro get32_less) simp
  ultimately show ?thesis by (auto simp: get_dinode_def dec_dinode_def dinode_ok_def s get32s_def)
qed

section \<open>Directory entries\<close>

record dirent =
  de_inum :: nat
  de_name :: "u8 list"

definition get_dirent :: "u8 list \<Rightarrow> dirent" where
  "get_dirent d = \<lparr>de_inum = get16 0 d, de_name = get_at 2 DIRSIZ d\<rparr>"

definition put_dirent :: "dirent \<Rightarrow> u8 list" where
  "put_dirent de = unle 2 (de_inum de) @ de_name de"

lemma get_put_dirent:
  "de_inum de < 2 ^ 16 \<Longrightarrow> length (de_name de) = DIRSIZ \<Longrightarrow> get_dirent (put_dirent de) = de"
  by (simp add: get_dirent_def put_dirent_def get16_def get_at_def le_unle)

lemma length_put_dirent [simp]: "length (put_dirent de) = 2 + length (de_name de)"
  by (simp add: put_dirent_def)

end
