(* ===== verification/Bio.thy ===== *)
theory Bio
  imports Sleeplock Disk_Layout
begin

text \<open>
  The buffer cache bio.c over the memory disk memide.c. The cache is the array \<open>bufs\<close> with the
  doubly linked list through \<open>bnext\<close> and \<open>bprev\<close>; index \<open>NBUF\<close> is \<open>bcache.head\<close>. The
  disk is a function from block numbers to blocks; \<open>dtrace\<close> lists all blocks written since boot,
  oldest first, which is what a crash in between is judged by.
\<close>

section \<open>State\<close>



record buf =
  b_valid :: bool
  b_dirty :: bool
  b_dev :: nat
  b_blockno :: nat
  b_refcnt :: nat
  b_data :: block

record kbio = kslk +
  bufs :: "buf list"
  bnext :: "nat \<Rightarrow> nat"
  bprev :: "nat \<Rightarrow> nat"
  disk :: "nat \<Rightarrow> block"
  disksize :: nat
  dtrace :: "(nat \<times> block) list"

abbreviation bhead :: nat where
  "bhead \<equiv> NBUF"

abbreviation buf_at :: "'z kbio_scheme \<Rightarrow> nat \<Rightarrow> buf" where
  "buf_at s b \<equiv> bufs s ! b"

definition set_buf :: "nat \<Rightarrow> (buf \<Rightarrow> buf) \<Rightarrow> ('z kbio_scheme, unit) k" where
  "set_buf b f = kput (\<lambda>s. s\<lparr>bufs := upd b f (bufs s)\<rparr>)"

definition set_next :: "nat \<Rightarrow> ('z kbio_scheme \<Rightarrow> nat) \<Rightarrow> ('z kbio_scheme, unit) k" where
  "set_next b f = kput (\<lambda>s. s\<lparr>bnext := (bnext s)(b := f s)\<rparr>)"

definition set_prev :: "('z kbio_scheme \<Rightarrow> nat) \<Rightarrow> ('z kbio_scheme \<Rightarrow> nat) \<Rightarrow> ('z kbio_scheme, unit) k" where
  "set_prev b f = kput (\<lambda>s. s\<lparr>bprev := (bprev s)(b s := f s)\<rparr>)"

lemma kbio_commute [simp]:
  fixes s :: "'z kbio_scheme"
  shows
  "s\<lparr>slocks := k, held := h\<rparr> = s\<lparr>held := h, slocks := k\<rparr>"
  "s\<lparr>slocks := k, procs := p\<rparr> = s\<lparr>procs := p, slocks := k\<rparr>"
  "s\<lparr>bufs := b, held := h\<rparr> = s\<lparr>held := h, bufs := b\<rparr>"
  "s\<lparr>bufs := b, procs := p\<rparr> = s\<lparr>procs := p, bufs := b\<rparr>"
  "s\<lparr>bufs := b, slocks := k\<rparr> = s\<lparr>slocks := k, bufs := b\<rparr>"
  "s\<lparr>bnext := n, held := h\<rparr> = s\<lparr>held := h, bnext := n\<rparr>"
  "s\<lparr>bnext := n, procs := p\<rparr> = s\<lparr>procs := p, bnext := n\<rparr>"
  "s\<lparr>bnext := n, slocks := k\<rparr> = s\<lparr>slocks := k, bnext := n\<rparr>"
  "s\<lparr>bnext := n, bufs := b\<rparr> = s\<lparr>bufs := b, bnext := n\<rparr>"
  "s\<lparr>bprev := v, held := h\<rparr> = s\<lparr>held := h, bprev := v\<rparr>"
  "s\<lparr>bprev := v, procs := p\<rparr> = s\<lparr>procs := p, bprev := v\<rparr>"
  "s\<lparr>bprev := v, slocks := k\<rparr> = s\<lparr>slocks := k, bprev := v\<rparr>"
  "s\<lparr>bprev := v, bufs := b\<rparr> = s\<lparr>bufs := b, bprev := v\<rparr>"
  "s\<lparr>bprev := v, bnext := n\<rparr> = s\<lparr>bnext := n, bprev := v\<rparr>"
  "s\<lparr>disk := d, held := h\<rparr> = s\<lparr>held := h, disk := d\<rparr>"
  "s\<lparr>disk := d, procs := p\<rparr> = s\<lparr>procs := p, disk := d\<rparr>"
  "s\<lparr>disk := d, slocks := k\<rparr> = s\<lparr>slocks := k, disk := d\<rparr>"
  "s\<lparr>disk := d, bufs := b\<rparr> = s\<lparr>bufs := b, disk := d\<rparr>"
  "s\<lparr>disk := d, bnext := n\<rparr> = s\<lparr>bnext := n, disk := d\<rparr>"
  "s\<lparr>disk := d, bprev := v\<rparr> = s\<lparr>bprev := v, disk := d\<rparr>"
  "s\<lparr>dtrace := t, held := h\<rparr> = s\<lparr>held := h, dtrace := t\<rparr>"
  "s\<lparr>dtrace := t, procs := p\<rparr> = s\<lparr>procs := p, dtrace := t\<rparr>"
  "s\<lparr>dtrace := t, slocks := k\<rparr> = s\<lparr>slocks := k, dtrace := t\<rparr>"
  "s\<lparr>dtrace := t, bufs := b\<rparr> = s\<lparr>bufs := b, dtrace := t\<rparr>"
  "s\<lparr>dtrace := t, bnext := n\<rparr> = s\<lparr>bnext := n, dtrace := t\<rparr>"
  "s\<lparr>dtrace := t, bprev := v\<rparr> = s\<lparr>bprev := v, dtrace := t\<rparr>"
  "s\<lparr>dtrace := t, disk := d\<rparr> = s\<lparr>disk := d, dtrace := t\<rparr>"
  by (cases s, simp)+

section \<open>The disk (memide.c)\<close>

definition iderw :: "nat \<Rightarrow> ('z kbio_scheme, unit) k" where
  "iderw b = bindk (holdingsleep (BufSl b)) (\<lambda>h. bindk (kget (\<lambda>s. buf_at s b)) (\<lambda>bf.
     if \<not> h then kpanic ''iderw: buf not locked''
     else if b_valid bf \<and> \<not> b_dirty bf then kpanic ''iderw: nothing to do''
     else if b_dev bf \<noteq> 1 then kpanic ''iderw: request not for disk 1''
     else bindk (kget disksize) (\<lambda>n. if n \<le> b_blockno bf then kpanic ''iderw: block out of range''
     else thenk
       (if b_dirty bf
        then thenk (set_buf b (\<lambda>f. f\<lparr>b_dirty := False\<rparr>))
               (kput (\<lambda>s. s\<lparr>disk := (disk s)(b_blockno bf := b_data bf),
                            dtrace := dtrace s @ [(b_blockno bf, b_data bf)]\<rparr>))
        else bindk (kget (\<lambda>s. disk s (b_blockno bf))) (\<lambda>d. set_buf b (\<lambda>f. f\<lparr>b_data := d\<rparr>)))
       (set_buf b (\<lambda>f. f\<lparr>b_valid := True\<rparr>)))))"

section \<open>The cache (bio.c)\<close>

text \<open>Insertion behind the head, as \<open>binit\<close> and \<open>brelse\<close> do it.\<close>

definition link_front :: "nat \<Rightarrow> ('z kbio_scheme, unit) k" where
  "link_front b =
     thenk (set_next b (\<lambda>s. bnext s bhead))
     (thenk (set_prev (\<lambda>_. b) (\<lambda>_. bhead))
     (thenk (set_prev (\<lambda>s. bnext s bhead) (\<lambda>_. b))
            (set_next bhead (\<lambda>_. b))))"

definition binit :: "('z kbio_scheme, unit) k" where
  "binit = thenk (set_prev (\<lambda>_. bhead) (\<lambda>_. bhead)) (thenk (set_next bhead (\<lambda>_. bhead))
     (eachk (\<lambda>b.
        thenk (set_next b (\<lambda>s. bnext s bhead))
        (thenk (set_prev (\<lambda>_. b) (\<lambda>_. bhead))
        (thenk (initsleeplock (BufSl b))
        (thenk (set_prev (\<lambda>s. bnext s bhead) (\<lambda>_. b))
               (set_next bhead (\<lambda>_. b)))))) [0..<NBUF]))"

text \<open>The two loops of \<open>bget\<close>: walk the list from \<open>b\<close> until the head; \<open>None\<close> when the links form
  a cycle that avoids the head.\<close>

partial_function (option) walk :: "(nat \<Rightarrow> nat) \<Rightarrow> (nat \<Rightarrow> bool) \<Rightarrow> nat \<Rightarrow> nat option option" where
  "walk link P b = (if b = bhead then Some None else if P b then Some (Some b) else walk link P (link b))"

definition bget :: "nat \<Rightarrow> nat \<Rightarrow> ('z kbio_scheme, nat) k" where
  "bget dev blockno = thenk (lock BcacheLk)
     (bindk (kget (\<lambda>s. walk (bnext s) (\<lambda>b. b_dev (buf_at s b) = dev \<and> b_blockno (buf_at s b) = blockno)
                        (bnext s bhead))) (\<lambda>r.
      case r of None \<Rightarrow> (\<lambda>_. Hang)
      | Some (Some b) \<Rightarrow>
          thenk (set_buf b (\<lambda>f. f\<lparr>b_refcnt := n32 (b_refcnt f + 1)\<rparr>))
          (thenk (unlock BcacheLk) (thenk (acquiresleep (BufSl b)) (kret b)))
      | Some None \<Rightarrow>
          bindk (kget (\<lambda>s. walk (bprev s) (\<lambda>b. b_refcnt (buf_at s b) = 0 \<and> \<not> b_dirty (buf_at s b))
                             (bprev s bhead))) (\<lambda>r.
          case r of None \<Rightarrow> (\<lambda>_. Hang)
          | Some (Some b) \<Rightarrow>
              thenk (set_buf b (\<lambda>f. f\<lparr>b_dev := dev, b_blockno := blockno, b_valid := False,
                                        b_dirty := False, b_refcnt := 1\<rparr>))
              (thenk (unlock BcacheLk) (thenk (acquiresleep (BufSl b)) (kret b)))
          | Some None \<Rightarrow> kpanic ''bget: no buffers'')))"

definition bread :: "nat \<Rightarrow> nat \<Rightarrow> ('z kbio_scheme, nat) k" where
  "bread dev blockno = bindk (bget dev blockno) (\<lambda>b.
     bindk (kget (\<lambda>s. b_valid (buf_at s b))) (\<lambda>v. thenk (whenk (\<not> v) (iderw b)) (kret b)))"

definition bwrite :: "nat \<Rightarrow> ('z kbio_scheme, unit) k" where
  "bwrite b = bindk (holdingsleep (BufSl b)) (\<lambda>h.
     if \<not> h then kpanic ''bwrite''
     else thenk (set_buf b (\<lambda>f. f\<lparr>b_dirty := True\<rparr>)) (iderw b))"

definition brelse :: "nat \<Rightarrow> ('z kbio_scheme, unit) k" where
  "brelse b = bindk (holdingsleep (BufSl b)) (\<lambda>h.
     if \<not> h then kpanic ''brelse''
     else thenk (releasesleep (BufSl b)) (thenk (lock BcacheLk)
       (thenk (set_buf b (\<lambda>f. f\<lparr>b_refcnt := n32 (b_refcnt f + (2 ^ 32 - 1))\<rparr>))
       (bindk (kget (\<lambda>s. b_refcnt (buf_at s b))) (\<lambda>n.
        thenk (whenk (n = 0)
          (thenk (set_prev (\<lambda>s. bnext s b) (\<lambda>s. bprev s b))
          (thenk (kput (\<lambda>s. s\<lparr>bnext := (bnext s)(bprev s b := bnext s b)\<rparr>))
                 (link_front b))))
          (unlock BcacheLk))))))"

text \<open>Storing into the data of a buffer.\<close>

definition bdata_put :: "nat \<Rightarrow> (block \<Rightarrow> block) \<Rightarrow> ('z kbio_scheme, unit) k" where
  "bdata_put b f = set_buf b (\<lambda>bf. bf\<lparr>b_data := f (b_data bf)\<rparr>)"

definition bdata_get :: "nat \<Rightarrow> ('z kbio_scheme, block) k" where
  "bdata_get b = kget (\<lambda>s. b_data (buf_at s b))"

section \<open>The doubly linked list\<close>

text \<open>\<open>seg nx pv a xs e\<close>: following \<open>nx\<close> from \<open>a\<close> visits \<open>xs\<close> and then \<open>e\<close>, and \<open>pv\<close> leads back.\<close>

primrec seg :: "(nat \<Rightarrow> nat) \<Rightarrow> (nat \<Rightarrow> nat) \<Rightarrow> nat \<Rightarrow> nat list \<Rightarrow> nat \<Rightarrow> bool" where
  "seg nx pv a [] e \<longleftrightarrow> nx a = e \<and> pv e = a"
| "seg nx pv a (x # xs) e \<longleftrightarrow> nx a = x \<and> pv x = a \<and> seg nx pv x xs e"

lemma seg_cong:
  "(\<And>x. x \<in> insert a (set xs) \<Longrightarrow> nx x = nx' x) \<Longrightarrow> (\<And>x. x \<in> insert e (set xs) \<Longrightarrow> pv x = pv' x) \<Longrightarrow>
   seg nx pv a xs e = seg nx' pv' a xs e"
  by (induction xs arbitrary: a) auto

lemma seg_append: "seg nx pv a (xs @ b # ys) e \<longleftrightarrow> seg nx pv a xs b \<and> seg nx pv b ys e"
  by (induction xs arbitrary: a) auto

lemma seg_rev: "seg nx pv a xs e \<Longrightarrow> seg pv nx e (rev xs) a"
  by (induction xs arbitrary: a) (auto simp: seg_append)

lemma seg_next_in: "seg nx pv a xs e \<Longrightarrow> nx a \<in> insert e (set xs)"
  by (cases xs) auto

lemma seg_prev_in: "seg nx pv a xs e \<Longrightarrow> pv e \<in> insert a (set xs)"
  using seg_next_in [OF seg_rev] by force

lemma seg_unlink:
  assumes "seg nx pv a (ys @ b # zs) e" "distinct (ys @ b # zs)" "a \<notin> set (ys @ b # zs)" "e \<notin> set (ys @ b # zs)"
  shows "seg (nx(pv b := nx b)) (pv(nx b := pv b)) a (ys @ zs) e"
  using assms
proof (induction ys arbitrary: a)
  case Nil
  show ?case
  proof (cases zs)
    case Nil
    then show ?thesis using Nil.prems by auto
  next
    case (Cons z zs')
    have "seg nx pv z zs' e" using Nil.prems(1) Cons by simp
    then have "seg (nx(pv b := nx b)) (pv(nx b := pv b)) z zs' e"
      using Nil.prems Cons by (subst seg_cong [where nx' = nx and pv' = pv]) auto
    moreover have "(nx(pv b := nx b)) a = z" "(pv(nx b := pv b)) z = a" using Nil.prems Cons by auto
    ultimately show ?thesis by (simp only: Cons append_Nil seg.simps)
  qed
next
  case (Cons y ys)
  then have s: "seg nx pv y (ys @ b # zs) e" by simp
  have IH: "seg (nx(pv b := nx b)) (pv(nx b := pv b)) y (ys @ zs) e"
    using Cons.prems by (intro Cons.IH) auto
  have "seg nx pv y ys b" "seg nx pv b zs e" using s by (simp_all add: seg_append)
  then have "pv b \<in> insert y (set ys)" "nx b \<in> insert e (set zs)"
    using seg_prev_in seg_next_in by blast+
  then have "pv b \<noteq> a" "nx b \<noteq> y" using Cons.prems(2-4) by auto
  then have "(nx(pv b := nx b)) a = y" "(pv(nx b := pv b)) y = a" using Cons.prems(1) by simp_all
  with IH show ?case by (simp only: append_Cons seg.simps)
qed

lemma seg_insert:
  assumes "seg nx pv h xs h" "b \<notin> set xs" "b \<noteq> h" "h \<notin> set xs" "distinct xs"
  shows "seg (nx(b := nx h, h := b)) ((pv(b := h))(nx h := b)) h (b # xs) h"
proof (cases xs)
  case Nil
  then show ?thesis using assms by auto
next
  case (Cons x xs')
  have "seg nx pv x xs' h" using assms(1) Cons by simp
  then have "seg (nx(b := nx h, h := b)) ((pv(b := h))(nx h := b)) x xs' h"
    using assms Cons by (subst seg_cong [where nx' = nx and pv' = pv]) auto
  then show ?thesis using assms Cons by auto
qed

lemma walk_seg:
  assumes "seg nx pv a xs bhead" "bhead \<notin> set xs"
  shows "walk nx P (nx a) = Some (find P xs)"
  using assms
proof (induction xs arbitrary: a)
  case Nil
  then show ?case by (simp add: walk.simps)
next
  case (Cons x xs)
  then have "walk nx P (nx x) = Some (find P xs)" by simp
  then show ?case using Cons.prems by (subst walk.simps) auto
qed

section \<open>The cache invariant\<close>

definition lru :: "'z kbio_scheme \<Rightarrow> nat list \<Rightarrow> bool" where
  "lru s xs \<longleftrightarrow> seg (bnext s) (bprev s) bhead xs bhead \<and> distinct xs \<and> set xs = {..<NBUF}"

lemma lruD:
  assumes "lru s xs"
  shows "bhead \<notin> set xs" "walk (bnext s) P (bnext s bhead) = Some (find P xs)"
    "walk (bprev s) P (bprev s bhead) = Some (find P (rev xs))"
proof -
  show h: "bhead \<notin> set xs" using assms by (simp add: lru_def)
  show "walk (bnext s) P (bnext s bhead) = Some (find P xs)"
    using assms h by (intro walk_seg) (auto simp: lru_def)
  show "walk (bprev s) P (bprev s bhead) = Some (find P (rev xs))"
    using assms h by (intro walk_seg [OF seg_rev]) (auto simp: lru_def)
qed

definition moved :: "nat \<Rightarrow> nat list \<Rightarrow> nat list" where
  "moved b xs = b # remove1 b xs"

definition relinked :: "nat \<Rightarrow> 'z kbio_scheme \<Rightarrow> 'z kbio_scheme" where
  "relinked b s = (let pv1 = (bprev s)(bnext s b := bprev s b);
       nx1 = (bnext s)(bprev s b := bnext s b) in
     s\<lparr>bprev := (pv1(b := bhead))(nx1 bhead := b), bnext := nx1(b := nx1 bhead, bhead := b)\<rparr>)"

lemma lru_relinked:
  assumes "lru s xs" "b < NBUF"
  shows "lru (relinked b s) (moved b xs)"
proof -
  have "b \<in> set xs" using assms by (simp add: lru_def)
  then obtain ys zs where xs: "xs = ys @ b # zs" "b \<notin> set ys" by (metis split_list_first)
  let ?pv = "(bprev s)(bnext s b := bprev s b)" and ?nx = "(bnext s)(bprev s b := bnext s b)"
  have d: "distinct (ys @ b # zs)" "bhead \<notin> set (ys @ b # zs)" "set (ys @ b # zs) = {..<NBUF}"
    using assms(1) lruD(1) [OF assms(1)] xs by (auto simp: lru_def)
  have "seg ?nx ?pv bhead (ys @ zs) bhead"
    using assms(1) d xs by (intro seg_unlink) (auto simp: lru_def)
  then have "seg (?nx(b := ?nx bhead, bhead := b)) ((?pv(b := bhead))(?nx bhead := b)) bhead (b # ys @ zs) bhead"
    using d assms(2) by (intro seg_insert) auto
  moreover have "moved b xs = b # ys @ zs" using xs by (simp add: moved_def remove1_append)
  moreover have "set (b # ys @ zs) = {..<NBUF}" using d(3) by auto
  ultimately show ?thesis using d(1) by (auto simp: lru_def relinked_def Let_def)
qed

text \<open>
  The invariant between file system operations of one process: a buffer is either unused, and then
  unlocked and, unless it is dirty, a copy of its disk block; or it is held by the current process.
  Blocks of disk 1 are cached at most once, and what is cached is valid.
\<close>

definition buf_ok :: "'z kbio_scheme \<Rightarrow> nat \<Rightarrow> bool" where
  "buf_ok s i \<longleftrightarrow> (let b = buf_at s i; k = slocks s (BufSl i) in
     length (b_data b) = BSIZE \<and> (b_dev b = 1 \<longrightarrow> b_valid b) \<and> (b_dirty b \<longrightarrow> b_dev b = 1)
     \<and> (b_refcnt b = 0 \<and> \<not> slk_locked k \<and> (b_dev b = 1 \<and> \<not> b_dirty b \<longrightarrow> b_data b = disk s (b_blockno b))
       \<or> b_refcnt b = 1 \<and> k = \<lparr>slk_locked = True, slk_pid = mypid s\<rparr> \<and> b_dev b = 1))"

definition bc_inv :: "'z kbio_scheme \<Rightarrow> bool" where
  "bc_inv s \<longleftrightarrow> (\<exists>xs. lru s xs) \<and> length (bufs s) = NBUF \<and> (\<forall>i < NBUF. buf_ok s i)
     \<and> (\<forall>i < NBUF. \<forall>j < NBUF. b_dev (buf_at s i) = 1 \<longrightarrow> b_dev (buf_at s j) = 1 \<longrightarrow>
          b_blockno (buf_at s i) = b_blockno (buf_at s j) \<longrightarrow> i = j)
     \<and> (\<forall>p \<in> set (procs s). \<forall>i. state p = SLEEPING \<longrightarrow> chan p \<noteq> Some (ChSleep (BufSl i)))
     \<and> (\<forall>n. length (disk s n) = BSIZE) \<and> idle s"

lemma bc_invD:
  assumes "bc_inv s"
  shows "length (bufs s) = NBUF" "i < NBUF \<Longrightarrow> buf_ok s i"
    "i < NBUF \<Longrightarrow> j < NBUF \<Longrightarrow> b_dev (buf_at s i) = 1 \<Longrightarrow> b_dev (buf_at s j) = 1 \<Longrightarrow>
       b_blockno (buf_at s i) = b_blockno (buf_at s j) \<Longrightarrow> i = j"
    "length (disk s n) = BSIZE" "idle s" "held s = []" "cur s = Some (the (cur s))"
  using assms unfolding bc_inv_def idle_def by (blast | simp | force)+

lemma bc_inv_nosleep:
  "bc_inv s \<Longrightarrow> map (wakeup_proc (Some (ChSleep (BufSl i)))) (procs s) = procs s"
  by (rule map_idI) (auto simp: bc_inv_def wakeup_proc_def)

text \<open>What a block contains as far as the file system can tell: the cached copy if there is one.\<close>

definition cached :: "'z kbio_scheme \<Rightarrow> nat \<Rightarrow> nat \<Rightarrow> bool" where
  "cached s n i \<longleftrightarrow> i < NBUF \<and> b_dev (buf_at s i) = 1 \<and> b_blockno (buf_at s i) = n"

definition bview :: "'z kbio_scheme \<Rightarrow> nat \<Rightarrow> block" where
  "bview s n = (case scan (\<lambda>b. b_dev b = 1 \<and> b_blockno b = n) (bufs s) of
     Some i \<Rightarrow> b_data (buf_at s i) | None \<Rightarrow> disk s n)"

lemma bview_cached: "bc_inv s \<Longrightarrow> cached s n i \<Longrightarrow> bview s n = b_data (buf_at s i)"
proof -
  assume inv: "bc_inv s" and c: "cached s n i"
  then obtain j where j: "scan (\<lambda>b. b_dev b = 1 \<and> b_blockno b = n) (bufs s) = Some j"
    using scan_ex [of i "bufs s" "\<lambda>b. b_dev b = 1 \<and> b_blockno b = n"] bc_invD(1) [OF inv]
    by (auto simp: cached_def)
  then have "j = i"
    using bc_invD(3) [OF inv, of j i] bc_invD(1) [OF inv] scan_SomeD [OF j] c by (auto simp: cached_def)
  with j show ?thesis by (simp add: bview_def)
qed

lemma bview_disk: "bc_inv s \<Longrightarrow> (\<And>i. \<not> cached s n i) \<Longrightarrow> bview s n = disk s n"
proof -
  assume inv: "bc_inv s" and c: "\<And>i. \<not> cached s n i"
  have "scan (\<lambda>b. b_dev b = 1 \<and> b_blockno b = n) (bufs s) = None"
    using c bc_invD(1) [OF inv] by (fastforce simp: scan_None_iff in_set_conv_nth cached_def)
  then show ?thesis by (simp add: bview_def)
qed

definition bheld :: "'z kbio_scheme \<Rightarrow> nat \<Rightarrow> bool" where
  "bheld s i \<longleftrightarrow> i < NBUF \<and> b_refcnt (buf_at s i) = 1"

text \<open>The state after \<open>bread\<close> has returned buffer \<open>b\<close> for block \<open>n\<close>.\<close>

definition got_buf :: "nat \<Rightarrow> buf \<Rightarrow> 'z kbio_scheme \<Rightarrow> 'z kbio_scheme" where
  "got_buf b v s = s\<lparr>slocks := (slocks s)(BufSl b := \<lparr>slk_locked = True, slk_pid = mypid s\<rparr>),
     bufs := (bufs s)[b := v]\<rparr>"

definition got_ok :: "'z kbio_scheme \<Rightarrow> nat \<Rightarrow> nat \<Rightarrow> buf \<Rightarrow> bool" where
  "got_ok s n b v \<longleftrightarrow> b < NBUF \<and> b_refcnt (buf_at s b) = 0
     \<and> (cached s n b \<or> (\<forall>i. \<not> cached s n i) \<and> \<not> b_dirty (buf_at s b))
     \<and> v = \<lparr>b_valid = True, b_dirty = b_dirty (buf_at s b), b_dev = 1, b_blockno = n, b_refcnt = 1,
            b_data = bview s n\<rparr>"

lemma find_SomeI: "find P xs = Some x \<Longrightarrow> x \<in> set xs \<and> P x"
  by (auto simp: find_Some_iff)

lemma find_ex: "\<exists>x \<in> set xs. P x \<Longrightarrow> \<exists>x. find P xs = Some x"
  using find_None_iff [of P xs] by (cases "find P xs") auto

lemma find_skip: "find P xs = None \<Longrightarrow> find P (xs @ ys) = find P ys"
  by (induction xs) (auto split: if_splits)

lemma acquire_buf:
  assumes "idle s" "\<not> slk_locked (slocks s (BufSl b))"
  shows "acquiresleep (BufSl b) (s\<lparr>bufs := bs\<rparr>) =
    Ok () (s\<lparr>slocks := (slocks s)(BufSl b := \<lparr>slk_locked = True, slk_pid = mypid s\<rparr>), bufs := bs\<rparr>)"
  using assms by (subst acquiresleep_free) (simp_all add: idle_def)

lemma bget_hit:
  assumes inv: "bc_inv s" and c: "cached s n b" and nh: "\<not> bheld s b"
  shows "bget 1 n s = Ok b (got_buf b ((buf_at s b)\<lparr>b_refcnt := 1\<rparr>) s)"
proof -
  obtain xs where xs: "lru s xs" using inv by (auto simp: bc_inv_def)
  let ?P = "\<lambda>i. b_dev (buf_at s i) = 1 \<and> b_blockno (buf_at s i) = n"
  have b: "b < NBUF" "?P b" using c by (simp_all add: cached_def)
  then obtain i where i: "find ?P xs = Some i" using find_ex [of xs ?P] xs by (auto simp: lru_def)
  then have "i = b"
    using bc_invD(3) [OF inv, of i b] b find_SomeI [OF i] xs by (auto simp: lru_def)
  with i have w: "walk (bnext s) ?P (bnext s bhead) = Some (Some b)" using lruD(2) [OF xs] by simp
  have ok: "b_refcnt (buf_at s b) = 0" "\<not> slk_locked (slocks s (BufSl b))"
    using bc_invD(2) [OF inv b(1)] nh b by (auto simp: buf_ok_def bheld_def Let_def)
  show ?thesis
    using w ok acquire_buf [OF bc_invD(5) [OF inv] ok(2)] bc_invD(6) [OF inv]
    by (simp add: bget_def set_buf_def upd_def n32_def got_buf_def)
qed

definition victim :: "'z kbio_scheme \<Rightarrow> nat \<Rightarrow> bool" where
  "victim s b \<longleftrightarrow> walk (bprev s) (\<lambda>i. b_refcnt (buf_at s i) = 0 \<and> \<not> b_dirty (buf_at s i)) (bprev s bhead)
     = Some (Some b)"

lemma bget_miss:
  assumes inv: "bc_inv s" and c: "\<And>i. \<not> cached s n i"
    and av: "\<exists>i < NBUF. b_refcnt (buf_at s i) = 0 \<and> \<not> b_dirty (buf_at s i)"
  shows "\<exists>b < NBUF. b_refcnt (buf_at s b) = 0 \<and> \<not> b_dirty (buf_at s b) \<and> victim s b \<and>
    bget 1 n s = Ok b (got_buf b ((buf_at s b)\<lparr>b_dev := 1, b_blockno := n, b_valid := False,
                                    b_dirty := False, b_refcnt := 1\<rparr>) s)"
proof -
  obtain xs where xs: "lru s xs" using inv by (auto simp: bc_inv_def)
  let ?P = "\<lambda>i. b_dev (buf_at s i) = 1 \<and> b_blockno (buf_at s i) = n"
  let ?Q = "\<lambda>i. b_refcnt (buf_at s i) = 0 \<and> \<not> b_dirty (buf_at s i)"
  have "find ?P xs = None" using c xs by (auto simp: find_None_iff lru_def cached_def)
  then have w: "walk (bnext s) ?P (bnext s bhead) = Some None" using lruD(2) [OF xs] by simp
  obtain b where f: "find ?Q (rev xs) = Some b" using find_ex [of "rev xs" ?Q] av xs by (auto simp: lru_def)
  then have b: "b < NBUF" "?Q b" using find_SomeI [OF f] xs by (auto simp: lru_def)
  have w2: "walk (bprev s) ?Q (bprev s bhead) = Some (Some b)" using lruD(3) [OF xs] f by simp
  have ok: "\<not> slk_locked (slocks s (BufSl b))"
    using bc_invD(2) [OF inv b(1)] b by (auto simp: buf_ok_def Let_def)
  show ?thesis
    using b w w2 ok acquire_buf [OF bc_invD(5) [OF inv] ok] bc_invD(6) [OF inv]
    by (intro exI [of _ b]) (simp add: bget_def set_buf_def upd_def got_buf_def victim_def)
qed

lemma holdingsleep_got:
  "idle s \<Longrightarrow> holdingsleep (BufSl b) (got_buf b v s) = Ok True (got_buf b v s)"
  by (subst holdingsleep_run) (simp_all add: idle_def got_buf_def)

lemma iderw_read:
  assumes "idle s" "b < length (bufs s)" "\<not> b_valid v" "\<not> b_dirty v" "b_dev v = 1" "b_blockno v < disksize s"
  shows "iderw b (got_buf b v s) =
    Ok () (got_buf b (v\<lparr>b_data := disk s (b_blockno v), b_valid := True\<rparr>) s)"
  using assms holdingsleep_got [OF assms(1), of b v]
  by (simp add: iderw_def bindk_def set_buf_def got_buf_def upd_def)

lemma bread_run:
  assumes inv: "bc_inv s" and n: "n < disksize s" and nh: "\<And>i. cached s n i \<Longrightarrow> \<not> bheld s i"
    and av: "(\<exists>i. cached s n i) \<or> (\<exists>i < NBUF. b_refcnt (buf_at s i) = 0 \<and> \<not> b_dirty (buf_at s i))"
  shows "\<exists>b v. bread 1 n s = Ok b (got_buf b v s) \<and> got_ok s n b v \<and> (cached s n b \<or> victim s b)"
proof (cases "\<exists>i. cached s n i")
  case True
  then obtain b where c: "cached s n b" by blast
  have b: "b < NBUF" using c by (simp add: cached_def)
  have ok: "b_valid (buf_at s b)" "b_refcnt (buf_at s b) = 0"
    using bc_invD(2) [OF inv b] c nh [OF c] by (auto simp: buf_ok_def cached_def bheld_def Let_def)
  let ?v = "(buf_at s b)\<lparr>b_refcnt := 1\<rparr>"
  have "bread 1 n s = Ok b (got_buf b ?v s)"
    using bget_hit [OF inv c nh [OF c]] ok bc_invD(1) [OF inv] b
    by (simp add: bread_def) (simp add: got_buf_def)
  moreover have "got_ok s n b ?v"
    using ok c bview_cached [OF inv c] b by (cases "buf_at s b") (simp add: got_ok_def cached_def)
  ultimately show ?thesis using c by blast
next
  case False
  then obtain b where b: "b < NBUF" "b_refcnt (buf_at s b) = 0" "\<not> b_dirty (buf_at s b)"
    "bget 1 n s = Ok b (got_buf b ((buf_at s b)\<lparr>b_dev := 1, b_blockno := n, b_valid := False,
                                     b_dirty := False, b_refcnt := 1\<rparr>) s)" "victim s b"
    using bget_miss [OF inv] av by blast
  let ?v = "(buf_at s b)\<lparr>b_dev := 1, b_blockno := n, b_valid := False, b_dirty := False, b_refcnt := 1\<rparr>"
  let ?w = "?v\<lparr>b_data := disk s n, b_valid := True\<rparr>"
  have len: "b < length (bufs s)" using b(1) bc_invD(1) [OF inv] by simp
  have "iderw b (got_buf b ?v s) = Ok () (got_buf b ?w s)"
    using iderw_read [OF bc_invD(5) [OF inv] len, of ?v] n by simp
  then have "bread 1 n s = Ok b (got_buf b ?w s)"
    using b(4) len by (simp add: bread_def) (simp add: got_buf_def)
  moreover have "got_ok s n b ?w"
    using b False bview_disk [OF inv, of n] by (cases "buf_at s b") (auto simp: got_ok_def)
  ultimately show ?thesis using b(5) by blast
qed

subsection \<open>Effects on the invariant and on the block contents\<close>

lemma lru_irrelevant [simp]:
  "lru (s\<lparr>slocks := k\<rparr>) = lru s" "lru (s\<lparr>bufs := b\<rparr>) = lru s" "lru (s\<lparr>disk := d\<rparr>) = lru s"
  "lru (s\<lparr>dtrace := t\<rparr>) = lru s"
  by (simp_all add: lru_def fun_eq_iff)

text \<open>One buffer and its lock replaced; every operation on the cache is an instance.\<close>

definition swap_buf :: "nat \<Rightarrow> buf \<Rightarrow> sleeplock \<Rightarrow> 'z kbio_scheme \<Rightarrow> 'z kbio_scheme" where
  "swap_buf b v k s = s\<lparr>slocks := (slocks s)(BufSl b := k), bufs := (bufs s)[b := v]\<rparr>"

lemma swap_simps [simp]:
  "disk (swap_buf b v k s) = disk s" "procs (swap_buf b v k s) = procs s" "cur (swap_buf b v k s) = cur s"
  "held (swap_buf b v k s) = held s" "lru (swap_buf b v k s) = lru s" "dtrace (swap_buf b v k s) = dtrace s"
  "length (bufs (swap_buf b v k s)) = length (bufs s)" "disksize (swap_buf b v k s) = disksize s"
  "slocks (swap_buf b v k s) = (slocks s)(BufSl b := k)"
  by (simp_all add: swap_buf_def)

lemma swap_at:
  "bc_inv s \<Longrightarrow> i < NBUF \<Longrightarrow> buf_at (swap_buf b v k s) i = (if i = b then v else buf_at s i)"
  by (simp add: swap_buf_def bc_invD(1))

lemma swap_buf_ok:
  assumes "bc_inv s" "i < NBUF" "i \<noteq> b"
  shows "buf_ok (swap_buf b v k s) i"
  using bc_invD(2) [OF assms(1,2)] swap_at [OF assms(1,2), of b v k] assms(3)
  by (simp add: buf_ok_def Let_def)

lemma swap_inv:
  assumes inv: "bc_inv s" and b: "b < NBUF" and ok: "buf_ok (swap_buf b v k s) b"
    and un: "\<And>i. i < NBUF \<Longrightarrow> i \<noteq> b \<Longrightarrow> b_dev (buf_at s i) = 1 \<Longrightarrow> b_dev v = 1 \<Longrightarrow>
               b_blockno (buf_at s i) \<noteq> b_blockno v"
  shows "bc_inv (swap_buf b v k s)"
  unfolding bc_inv_def
proof (intro conjI allI impI)
  show "\<exists>xs. lru (swap_buf b v k s) xs" using inv by (simp add: bc_inv_def)
  show "length (bufs (swap_buf b v k s)) = NBUF" using bc_invD(1) [OF inv] by simp
  show "buf_ok (swap_buf b v k s) i" if "i < NBUF" for i
    using ok swap_buf_ok [OF inv that] by (cases "i = b") auto
  fix i j assume a: "i < NBUF" "j < NBUF" "b_dev (buf_at (swap_buf b v k s) i) = 1"
    "b_dev (buf_at (swap_buf b v k s) j) = 1"
    "b_blockno (buf_at (swap_buf b v k s) i) = b_blockno (buf_at (swap_buf b v k s) j)"
  then show "i = j"
    using bc_invD(3) [OF inv, of i j] un [of i] un [of j] by (simp add: swap_at [OF inv] split: if_splits)
next
  show "\<forall>p \<in> set (procs (swap_buf b v k s)). \<forall>i. state p = SLEEPING \<longrightarrow> chan p \<noteq> Some (ChSleep (BufSl i))"
    using inv by (simp add: bc_inv_def)
  show "length (disk (swap_buf b v k s) n) = BSIZE" for n using bc_invD(4) [OF inv] by simp
  show "idle (swap_buf b v k s)" using bc_invD(5) [OF inv] by (simp add: idle_def)
qed

lemma swap_view:
  assumes inv: "bc_inv s" and b: "b < NBUF" and inv': "bc_inv (swap_buf b v k s)"
  shows "bview (swap_buf b v k s) m = (if b_dev v = 1 \<and> b_blockno v = m then b_data v
    else if cached s m b then disk s m else bview s m)"
proof (cases "b_dev v = 1 \<and> b_blockno v = m")
  case True
  then have "cached (swap_buf b v k s) m b" using b by (simp add: cached_def swap_at [OF inv])
  then show ?thesis using bview_cached [OF inv'] True b by (simp add: swap_at [OF inv])
next
  case v: False
  have c: "cached (swap_buf b v k s) m i \<longleftrightarrow> i \<noteq> b \<and> cached s m i" for i
    using v by (cases "i = b") (auto simp: cached_def swap_at [OF inv])
  have "bview (swap_buf b v k s) m = (if cached s m b then disk s m else bview s m)"
  proof (cases "cached s m b")
    case True
    then have "\<not> cached (swap_buf b v k s) m i" for i
      using c bc_invD(3) [OF inv, of i b] by (auto simp: cached_def)
    then show ?thesis using bview_disk [OF inv', of m] True by simp
  next
    case F: False
    show ?thesis
    proof (cases "\<exists>i. cached s m i")
      case True
      then obtain i where i: "cached s m i" by blast
      then have "i \<noteq> b" "i < NBUF" using F by (auto simp: cached_def)
      then show ?thesis
        using bview_cached [OF inv i] bview_cached [OF inv', of m i] c [of i] i F swap_at [OF inv, of i b v k]
        by simp
    next
      case False
      then have "bview s m = disk s m" "bview (swap_buf b v k s) m = disk s m"
        using bview_disk [OF inv, of m] bview_disk [OF inv', of m] c by auto
      then show ?thesis using F by simp
    qed
  qed
  then show ?thesis unfolding if_not_P [OF v] .
qed

text \<open>\<open>bread\<close>: the cache stays consistent, no block changes, and the caller holds the buffer.\<close>

lemma got_swap: "got_buf b v s = swap_buf b v \<lparr>slk_locked = True, slk_pid = mypid s\<rparr> s"
  by (simp add: got_buf_def swap_buf_def)

lemma bview_length: "bc_inv s \<Longrightarrow> length (bview s n) = BSIZE"
  using bc_invD(1,2,4) [of s] unfolding bview_def
  by (cases "scan (\<lambda>b. b_dev b = 1 \<and> b_blockno b = n) (bufs s)")
    (auto simp: buf_ok_def Let_def dest!: scan_SomeD(1))

lemma got_inv:
  assumes inv: "bc_inv s" and g: "got_ok s n b v"
  shows "bc_inv (got_buf b v s)"
proof -
  have b: "b < NBUF" and v: "b_dev v = 1" "b_blockno v = n" "b_valid v" "b_refcnt v = 1"
    "b_data v = bview s n" "b_dirty v = b_dirty (buf_at s b)"
    using g by (simp_all add: got_ok_def)
  have "buf_ok (got_buf b v s) b"
    using v bview_length [OF inv, of n] swap_at [OF inv b, of b v] by (simp add: got_swap buf_ok_def Let_def)
  moreover have "b_blockno (buf_at s i) \<noteq> n" if "i < NBUF" "i \<noteq> b" "b_dev (buf_at s i) = 1" for i
    using that g bc_invD(3) [OF inv, of i b] by (auto simp: got_ok_def cached_def)
  ultimately show ?thesis using v unfolding got_swap by (intro swap_inv [OF inv b]) auto
qed

lemma got_view:
  assumes inv: "bc_inv s" and g: "got_ok s n b v"
  shows "bview (got_buf b v s) = bview s"
proof
  fix m
  have b: "b < NBUF" and v: "b_dev v = 1" "b_blockno v = n" "b_data v = bview s n"
    using g by (simp_all add: got_ok_def)
  have "bview s m = disk s m" if "m \<noteq> n" "cached s m b"
  proof -
    have "\<not> cached s n b" using that by (auto simp: cached_def)
    then have "\<not> b_dirty (buf_at s b)" "b_refcnt (buf_at s b) = 0" using g by (simp_all add: got_ok_def)
    then have "b_data (buf_at s b) = disk s m"
      using bc_invD(2) [OF inv b] that(2) by (auto simp: buf_ok_def Let_def cached_def)
    then show ?thesis using bview_cached [OF inv that(2)] by simp
  qed
  then show "bview (got_buf b v s) m = bview s m"
    using swap_view [OF inv b, of v] got_inv [OF inv g] v unfolding got_swap by auto
qed

lemma got_held: "bc_inv s \<Longrightarrow> got_ok s n b v \<Longrightarrow> bheld (got_buf b v s) i \<longleftrightarrow> i = b \<or> bheld s i"
  unfolding got_swap by (auto simp: bheld_def swap_at got_ok_def)

lemma got_at: "bc_inv s \<Longrightarrow> got_ok s n b v \<Longrightarrow> buf_at (got_buf b v s) b = v"
  unfolding got_swap by (simp add: swap_at got_ok_def)

text \<open>\<open>brelse\<close>: the buffer moves to the front of the list.\<close>

definition brelsed :: "nat \<Rightarrow> 'z kbio_scheme \<Rightarrow> 'z kbio_scheme" where
  "brelsed b s = relinked b (swap_buf b ((buf_at s b)\<lparr>b_refcnt := 0\<rparr>) \<lparr>slk_locked = False, slk_pid = 0\<rparr> s)"

lemma bheldD:
  assumes "bc_inv s" "bheld s b"
  shows "b < NBUF" "b < length (bufs s)" "b_refcnt (buf_at s b) = 1" "b_dev (buf_at s b) = 1" "b_valid (buf_at s b)"
    "slocks s (BufSl b) = \<lparr>slk_locked = True, slk_pid = mypid s\<rparr>" "length (b_data (buf_at s b)) = BSIZE"
    "cached s (b_blockno (buf_at s b)) b" "bview s (b_blockno (buf_at s b)) = b_data (buf_at s b)"
proof -
  show b: "b < NBUF" "b_refcnt (buf_at s b) = 1" using assms(2) by (simp_all add: bheld_def)
  show "b < length (bufs s)" using b bc_invD(1) [OF assms(1)] by simp
  note ok = bc_invD(2) [OF assms(1) b(1)]
  show "b_dev (buf_at s b) = 1" "b_valid (buf_at s b)" "length (b_data (buf_at s b)) = BSIZE"
    "slocks s (BufSl b) = \<lparr>slk_locked = True, slk_pid = mypid s\<rparr>"
    using ok b(2) by (auto simp: buf_ok_def Let_def)
  then show c: "cached s (b_blockno (buf_at s b)) b" using b by (simp add: cached_def)
  show "bview s (b_blockno (buf_at s b)) = b_data (buf_at s b)" by (rule bview_cached [OF assms(1) c])
qed

lemma holdingsleep_held:
  assumes "bc_inv s" "bheld s b"
  shows "holdingsleep (BufSl b) s = Ok True s"
  using holdingsleep_run [OF bc_invD(5) [OF assms(1)], of "BufSl b"] bheldD(6) [OF assms] by simp

lemma brelse_run:
  assumes inv: "bc_inv s" and h: "bheld s b"
  shows "brelse b s = Ok () (brelsed b s)"
proof -
  let ?s1 = "s\<lparr>slocks := (slocks s)(BufSl b := \<lparr>slk_locked = False, slk_pid = 0\<rparr>)\<rparr>"
  have r: "releasesleep (BufSl b) s = Ok () ?s1"
    using releasesleep_run [OF bc_invD(5) [OF inv], of "BufSl b"] bc_inv_nosleep [OF inv, of b] by simp
  show ?thesis
    using r holdingsleep_held [OF inv h] bheldD(1-3) [OF inv h] bc_invD(6) [OF inv]
    by (simp add: brelse_def bindk_def thenk_def set_buf_def link_front_def set_prev_def set_next_def upd_def n32_def
        brelsed_def relinked_def swap_buf_def Let_def)
qed

lemma relinked_simps [simp]:
  "bufs (relinked b s) = bufs s" "slocks (relinked b s) = slocks s" "disk (relinked b s) = disk s"
  "procs (relinked b s) = procs s" "cur (relinked b s) = cur s" "held (relinked b s) = held s"
  "dtrace (relinked b s) = dtrace s" "disksize (relinked b s) = disksize s"
  by (simp_all add: relinked_def Let_def)

lemma relinked_inv: "bc_inv s \<Longrightarrow> b < NBUF \<Longrightarrow> bc_inv (relinked b s)"
  using lru_relinked [of s _ b] unfolding bc_inv_def by (auto simp: buf_ok_def Let_def idle_def)

lemma relinked_view [simp]: "bview (relinked b s) = bview s" "bheld (relinked b s) = bheld s"
  by (simp_all add: bview_def bheld_def fun_eq_iff split: option.splits)

text \<open>A buffer may be released when it is dirty, and so pinned, or equal to the disk block.\<close>

definition released_ok :: "'z kbio_scheme \<Rightarrow> nat \<Rightarrow> bool" where
  "released_ok s b \<longleftrightarrow> b_dirty (buf_at s b) \<or> b_data (buf_at s b) = disk s (b_blockno (buf_at s b))"

lemma brelsed_inv:
  assumes inv: "bc_inv s" and h: "bheld s b" and r: "released_ok s b"
  shows "bc_inv (brelsed b s)" "bview (brelsed b s) = bview s" "bheld (brelsed b s) i \<longleftrightarrow> i \<noteq> b \<and> bheld s i"
proof -
  note H = bheldD [OF inv h]
  let ?v = "(buf_at s b)\<lparr>b_refcnt := 0\<rparr>" and ?k = "\<lparr>slk_locked = False, slk_pid = 0\<rparr>"
  have "buf_ok (swap_buf b ?v ?k s) b"
    using H r swap_at [OF inv H(1), of b ?v ?k] by (auto simp: buf_ok_def Let_def released_ok_def)
  then have inv1: "bc_inv (swap_buf b ?v ?k s)"
    using bc_invD(3) [OF inv, of _ b] H by (intro swap_inv [OF inv H(1)]) auto
  then show "bc_inv (brelsed b s)" unfolding brelsed_def by (rule relinked_inv) (rule H(1))
  show "bview (brelsed b s) = bview s"
    using swap_view [OF inv H(1) inv1] H by (auto simp: brelsed_def cached_def fun_eq_iff)
  show "bheld (brelsed b s) i \<longleftrightarrow> i \<noteq> b \<and> bheld s i"
    by (cases "i = b") (auto simp: brelsed_def bheld_def swap_at [OF inv])
qed

lemma brelsed_simps [simp]:
  "disk (brelsed b s) = disk s" "procs (brelsed b s) = procs s" "cur (brelsed b s) = cur s"
  "held (brelsed b s) = held s" "dtrace (brelsed b s) = dtrace s" "disksize (brelsed b s) = disksize s"
  by (simp_all add: brelsed_def)

text \<open>Storing into a held buffer.\<close>

definition putted :: "nat \<Rightarrow> block \<Rightarrow> 'z kbio_scheme \<Rightarrow> 'z kbio_scheme" where
  "putted b d s = s\<lparr>bufs := (bufs s)[b := (buf_at s b)\<lparr>b_data := d\<rparr>]\<rparr>"

lemma bdata_put_run [simp]: "bdata_put b f s = Ok () (putted b (f (b_data (buf_at s b))) s)"
  by (simp add: bdata_put_def set_buf_def upd_def putted_def)

lemma bdata_get_run [simp]: "bdata_get b s = Ok (b_data (buf_at s b)) s"
  by (simp add: bdata_get_def)

lemma putted_swap:
  "putted b d s = swap_buf b ((buf_at s b)\<lparr>b_data := d\<rparr>) (slocks s (BufSl b)) s"
  by (simp add: putted_def swap_buf_def)

lemma putted_inv:
  assumes inv: "bc_inv s" and h: "bheld s b" and d: "length d = BSIZE"
  shows "bc_inv (putted b d s)" "bview (putted b d s) = (bview s)(b_blockno (buf_at s b) := d)"
    "bheld (putted b d s) i \<longleftrightarrow> bheld s i"
proof -
  note H = bheldD [OF inv h]
  let ?v = "(buf_at s b)\<lparr>b_data := d\<rparr>" and ?k = "slocks s (BufSl b)"
  have "buf_ok (swap_buf b ?v ?k s) b"
    using H d swap_at [OF inv H(1), of b ?v ?k] bc_invD(2) [OF inv H(1)] by (auto simp: buf_ok_def Let_def)
  then have inv1: "bc_inv (swap_buf b ?v ?k s)"
    using bc_invD(3) [OF inv, of _ b] H by (intro swap_inv [OF inv H(1)]) auto
  then show "bc_inv (putted b d s)" unfolding putted_swap .
  show "bview (putted b d s) = (bview s)(b_blockno (buf_at s b) := d)"
    using swap_view [OF inv H(1) inv1] H by (auto simp: putted_swap cached_def fun_eq_iff)
  show "bheld (putted b d s) i \<longleftrightarrow> bheld s i"
    using H by (cases "i = b") (auto simp: putted_swap bheld_def swap_at [OF inv])
qed

lemma putted_at:
  "bc_inv s \<Longrightarrow> bheld s b \<Longrightarrow> buf_at (putted b d s) i = (if i = b then (buf_at s b)\<lparr>b_data := d\<rparr> else buf_at s i)"
  using bheldD(2) [of s b] by (simp add: putted_def)

lemma putted_simps [simp]:
  "disk (putted b d s) = disk s" "procs (putted b d s) = procs s" "cur (putted b d s) = cur s"
  "held (putted b d s) = held s" "dtrace (putted b d s) = dtrace s" "disksize (putted b d s) = disksize s"
  by (simp_all add: putted_def)

text \<open>\<open>bwrite\<close>: the block reaches the disk.\<close>

definition bwritten :: "nat \<Rightarrow> 'z kbio_scheme \<Rightarrow> 'z kbio_scheme" where
  "bwritten b s = (let f = buf_at s b in s\<lparr>bufs := (bufs s)[b := f\<lparr>b_dirty := False, b_valid := True\<rparr>],
     disk := (disk s)(b_blockno f := b_data f), dtrace := dtrace s @ [(b_blockno f, b_data f)]\<rparr>)"

lemma bwrite_run:
  assumes inv: "bc_inv s" and h: "bheld s b" and n: "b_blockno (buf_at s b) < disksize s"
  shows "bwrite b s = Ok () (bwritten b s)"
proof -
  note H = bheldD [OF inv h]
  let ?s1 = "s\<lparr>bufs := (bufs s)[b := (buf_at s b)\<lparr>b_dirty := True\<rparr>]\<rparr>"
  have "holdingsleep (BufSl b) ?s1 = Ok True ?s1"
    using bc_invD(5) [OF inv] H(6) by (subst holdingsleep_run) (simp_all add: idle_def)
  then show ?thesis
    using holdingsleep_held [OF inv h] H n
    by (simp add: bwrite_def iderw_def bindk_def thenk_def set_buf_def upd_def bwritten_def Let_def)
qed

lemma bwritten_simps [simp]:
  "procs (bwritten b s) = procs s" "cur (bwritten b s) = cur s" "held (bwritten b s) = held s"
  "slocks (bwritten b s) = slocks s" "lru (bwritten b s) = lru s" "disksize (bwritten b s) = disksize s"
  "disk (bwritten b s) = (disk s)(b_blockno (buf_at s b) := b_data (buf_at s b))"
  "dtrace (bwritten b s) = dtrace s @ [(b_blockno (buf_at s b), b_data (buf_at s b))]"
  "length (bufs (bwritten b s)) = length (bufs s)"
  by (simp_all add: bwritten_def Let_def)

lemma bwritten_at:
  "b < length (bufs s) \<Longrightarrow> buf_at (bwritten b s) i
     = (if i = b then (buf_at s b)\<lparr>b_dirty := False, b_valid := True\<rparr> else buf_at s i)"
  by (simp add: bwritten_def Let_def)

lemma bwritten_inv:
  assumes inv: "bc_inv s" and h: "bheld s b"
  shows "bc_inv (bwritten b s)"
proof -
  note H = bheldD [OF inv h]
  note at = bwritten_at [OF H(2)]
  have ok: "buf_ok (bwritten b s) i" if "i < NBUF" for i
  proof (cases "i = b")
    case True
    then show ?thesis using H at [of b] by (simp add: buf_ok_def Let_def)
  next
    case False
    then have "b_dev (buf_at s i) = 1 \<Longrightarrow> b_blockno (buf_at s i) \<noteq> b_blockno (buf_at s b)"
      using bc_invD(3) [OF inv that H(1)] H(4) by blast
    then show ?thesis using bc_invD(2) [OF inv that] at [of i] False by (auto simp: buf_ok_def Let_def)
  qed
  show ?thesis
    unfolding bc_inv_def
  proof (intro conjI allI impI)
    fix i j assume a: "i < NBUF" "j < NBUF" "b_dev (buf_at (bwritten b s) i) = 1"
      "b_dev (buf_at (bwritten b s) j) = 1"
      "b_blockno (buf_at (bwritten b s) i) = b_blockno (buf_at (bwritten b s) j)"
    have "b_dev (buf_at (bwritten b s) k) = b_dev (buf_at s k)"
      "b_blockno (buf_at (bwritten b s) k) = b_blockno (buf_at s k)" for k
      by (simp_all add: at)
    then show "i = j" using bc_invD(3) [OF inv a(1,2)] a(3-5) by simp
  next
    show "length (disk (bwritten b s) n) = BSIZE" for n using bc_invD(4) [OF inv] H(7) by simp
  qed (use inv ok in \<open>auto simp: bc_inv_def idle_def\<close>)
qed

lemma bwritten_view:
  assumes inv: "bc_inv s" and h: "bheld s b"
  shows "bview (bwritten b s) = bview s"
proof
  fix m
  note H = bheldD [OF inv h]
  note at = bwritten_at [OF H(2)]
  have c: "cached (bwritten b s) m i \<longleftrightarrow> cached s m i" for i by (simp add: cached_def at)
  show "bview (bwritten b s) m = bview s m"
  proof (cases "\<exists>i. cached s m i")
    case True
    then obtain i where i: "cached s m i" by blast
    then show ?thesis
      using bview_cached [OF inv i] bview_cached [OF bwritten_inv [OF inv h], of m i] c [of i] by (simp add: at)
  next
    case False
    then have "m \<noteq> b_blockno (buf_at s b)" using H(8) by blast
    then show ?thesis
      using bview_disk [OF inv, of m] bview_disk [OF bwritten_inv [OF inv h], of m] c False by simp
  qed
qed

lemma bwritten_held:
  assumes "bc_inv s" "bheld s b"
  shows "bheld (bwritten b s) i \<longleftrightarrow> bheld s i" "released_ok (bwritten b s) b"
  using bheldD(2,3) [OF assms] bwritten_at [of b s]
  by (simp_all add: bheld_def released_ok_def)

section \<open>Dirty blocks and frames\<close>

definition dirties :: "'z kbio_scheme \<Rightarrow> nat set" where
  "dirties s = {n. \<exists>i. cached s n i \<and> b_dirty (buf_at s i)}"

text \<open>Everything but the cache, its locks and the disk is as before.\<close>

definition bframe :: "'z kbio_scheme \<Rightarrow> 'z kbio_scheme \<Rightarrow> bool" where
  "bframe s s' \<longleftrightarrow> (\<exists>k b x v d t. s' = s\<lparr>slocks := k, bufs := b, bnext := x, bprev := v, disk := d, dtrace := t\<rparr>
     \<and> (\<forall>i. k (InodeSl i) = slocks s (InodeSl i)))"

lemma bframeI:
  "s' = s\<lparr>slocks := k, bufs := b, bnext := x, bprev := v, disk := d, dtrace := t\<rparr> \<Longrightarrow>
   (\<And>i. k (InodeSl i) = slocks s (InodeSl i)) \<Longrightarrow> bframe s s'"
  unfolding bframe_def by blast

lemma bframe_refl [simp]: "bframe s s"
  by (rule bframeI [where k = "slocks s" and b = "bufs s" and x = "bnext s" and v = "bprev s"
        and d = "disk s" and t = "dtrace s"]) simp_all

lemma bframe_trans [trans]:
  assumes "bframe s t" "bframe t u"
  shows "bframe s u"
proof -
  obtain k b x v d tr where 1: "t = s\<lparr>slocks := k, bufs := b, bnext := x, bprev := v, disk := d, dtrace := tr\<rparr>"
    "\<forall>i. k (InodeSl i) = slocks s (InodeSl i)" using assms(1) unfolding bframe_def by blast
  obtain k' b' x' v' d' tr' where 2: "u = t\<lparr>slocks := k', bufs := b', bnext := x', bprev := v', disk := d', dtrace := tr'\<rparr>"
    "\<forall>i. k' (InodeSl i) = slocks t (InodeSl i)" using assms(2) unfolding bframe_def by blast
  have "u = s\<lparr>slocks := k', bufs := b', bnext := x', bprev := v', disk := d', dtrace := tr'\<rparr>"
    unfolding 2(1) 1(1) by simp
  then show ?thesis by (rule bframeI) (use 1 2(2) in simp)
qed

lemma bframe_swap: "bframe s (swap_buf b v k s)"
  by (rule bframeI [where k = "(slocks s)(BufSl b := k)" and b = "(bufs s)[b := v]" and x = "bnext s"
        and v = "bprev s" and d = "disk s" and t = "dtrace s"]) (simp_all add: swap_buf_def)

lemma bframe_relinked: "bframe s (relinked b s)"
  by (rule bframeI [where k = "slocks s" and b = "bufs s" and x = "bnext (relinked b s)"
        and v = "bprev (relinked b s)" and d = "disk s" and t = "dtrace s"]) (simp_all add: relinked_def Let_def)

lemma bframe_ops [simp]:
  "bframe s (got_buf b v s)" "bframe s (putted b d s)" "bframe s (brelsed b s)"
  by (simp_all add: got_swap putted_swap brelsed_def bframe_swap bframe_trans [OF bframe_swap bframe_relinked])

lemma bframe_bwritten [simp]: "bframe s (bwritten b s)"
  by (rule bframeI [where k = "slocks s" and b = "bufs (bwritten b s)" and x = "bnext s" and v = "bprev s"
        and d = "disk (bwritten b s)" and t = "dtrace (bwritten b s)"]) (simp_all add: bwritten_def Let_def)

lemma dirties_swap:
  assumes inv: "bc_inv s" and b: "b < NBUF" and v: "b_dirty v = b_dirty (buf_at s b)" "b_dev v = 1"
    and n: "b_dirty (buf_at s b) \<Longrightarrow> b_blockno v = b_blockno (buf_at s b)"
  shows "dirties (swap_buf b v k s) = dirties s"
proof -
  have "b_dirty (buf_at s b) \<Longrightarrow> b_dev (buf_at s b) = 1"
    using bc_invD(2) [OF inv b] by (simp add: buf_ok_def Let_def)
  then have "cached (swap_buf b v k s) m i \<and> b_dirty (buf_at (swap_buf b v k s) i)
      \<longleftrightarrow> cached s m i \<and> b_dirty (buf_at s i)" for m i
    using v n by (cases "i = b") (auto simp: cached_def swap_at [OF inv])
  then show ?thesis by (simp add: dirties_def)
qed

lemma dirties_relinked [simp]: "dirties (relinked b s) = dirties s"
  by (simp add: dirties_def cached_def)

lemma dirties_got: "bc_inv s \<Longrightarrow> got_ok s n b v \<Longrightarrow> dirties (got_buf b v s) = dirties s"
  unfolding got_swap by (intro dirties_swap) (auto simp: got_ok_def cached_def)

lemma dirties_putted: "bc_inv s \<Longrightarrow> bheld s b \<Longrightarrow> dirties (putted b d s) = dirties s"
  unfolding putted_swap using bheldD(1,4) [of s b] by (intro dirties_swap) auto

lemma dirties_brelsed: "bc_inv s \<Longrightarrow> bheld s b \<Longrightarrow> dirties (brelsed b s) = dirties s"
  unfolding brelsed_def dirties_relinked using bheldD(1,4) [of s b] by (intro dirties_swap) auto

lemma dirties_bwritten:
  assumes inv: "bc_inv s" and h: "bheld s b"
  shows "dirties (bwritten b s) = dirties s - {b_blockno (buf_at s b)}"
proof -
  note H = bheldD [OF inv h]
  have "cached (bwritten b s) m i \<and> b_dirty (buf_at (bwritten b s) i)
      \<longleftrightarrow> cached s m i \<and> b_dirty (buf_at s i) \<and> i \<noteq> b" for m i
    by (auto simp: cached_def bwritten_at [OF H(2)])
  moreover have "cached s m i \<and> i \<noteq> b \<longleftrightarrow> cached s m i \<and> m \<noteq> b_blockno (buf_at s b)" for m i
    using H(1,4) bc_invD(3) [OF inv, of i b] by (auto simp: cached_def)
  ultimately show ?thesis unfolding dirties_def by blast
qed

lemma finite_dirties: "finite (dirties s)"
proof (rule finite_subset)
  show "dirties s \<subseteq> (\<lambda>i. b_blockno (buf_at s i)) ` {..<NBUF}" by (auto simp: dirties_def cached_def)
qed simp

text \<open>A buffer is available as long as the held buffers and the dirty blocks do not fill the cache.\<close>

lemma buffer_available:
  assumes inv: "bc_inv s" and few: "card {i. bheld s i} + card (dirties s) < NBUF"
  shows "\<exists>i < NBUF. b_refcnt (buf_at s i) = 0 \<and> \<not> b_dirty (buf_at s i)"
proof (rule ccontr)
  assume "\<not> ?thesis"
  then have all: "\<And>i. i < NBUF \<Longrightarrow> b_refcnt (buf_at s i) \<noteq> 0 \<or> b_dirty (buf_at s i)" by simp
  let ?D = "{i. i < NBUF \<and> b_dirty (buf_at s i)}"
  have dev: "b_dev (buf_at s i) = 1" if "i \<in> ?D" for i
    using that bc_invD(2) [OF inv, of i] by (auto simp: buf_ok_def Let_def)
  have "inj_on (\<lambda>i. b_blockno (buf_at s i)) ?D"
    using bc_invD(3) [OF inv] dev by (auto intro!: inj_onI)
  moreover have "(\<lambda>i. b_blockno (buf_at s i)) ` ?D \<subseteq> dirties s"
    using dev by (auto simp: dirties_def cached_def)
  ultimately have D: "card ?D \<le> card (dirties s)" by (rule card_inj_on_le [OF _ _ finite_dirties])
  have sub: "{..<NBUF} \<subseteq> {i. bheld s i} \<union> ?D"
  proof
    fix i assume "i \<in> {..<NBUF}"
    then have i: "i < NBUF" by simp
    then have "b_refcnt (buf_at s i) = 0 \<or> b_refcnt (buf_at s i) = 1"
      using bc_invD(2) [OF inv i] by (auto simp: buf_ok_def Let_def)
    then show "i \<in> {i. bheld s i} \<union> ?D" using all [OF i] i by (auto simp: bheld_def)
  qed
  have "finite ({i. bheld s i} \<union> ?D)" by (rule finite_subset [of _ "{..<NBUF}"]) (auto simp: bheld_def)
  from card_mono [OF this sub] have "NBUF \<le> card ({i. bheld s i} \<union> ?D)" by simp
  also have "\<dots> \<le> card {i. bheld s i} + card ?D" by (rule card_Un_le)
  finally show False using D few by simp
qed

section \<open>Initialisation\<close>

definition binit_step :: "nat \<Rightarrow> 'z kbio_scheme \<Rightarrow> 'z kbio_scheme" where
  "binit_step b s = s\<lparr>slocks := (slocks s)(BufSl b := \<lparr>slk_locked = False, slk_pid = 0\<rparr>),
     bnext := (bnext s)(b := bnext s bhead, bhead := b),
     bprev := ((bprev s)(b := bhead))(((bnext s)(b := bnext s bhead)) bhead := b)\<rparr>"

lemma binit_run:
  "binit s = Ok () (fold binit_step [0..<NBUF] (s\<lparr>bnext := (bnext s)(bhead := bhead),
     bprev := (bprev s)(bhead := bhead)\<rparr>))"
proof -
  have step: "thenk (set_next b (\<lambda>s. bnext s bhead)) (thenk (set_prev (\<lambda>_. b) (\<lambda>_. bhead))
        (thenk (initsleeplock (BufSl b)) (thenk (set_prev (\<lambda>s. bnext s bhead) (\<lambda>_. b))
               (set_next bhead (\<lambda>_. b))))) = kput (binit_step b)" for b :: nat
    by (rule ext) (simp add: set_next_def set_prev_def initsleeplock_def set_slock_def binit_step_def)
  have "eachk (\<lambda>b. kput (binit_step b)) bs s = Ok () (fold binit_step bs s)" for bs s
    by (induction bs arbitrary: s) simp_all
  then show ?thesis unfolding binit_def step by (simp add: set_prev_def set_next_def)
qed

lemma binit_step_sel:
  "bnext (binit_step b s) = (bnext s)(b := bnext s bhead, bhead := b)"
  "b \<noteq> bhead \<Longrightarrow> bprev (binit_step b s) = ((bprev s)(b := bhead))(bnext s bhead := b)"
  "slocks (binit_step b s) = (slocks s)(BufSl b := \<lparr>slk_locked = False, slk_pid = 0\<rparr>)"
  by (simp_all add: binit_step_def)

lemma binit_fold:
  assumes "seg (bnext s) (bprev s) bhead [] bhead"
  shows "n \<le> NBUF \<Longrightarrow> seg (bnext (fold binit_step [0..<n] s)) (bprev (fold binit_step [0..<n] s)) bhead (rev [0..<n]) bhead
    \<and> (\<forall>i < n. slocks (fold binit_step [0..<n] s) (BufSl i) = \<lparr>slk_locked = False, slk_pid = 0\<rparr>)
    \<and> (\<exists>k x v. fold binit_step [0..<n] s = s\<lparr>slocks := k, bnext := x, bprev := v\<rparr>)"
proof (induction n)
  case 0
  have "\<exists>k x v. s = s\<lparr>slocks := k, bnext := x, bprev := v\<rparr>"
    by (intro exI [of _ "slocks s"] exI [of _ "bnext s"] exI [of _ "bprev s"]) simp
  then show ?case using assms by simp
next
  case (Suc n)
  let ?t = "fold binit_step [0..<n] s"
  have IH: "seg (bnext ?t) (bprev ?t) bhead (rev [0..<n]) bhead"
    "\<forall>i < n. slocks ?t (BufSl i) = \<lparr>slk_locked = False, slk_pid = 0\<rparr>"
    "\<exists>k x v. ?t = s\<lparr>slocks := k, bnext := x, bprev := v\<rparr>"
    using Suc by auto
  have "seg ((bnext ?t)(n := bnext ?t bhead, bhead := n)) (((bprev ?t)(n := bhead))(bnext ?t bhead := n))
      bhead (n # rev [0..<n]) bhead"
    using Suc.prems by (intro seg_insert [OF IH(1)]) auto
  moreover have u: "fold binit_step [0..<Suc n] s = binit_step n ?t" by simp
  moreover have "\<exists>k x v. binit_step n ?t = s\<lparr>slocks := k, bnext := x, bprev := v\<rparr>"
  proof -
    obtain k x v where e: "?t = s\<lparr>slocks := k, bnext := x, bprev := v\<rparr>" using IH(3) by blast
    show ?thesis unfolding e binit_step_def by (simp, intro exI, rule refl)
  qed
  moreover have "\<forall>i < Suc n. slocks (binit_step n ?t) (BufSl i) = \<lparr>slk_locked = False, slk_pid = 0\<rparr>"
    using IH(2) by (simp add: binit_step_sel less_Suc_eq)
  moreover have nb: "n \<noteq> bhead" and "rev [0..<Suc n] = n # rev [0..<n]" using Suc.prems by simp_all
  ultimately show ?case by (simp only: binit_step_sel(1) binit_step_sel(2) [OF nb] simp_thms)
qed

text \<open>The cache as the boot code leaves it: all buffers empty.\<close>

definition boot_buf :: buf where
  "boot_buf = \<lparr>b_valid = False, b_dirty = False, b_dev = 0, b_blockno = 0, b_refcnt = 0,
     b_data = replicate BSIZE 0\<rparr>"

definition boot_kbio :: "(nat \<Rightarrow> block) \<Rightarrow> kbio" where
  "boot_kbio d = kslk.extend (kkmem.extend boot_kkmem \<lparr>slocks = \<lambda>_. \<lparr>slk_locked = False, slk_pid = 0\<rparr>\<rparr>)
     \<lparr>bufs = replicate NBUF boot_buf, bnext = \<lambda>_. 0, bprev = \<lambda>_. 0, disk = d, disksize = FSSIZE, dtrace = []\<rparr>
     \<lparr>procs := [zero_proc\<lparr>state := RUNNING, pid := 1\<rparr>], cur := Some 0\<rparr>"

lemma binit_inv:
  fixes s :: "'z kbio_scheme"
  assumes "bufs s = replicate NBUF boot_buf" "idle s" "\<forall>n. length (disk s n) = BSIZE"
    and "\<forall>p \<in> set (procs s). state p \<noteq> SLEEPING"
  shows "\<exists>s'. binit s = Ok () s' \<and> bc_inv s' \<and> lru s' (rev [0..<NBUF]) \<and> bview s' = disk s
    \<and> bufs s' = bufs s \<and> disksize s' = disksize s
    \<and> (\<exists>k x v. s' = s\<lparr>slocks := k, bnext := x, bprev := v\<rparr>)"
proof -
  let ?s = "s\<lparr>bnext := (bnext s)(bhead := bhead), bprev := (bprev s)(bhead := bhead)\<rparr>"
  let ?t = "fold binit_step [0..<NBUF] ?s"
  have f: "seg (bnext ?t) (bprev ?t) bhead (rev [0..<NBUF]) bhead"
    "\<forall>i < NBUF. slocks ?t (BufSl i) = \<lparr>slk_locked = False, slk_pid = 0\<rparr>"
    "\<exists>k x v. ?t = ?s\<lparr>slocks := k, bnext := x, bprev := v\<rparr>"
    using binit_fold [of ?s NBUF] by simp_all
  have t: "bufs ?t = replicate NBUF boot_buf" "disk ?t = disk s" "procs ?t = procs s" "idle ?t"
    "disksize ?t = disksize s"
    using f(3) assms by (auto simp: idle_def)
  obtain k x v where fr: "?t = ?s\<lparr>slocks := k, bnext := x, bprev := v\<rparr>" using f(3) by blast
  have fr': "?t = s\<lparr>slocks := k, bnext := x, bprev := v\<rparr>" unfolding fr by simp
  have l: "lru ?t (rev [0..<NBUF])" using f(1) by (auto simp: lru_def)
  have at: "buf_at ?t i = boot_buf" if "i < NBUF" for i using t(1) that by simp
  have "buf_ok ?t i" if "i < NBUF" for i
    using at [OF that] f(2) that by (simp add: buf_ok_def Let_def boot_buf_def)
  then have inv: "bc_inv ?t"
    unfolding bc_inv_def using l t assms(3,4) at by (auto simp: boot_buf_def)
  have nc: "\<not> cached ?t n i" for n i using at [of i] by (auto simp: cached_def boot_buf_def)
  have "bview ?t n = disk s n" for n using bview_disk [OF inv nc] t(2) by simp
  then have bv: "bview ?t = disk s" by auto
  have "\<exists>k x v. ?t = s\<lparr>slocks := k, bnext := x, bprev := v\<rparr>" using fr' by blast
  then show ?thesis using binit_run [of s] inv l bv t(1,5) assms(1) by (intro exI [of _ ?t] conjI) simp_all
qed

section \<open>Properties\<close>

lemma got_released:
  assumes inv: "bc_inv s" and g: "got_ok s n b v"
  shows "released_ok (got_buf b v s) b"
proof (cases "b_dirty (buf_at s b)")
  case True
  then show ?thesis using got_at [OF inv g] g by (simp add: released_ok_def got_ok_def)
next
  case False
  have b: "b < NBUF" "b_refcnt (buf_at s b) = 0" using g by (simp_all add: got_ok_def)
  have "bview s n = disk s n"
  proof (cases "cached s n b")
    case True
    then show ?thesis
      using bview_cached [OF inv True] bc_invD(2) [OF inv b(1)] b False
      by (auto simp: buf_ok_def Let_def cached_def)
  next
    case F: False
    then show ?thesis using bview_disk [OF inv, of n] g by (auto simp: got_ok_def)
  qed
  then show ?thesis using got_at [OF inv g] g by (simp add: released_ok_def got_ok_def got_buf_def)
qed

lemma boot_kbio_ok:
  assumes "\<forall>n. length (d n) = BSIZE"
  shows "\<exists>s. binit (boot_kbio d) = Ok () s \<and> bc_inv s \<and> lru s (rev [0..<NBUF]) \<and> bview s = d
    \<and> bufs s = replicate NBUF boot_buf \<and> disksize s = FSSIZE"
  using binit_inv [of "boot_kbio d"] assms
  by (auto simp: boot_kbio_def kslk.defs kkmem.defs boot_kkmem_def ksched.defs lottery_boot_def kbase.defs
      boot_kbase_def idle_def)

text \<open>C30: reading a block through the cache. When the block number is on the disk, nobody holds the
  block and some buffer is available, \<open>bread\<close> returns a locked buffer for that block with its current
  contents; the cache stays consistent (each block cached at most once), no block changes its
  contents, nothing is written, and \<open>brelse\<close> undoes it.\<close>

theorem bread_coherent:
  assumes "bc_inv s" "n < disksize s" "\<forall>i. bheld s i \<longrightarrow> b_blockno (buf_at s i) \<noteq> n"
    and "\<exists>i < NBUF. b_refcnt (buf_at s i) = 0 \<and> \<not> b_dirty (buf_at s i)"
  shows "\<exists>b s' s''. bread 1 n s = Ok b s' \<and> bc_inv s' \<and> bheld s' b \<and> b_blockno (buf_at s' b) = n
    \<and> b_data (buf_at s' b) = bview s n \<and> bview s' = bview s \<and> dtrace s' = dtrace s
    \<and> brelse b s' = Ok () s'' \<and> bc_inv s'' \<and> bview s'' = bview s \<and> bheld s'' = bheld s"
proof -
  obtain b v where r: "bread 1 n s = Ok b (got_buf b v s)" and g: "got_ok s n b v"
    using bread_run [OF assms(1,2)] assms(3,4) by (metis cached_def)
  let ?t = "got_buf b v s"
  note G = got_inv [OF assms(1) g] got_view [OF assms(1) g] got_held [OF assms(1) g] got_at [OF assms(1) g]
  have h: "bheld ?t b" using G(3) by simp
  note B = brelse_run [OF G(1) h] brelsed_inv [OF G(1) h got_released [OF assms(1) g]]
  have "bheld (brelsed b ?t) i = bheld s i" for i
    using B(4) [of i] G(3) [of i] g by (auto simp: got_ok_def bheld_def)
  then have "bheld (brelsed b ?t) = bheld s" by (rule ext)
  then show ?thesis using r G B h g
    by (intro exI [of _ b] exI [of _ ?t] exI [of _ "brelsed b ?t"]) (simp add: got_ok_def got_buf_def)
qed

theorem bread_coherent_witness:
  "\<exists>s b s'. binit (boot_kbio (\<lambda>n. replicate BSIZE (of_nat n))) = Ok () s \<and> bread 1 7 s = Ok b s'
     \<and> b_data (buf_at s' b) = replicate BSIZE 7"
proof -
  let ?d = "\<lambda>n. replicate BSIZE (of_nat n :: u8)"
  obtain s where s: "binit (boot_kbio ?d) = Ok () s" "bc_inv s" "bview s = ?d"
    "bufs s = replicate NBUF boot_buf" "disksize s = FSSIZE"
    using boot_kbio_ok [of ?d] by auto
  have "7 < disksize s" using s(5) by simp
  moreover have "\<forall>i. bheld s i \<longrightarrow> b_blockno (buf_at s i) \<noteq> 7" by (simp add: bheld_def s(4) boot_buf_def)
  moreover have "\<exists>i < NBUF. b_refcnt (buf_at s i) = 0 \<and> \<not> b_dirty (buf_at s i)"
    by (intro exI [of _ 0]) (simp add: s(4) boot_buf_def)
  ultimately obtain b s' where "bread 1 7 s = Ok b s'" "b_data (buf_at s' b) = bview s 7"
    using bread_coherent [OF s(2)] by blast
  then show ?thesis using s(1,3) by (intro exI [of _ s] exI [of _ b] exI [of _ s']) simp
qed

text \<open>C32: replacement is least recently used. The cache list is a permutation of the buffers; for a
  block that is not cached, \<open>bread\<close> recycles the buffer closest to the old end of the list that is
  neither in use nor dirty, and \<open>brelse\<close> moves the released buffer to the front.\<close>

theorem bread_evicts_lru:
  assumes "bc_inv s" "lru s (ys @ b # zs)" "n < disksize s"
    and "\<forall>i < NBUF. b_dev (buf_at s i) = 1 \<longrightarrow> b_blockno (buf_at s i) \<noteq> n"
    and "b_refcnt (buf_at s b) = 0" "\<not> b_dirty (buf_at s b)"
    and "\<forall>c \<in> set zs. b_refcnt (buf_at s c) \<noteq> 0 \<or> b_dirty (buf_at s c)"
  shows "\<exists>s' s''. bread 1 n s = Ok b s' \<and> lru s' (ys @ b # zs) \<and> brelse b s' = Ok () s'' \<and> lru s'' (b # ys @ zs)"
proof -
  let ?Q = "\<lambda>i. b_refcnt (buf_at s i) = 0 \<and> \<not> b_dirty (buf_at s i)"
  have "find ?Q (rev zs) = None" using assms(7) by (auto simp: find_None_iff)
  then have "find ?Q (rev (ys @ b # zs)) = Some b" using assms(5,6) by (simp add: find_skip)
  then have vb: "victim s b" using lruD(3) [OF assms(2), of ?Q] by (simp add: victim_def)
  have "b \<in> {..<NBUF}" using assms(2) by (auto simp: lru_def)
  then have b: "b < NBUF" by simp
  have nc: "\<not> cached s n i" for i using assms(4) by (simp add: cached_def)
  obtain c v where c: "bread 1 n s = Ok c (got_buf c v s)" "got_ok s n c v" "victim s c"
    using bread_run [OF assms(1,3)] nc assms(5,6) b by blast
  with vb have "c = b" by (simp add: victim_def)
  with c have r: "bread 1 n s = Ok b (got_buf b v s)" and g: "got_ok s n b v" by simp_all
  let ?t = "got_buf b v s"
  have l: "lru ?t (ys @ b # zs)" using assms(2) by (simp add: got_swap)
  have "brelse b ?t = Ok () (brelsed b ?t)"
    using brelse_run [OF got_inv [OF assms(1) g]] got_held [OF assms(1) g] by simp
  moreover have "b \<notin> set ys" using assms(2) by (simp add: lru_def)
  then have "lru (brelsed b ?t) (b # ys @ zs)"
    using lru_relinked [OF _ b, of "swap_buf b ((buf_at ?t b)\<lparr>b_refcnt := 0\<rparr>) \<lparr>slk_locked = False, slk_pid = 0\<rparr> ?t" "ys @ b # zs"] l
    by (simp add: brelsed_def moved_def remove1_append)
  ultimately show ?thesis using r l by blast
qed

theorem bread_evicts_lru_witness:
  "\<exists>s s'. binit (boot_kbio (\<lambda>n. replicate BSIZE 0)) = Ok () s \<and> bread 1 5 s = Ok 0 s'"
proof -
  let ?d = "\<lambda>n :: nat. replicate BSIZE (0 :: u8)"
  obtain s where s: "binit (boot_kbio ?d) = Ok () s" "bc_inv s" "lru s (rev [0..<NBUF])"
    "bufs s = replicate NBUF boot_buf" "disksize s = FSSIZE"
    using boot_kbio_ok [of ?d] by auto
  have "[0..<NBUF] = 0 # [1..<NBUF]" by (simp add: upt_conv_Cons)
  then have "rev [0..<NBUF] = rev [1..<NBUF] @ 0 # []" by (simp only: rev.simps)
  then have "lru s (rev [1..<NBUF] @ 0 # [])" using s(3) by (simp only:)
  from bread_evicts_lru [OF s(2) this, of 5] show ?thesis
    using s(1,4,5) by (auto simp: boot_buf_def)
qed

end
