(* ===== verification/Block_Cache.thy ===== *)
theory Block_Cache
  imports Bio
begin

text \<open>
  The interface that log.c and fs.c use the buffer cache through: read a block into a held buffer,
  store into it, write it to the disk, release it. The laws say what each call does to the contents of
  the blocks as the clients see them, to the disk, to the set of dirty blocks and to the buffers held;
  the client lemmas are proved from the laws alone, and bio.c is shown to satisfy the laws.
\<close>

locale block_cache =
  fixes rd :: "nat \<Rightarrow> ('s, nat) k" and put :: "nat \<Rightarrow> (block \<Rightarrow> block) \<Rightarrow> ('s, unit) k"
    and wr :: "nat \<Rightarrow> ('s, unit) k" and rel :: "nat \<Rightarrow> ('s, unit) k"
    and inv :: "'s \<Rightarrow> bool" and hb :: "'s \<Rightarrow> nat set"
    and bufat :: "'s \<Rightarrow> nat \<Rightarrow> 'b" and blk :: "'b \<Rightarrow> nat" and dat :: "'b \<Rightarrow> block"
    and view :: "'s \<Rightarrow> nat \<Rightarrow> block" and dirty :: "'s \<Rightarrow> nat set" and clean :: "'s \<Rightarrow> nat \<Rightarrow> bool"
    and dsk :: "'s \<Rightarrow> nat \<Rightarrow> block" and tr :: "'s \<Rightarrow> (nat \<times> block) list"
    and nblk :: "'s \<Rightarrow> nat" and nbuf :: nat and fr :: "'s \<Rightarrow> 's \<Rightarrow> bool"
  assumes fr_refl: "fr s s" and fr_trans: "fr s t \<Longrightarrow> fr t u \<Longrightarrow> fr s u"
    and fr_nblk: "fr s t \<Longrightarrow> nblk t = nblk s"
    and held_finite: "inv s \<Longrightarrow> finite (hb s)"
    and view_len: "inv s \<Longrightarrow> length (view s n) = BSIZE"
    and held_view: "inv s \<Longrightarrow> b \<in> hb s \<Longrightarrow> view s (blk (bufat s b)) = dat (bufat s b)"
    and held_inj: "inv s \<Longrightarrow> b \<in> hb s \<Longrightarrow> c \<in> hb s \<Longrightarrow> blk (bufat s b) = blk (bufat s c) \<Longrightarrow> b = c"
    and clean_cong: "bufat s b = bufat t b \<Longrightarrow> dsk s (blk (bufat s b)) = dsk t (blk (bufat s b)) \<Longrightarrow>
          clean s b = clean t b"
    and rd_law: "inv s \<Longrightarrow> n < nblk s \<Longrightarrow> \<forall>i \<in> hb s. blk (bufat s i) \<noteq> n \<Longrightarrow>
          n \<in> dirty s \<or> card (hb s) + card (dirty s) < nbuf \<Longrightarrow>
          \<exists>b t. rd n s = Ok b t \<and> inv t \<and> b \<notin> hb s \<and> hb t = insert b (hb s) \<and> blk (bufat t b) = n
            \<and> clean t b \<and> (\<forall>i \<in> hb s. bufat t i = bufat s i) \<and> view t = view s \<and> dirty t = dirty s
            \<and> dsk t = dsk s \<and> tr t = tr s \<and> fr s t"
    and put_law: "inv s \<Longrightarrow> b \<in> hb s \<Longrightarrow> length (f (dat (bufat s b))) = BSIZE \<Longrightarrow>
          \<exists>t. put b f s = Ok () t \<and> inv t \<and> hb t = hb s \<and> blk (bufat t b) = blk (bufat s b)
            \<and> (\<forall>i \<in> hb s. i \<noteq> b \<longrightarrow> bufat t i = bufat s i)
            \<and> view t = (view s)(blk (bufat s b) := f (dat (bufat s b))) \<and> dirty t = dirty s
            \<and> dsk t = dsk s \<and> tr t = tr s \<and> fr s t"
    and wr_law: "inv s \<Longrightarrow> b \<in> hb s \<Longrightarrow> blk (bufat s b) < nblk s \<Longrightarrow>
          \<exists>t. wr b s = Ok () t \<and> inv t \<and> hb t = hb s \<and> blk (bufat t b) = blk (bufat s b) \<and> clean t b
            \<and> (\<forall>i \<in> hb s. i \<noteq> b \<longrightarrow> bufat t i = bufat s i)
            \<and> view t = view s \<and> dirty t = dirty s - {blk (bufat s b)}
            \<and> dsk t = (dsk s)(blk (bufat s b) := dat (bufat s b))
            \<and> tr t = tr s @ [(blk (bufat s b), dat (bufat s b))] \<and> fr s t"
    and rel_law: "inv s \<Longrightarrow> b \<in> hb s \<Longrightarrow> clean s b \<Longrightarrow>
          \<exists>t. rel b s = Ok () t \<and> inv t \<and> hb t = hb s - {b} \<and> (\<forall>i \<in> hb s. i \<noteq> b \<longrightarrow> bufat t i = bufat s i)
            \<and> view t = view s \<and> dirty t = dirty s \<and> dsk t = dsk s \<and> tr t = tr s \<and> fr s t"
begin

text \<open>A block is stored, written through and released.\<close>

lemma store_block:
  assumes s: "inv s" "b \<in> hb s" "blk (bufat s b) < nblk s" "length (f (dat (bufat s b))) = BSIZE"
  shows "\<exists>t. thenk (put b f) (thenk (wr b) g) s = g t \<and> inv t \<and> hb t = hb s \<and> clean t b
    \<and> blk (bufat t b) = blk (bufat s b) \<and> (\<forall>i \<in> hb s. i \<noteq> b \<longrightarrow> bufat t i = bufat s i)
    \<and> view t = (view s)(blk (bufat s b) := f (dat (bufat s b)))
    \<and> dsk t = (dsk s)(blk (bufat s b) := f (dat (bufat s b)))
    \<and> tr t = tr s @ [(blk (bufat s b), f (dat (bufat s b)))]
    \<and> dirty t = dirty s - {blk (bufat s b)} \<and> fr s t"
proof -
  let ?n = "blk (bufat s b)" and ?d = "f (dat (bufat s b))"
  obtain t where t: "put b f s = Ok () t" "inv t" "hb t = hb s" "blk (bufat t b) = ?n"
    "\<forall>i \<in> hb s. i \<noteq> b \<longrightarrow> bufat t i = bufat s i" "view t = (view s)(?n := ?d)" "dirty t = dirty s"
    "dsk t = dsk s" "tr t = tr s" "fr s t" using put_law [where f = f, OF s(1,2,4)]
    by blast
  have d: "dat (bufat t b) = ?d" using held_view [of t b] t s(2) by simp
  have "b \<in> hb t" "blk (bufat t b) < nblk t" using t s fr_nblk by auto
  from wr_law [OF t(2) this] obtain u where u: "wr b t = Ok () u" "inv u" "hb u = hb t"
    "blk (bufat u b) = ?n" "clean u b" "\<forall>i \<in> hb t. i \<noteq> b \<longrightarrow> bufat u i = bufat t i"
    "view u = view t" "dirty u = dirty t - {?n}" "dsk u = (dsk t)(?n := ?d)" "tr u = tr t @ [(?n, ?d)]" "fr t u"
    unfolding t(4) d by blast
  have "thenk (put b f) (thenk (wr b) g) s = g u" using t(1) u(1) by simp
  moreover have "\<forall>i \<in> hb s. i \<noteq> b \<longrightarrow> bufat u i = bufat s i" using t(3,5) u(6) by simp
  ultimately show ?thesis using t(3,6-9) u(2-5,7-10) fr_trans [OF t(10) u(11)]
    by (intro exI [of _ u]) simp
qed

text \<open>Both buffers are held: the source is copied over the destination, which goes to the disk, and
  both are released.\<close>

lemma copy_tail:
  assumes s: "inv s" "hb s = {x, y}" "x \<noteq> y" "blk (bufat s x) = a" "blk (bufat s y) = c"
    "c < nblk s" "clean s x"
  shows "\<exists>t. thenk (put y (\<lambda>_. view s a)) (thenk (wr y) (thenk (rel x) (rel y))) s = Ok () t
    \<and> inv t \<and> hb t = {} \<and> view t = (view s)(c := view s a) \<and> dsk t = (dsk s)(c := view s a)
    \<and> tr t = tr s @ [(c, view s a)] \<and> dirty t = dirty s - {c} \<and> fr s t"
proof -
  have y: "y \<in> hb s" "x \<in> hb s" using s(2) by auto
  have ac: "a \<noteq> c" using held_inj [OF s(1) y] s(3-5) by auto
  obtain t where t: "thenk (put y (\<lambda>_. view s a)) (thenk (wr y) (thenk (rel x) (rel y))) s = thenk (rel x) (rel y) t"
    "inv t" "hb t = {x, y}" "clean t y" "blk (bufat t y) = c" "bufat t x = bufat s x"
    "view t = (view s)(c := view s a)" "dsk t = (dsk s)(c := view s a)" "tr t = tr s @ [(c, view s a)]"
    "dirty t = dirty s - {c}" "fr s t"
    using store_block [OF s(1) y(1), of "\<lambda>_. view s a" "thenk (rel x) (rel y)"] s view_len [OF s(1)] by auto
  have "clean t x" using clean_cong [of t x s] t(6,8) s(4,7) ac by simp
  then obtain u where u: "rel x t = Ok () u" "inv u" "hb u = {y}" "bufat u y = bufat t y"
    "view u = view t" "dirty u = dirty t" "dsk u = dsk t" "tr u = tr t" "fr t u"
    using rel_law [OF t(2), of x] t(3) s(3) by auto
  have "clean u y" using clean_cong [of u y t] u t(4,5) by simp
  then obtain v where v: "rel y u = Ok () v" "inv v" "hb v = {}" "view v = view u" "dirty v = dirty u"
    "dsk v = dsk u" "tr v = tr u" "fr u v"
    using rel_law [OF u(2), of y] u(3) by auto
  have "fr s v" using fr_trans [OF t(11) fr_trans [OF u(9) v(8)]] .
  with t u v show ?thesis by (intro exI [of _ v]) simp
qed

text \<open>Two blocks are read into two buffers.\<close>

lemma read_two:
  assumes s: "inv s" "hb s = {}" "a < nblk s" "c < nblk s" "a \<noteq> c"
    and av: "a \<in> dirty s \<or> card (dirty s) < nbuf" "c \<in> dirty s \<or> Suc (card (dirty s)) < nbuf"
  shows "\<exists>x y t u. rd a s = Ok x t \<and> rd c t = Ok y u \<and> inv u \<and> hb u = {x, y} \<and> x \<noteq> y
    \<and> blk (bufat u x) = a \<and> blk (bufat u y) = c \<and> clean u x \<and> clean u y \<and> view u = view s
    \<and> dirty u = dirty s \<and> dsk u = dsk s \<and> tr u = tr s \<and> fr s t \<and> fr s u \<and> bufat u x = bufat t x"
proof -
  obtain x t where t: "rd a s = Ok x t" "inv t" "hb t = {x}" "blk (bufat t x) = a" "clean t x"
    "view t = view s" "dirty t = dirty s" "dsk t = dsk s" "tr t = tr s" "fr s t"
    using rd_law [OF s(1,3)] s(2) av(1) by auto
  have c: "c < nblk t" "\<forall>i \<in> hb t. blk (bufat t i) \<noteq> c" "c \<in> dirty t \<or> card (hb t) + card (dirty t) < nbuf"
    using t s fr_nblk [OF t(10)] av(2) by auto
  from rd_law [OF t(2) c] obtain y u where u: "rd c t = Ok y u" "inv u" "y \<notin> hb t" "hb u = {x, y}"
    "blk (bufat u y) = c" "clean u y" "bufat u x = bufat t x" "view u = view t" "dirty u = dirty t"
    "dsk u = dsk t" "tr u = tr t" "fr t u" using t(3) by auto
  have "clean u x" using clean_cong [of u x t] t u by simp
  with t u fr_trans [OF t(10) u(12)] show ?thesis
    by (intro exI [of _ x] exI [of _ y] exI [of _ t] exI [of _ u]) simp
qed

text \<open>One block is read and then rewritten on the disk.\<close>

lemma rewrite_block:
  assumes s: "inv s" "hb s = {}" "a < nblk s" "card (dirty s) < nbuf" "length (f (view s a)) = BSIZE"
  shows "\<exists>x t u. rd a s = Ok x t \<and> thenk (put x f) (thenk (wr x) (rel x)) t = Ok () u
    \<and> inv u \<and> hb u = {} \<and> view u = (view s)(a := f (view s a)) \<and> dsk u = (dsk s)(a := f (view s a))
    \<and> tr u = tr s @ [(a, f (view s a))] \<and> dirty u = dirty s - {a} \<and> fr s t \<and> fr s u"
proof -
  obtain x t where t: "rd a s = Ok x t" "inv t" "hb t = {x}" "blk (bufat t x) = a"
    "view t = view s" "dirty t = dirty s" "dsk t = dsk s" "tr t = tr s" "fr s t"
    using rd_law [OF s(1,3)] s(2,4) by auto
  have d: "dat (bufat t x) = view s a" using held_view [OF t(2), of x] t by simp
  obtain u where u: "thenk (put x f) (thenk (wr x) (rel x)) t = rel x u" "inv u" "hb u = {x}" "clean u x"
    "view u = (view s)(a := f (view s a))" "dsk u = (dsk s)(a := f (view s a))"
    "tr u = tr s @ [(a, f (view s a))]" "dirty u = dirty s - {a}" "fr t u"
    using store_block [OF t(2), of x f "rel x"] t s fr_nblk [OF t(9)] d by auto
  obtain v where v: "rel x u = Ok () v" "inv v" "hb v = {}" "view v = view u" "dirty v = dirty u"
    "dsk v = dsk u" "tr v = tr u" "fr u v"
    using rel_law [OF u(2), of x] u(3,4) by auto
  have "fr s v" using fr_trans [OF t(9) fr_trans [OF u(9) v(8)]] .
  with t u v show ?thesis by (intro exI [of _ x] exI [of _ t] exI [of _ v]) simp
qed

text \<open>One block is read and released.\<close>

lemma peek_block:
  assumes s: "inv s" "n < nblk s" "\<forall>i \<in> hb s. blk (bufat s i) \<noteq> n"
    "n \<in> dirty s \<or> card (hb s) + card (dirty s) < nbuf"
  shows "\<exists>x t u. rd n s = Ok x t \<and> dat (bufat t x) = view s n \<and> fr s t \<and> rel x t = Ok () u \<and> inv u \<and> hb u = hb s
    \<and> (\<forall>i \<in> hb s. bufat u i = bufat s i) \<and> view u = view s
    \<and> dirty u = dirty s \<and> dsk u = dsk s \<and> tr u = tr s \<and> fr s u"
proof -
  obtain x t where t: "rd n s = Ok x t" "inv t" "x \<notin> hb s" "hb t = insert x (hb s)" "blk (bufat t x) = n"
    "clean t x" "\<forall>i \<in> hb s. bufat t i = bufat s i" "view t = view s" "dirty t = dirty s" "dsk t = dsk s"
    "tr t = tr s" "fr s t" using rd_law [OF s] by auto
  have d: "dat (bufat t x) = view s n" using held_view [OF t(2), of x] t by simp
  obtain u where u: "rel x t = Ok () u" "inv u" "hb u = hb t - {x}" "\<forall>i \<in> hb t. i \<noteq> x \<longrightarrow> bufat u i = bufat t i"
    "view u = view t" "dirty u = dirty t" "dsk u = dsk t" "tr u = tr t" "fr t u"
    using rel_law [OF t(2) _ t(6)] t(4) by auto
  have "hb u = hb s" "\<forall>i \<in> hb s. bufat u i = bufat s i" using t u by auto
  with t d u fr_trans [OF t(12) u(9)] show ?thesis by (intro exI [of _ x] exI [of _ t] exI [of _ u]) simp
qed

end

section \<open>bio.c provides the interface\<close>

abbreviation hbufs :: "'z kbio_scheme \<Rightarrow> nat set" where
  "hbufs s \<equiv> {i. bheld s i}"

lemma bframe_disksize: "bframe s t \<Longrightarrow> disksize t = disksize s"
  by (auto simp: bframe_def)

lemma bheld_inj:
  "bc_inv s \<Longrightarrow> bheld s b \<Longrightarrow> bheld s c \<Longrightarrow> b_blockno (buf_at s b) = b_blockno (buf_at s c) \<Longrightarrow> b = c"
  using bc_invD(3) [of s b c] bheldD(1,4) by blast

lemma bread_law:
  assumes inv: "bc_inv s" and n: "n < disksize s" and nh: "\<forall>i \<in> hbufs s. b_blockno (buf_at s i) \<noteq> n"
    and av: "n \<in> dirties s \<or> card (hbufs s) + card (dirties s) < NBUF"
  shows "\<exists>b t. bread 1 n s = Ok b t \<and> bc_inv t \<and> b \<notin> hbufs s \<and> hbufs t = insert b (hbufs s)
    \<and> b_blockno (buf_at t b) = n \<and> released_ok t b \<and> (\<forall>i \<in> hbufs s. buf_at t i = buf_at s i)
    \<and> bview t = bview s \<and> dirties t = dirties s \<and> disk t = disk s \<and> dtrace t = dtrace s \<and> bframe s t"
proof -
  have "(\<exists>i. cached s n i) \<or> (\<exists>i < NBUF. b_refcnt (buf_at s i) = 0 \<and> \<not> b_dirty (buf_at s i))"
    using av buffer_available [OF inv] by (auto simp: dirties_def)
  moreover have "\<not> bheld s i" if "cached s n i" for i using nh that by (auto simp: cached_def)
  ultimately obtain b v where b: "bread 1 n s = Ok b (got_buf b v s)" "got_ok s n b v"
    using bread_run [OF inv n] by blast
  have "\<not> bheld s b" "b_blockno v = n" using b(2) by (auto simp: got_ok_def bheld_def)
  then show ?thesis
    using b(1) got_inv [OF inv b(2)] got_held [OF inv b(2)] got_at [OF inv b(2)] got_view [OF inv b(2)]
      dirties_got [OF inv b(2)] got_released [OF inv b(2)]
    by (intro exI [of _ b] exI [of _ "got_buf b v s"]) (auto simp: got_swap bframe_swap swap_at [OF inv] bheld_def)
qed

lemma bwrite_law:
  assumes inv: "bc_inv s" and b: "bheld s b" and n: "b_blockno (buf_at s b) < disksize s"
  shows "\<exists>t. bwrite b s = Ok () t \<and> bc_inv t \<and> hbufs t = hbufs s \<and> b_blockno (buf_at t b) = b_blockno (buf_at s b)
    \<and> released_ok t b \<and> (\<forall>i \<in> hbufs s. i \<noteq> b \<longrightarrow> buf_at t i = buf_at s i)
    \<and> bview t = bview s \<and> dirties t = dirties s - {b_blockno (buf_at s b)}
    \<and> disk t = (disk s)(b_blockno (buf_at s b) := b_data (buf_at s b))
    \<and> dtrace t = dtrace s @ [(b_blockno (buf_at s b), b_data (buf_at s b))] \<and> bframe s t"
  using bwrite_run [OF inv b n] bwritten_inv [OF inv b] bwritten_held [OF inv b] bwritten_view [OF inv b]
    dirties_bwritten [OF inv b] bwritten_at [of b s] bheldD(2) [OF inv b]
  by (intro exI [of _ "bwritten b s"]) simp

lemma bput_law:
  assumes inv: "bc_inv s" and b: "bheld s b" and l: "length (f (b_data (buf_at s b))) = BSIZE"
  shows "\<exists>t. bdata_put b f s = Ok () t \<and> bc_inv t \<and> hbufs t = hbufs s \<and> b_blockno (buf_at t b) = b_blockno (buf_at s b)
    \<and> (\<forall>i \<in> hbufs s. i \<noteq> b \<longrightarrow> buf_at t i = buf_at s i)
    \<and> bview t = (bview s)(b_blockno (buf_at s b) := f (b_data (buf_at s b))) \<and> dirties t = dirties s
    \<and> disk t = disk s \<and> dtrace t = dtrace s \<and> bframe s t"
  using putted_inv [OF inv b l] putted_at [OF inv b] dirties_putted [OF inv b]
  by (intro exI [of _ "putted b (f (b_data (buf_at s b))) s"]) simp

lemma brelse_law:
  assumes inv: "bc_inv s" and b: "bheld s b" and r: "released_ok s b"
  shows "\<exists>t. brelse b s = Ok () t \<and> bc_inv t \<and> hbufs t = hbufs s - {b}
    \<and> (\<forall>i \<in> hbufs s. i \<noteq> b \<longrightarrow> buf_at t i = buf_at s i)
    \<and> bview t = bview s \<and> dirties t = dirties s \<and> disk t = disk s \<and> dtrace t = dtrace s \<and> bframe s t"
proof -
  have "\<forall>i \<in> hbufs s. i \<noteq> b \<longrightarrow> buf_at (brelsed b s) i = buf_at s i" by (simp add: brelsed_def swap_buf_def)
  then show ?thesis
    using brelse_run [OF inv b] brelsed_inv [OF inv b r] dirties_brelsed [OF inv b]
    by (intro exI [of _ "brelsed b s"]) auto
qed

interpretation bc: block_cache "bread 1" bdata_put bwrite brelse bc_inv hbufs "\<lambda>s. (!) (bufs s)" b_blockno b_data
  bview dirties released_ok disk dtrace disksize NBUF bframe
proof (unfold_locales, goal_cases)
  case (2 s t u) then show ?case by (rule bframe_trans)
next
  case (3 s t) then show ?case by (rule bframe_disksize)
next
  case (4 s) then show ?case by (simp add: bheld_def)
next
  case (5 s n) then show ?case by (rule bview_length)
next
  case (6 s b) then show ?case by (simp add: bheldD(9))
next
  case (7 s b c) then show ?case by (simp add: bheld_inj)
next
  case (8 s b t) then show ?case by (simp add: released_ok_def)
next
  case (9 s n) then show ?case by (rule bread_law)
next
  case (10 s b f) then show ?case using bput_law [of s b f] by simp
next
  case (11 s b) then show ?case using bwrite_law [of s b] by simp
next
  case (12 s b) then show ?case using brelse_law [of s b] by simp
qed simp

end
