(* ===== verification/Log.thy ===== *)
theory Log
  imports Block_Cache
begin

text \<open>
  The write-ahead log log.c. A system call that changes the file system runs between \<open>begin_op\<close>
  and \<open>end_op\<close>; its block updates stay in dirty buffers and are listed in the in-memory header until
  the last outstanding call commits. The disk is judged by the sequence of blocks written (\<open>dtrace\<close>):
  a crash keeps an arbitrary prefix of it, and recovery at the next boot has to find the transaction
  either completely or not at all.
\<close>

section \<open>State and operations\<close>

text \<open>\<open>struct log\<close> with its \<open>struct logheader\<close>; block numbers are kept as their 32 bits.\<close>

record klog = kbio +
  lstart :: nat
  lsize :: int
  loutstanding :: int
  lcommitting :: bool
  ldev :: nat
  lh_n :: int
  lh_block :: "nat list"

definition readsb :: "nat \<Rightarrow> ('z kbio_scheme, superblock) k" where
  "readsb dev = bindk (bread dev 1) (\<lambda>bp. bindk (bdata_get bp) (\<lambda>d.
     thenk (brelse bp) (kret (get_superblock d))))"

text \<open>One pass of the loop of \<open>install_trans\<close>.\<close>

definition install_block :: "nat \<Rightarrow> ('z klog_scheme, unit) k" where
  "install_block tail = bindk (kget ldev) (\<lambda>dev. bindk (kget lstart) (\<lambda>start.
     bindk (bread dev (n32 (start + tail + 1))) (\<lambda>lbuf.
     bindk (kget (\<lambda>s. lh_block s ! tail)) (\<lambda>bn.
     bindk (bread dev bn) (\<lambda>dbuf.
     bindk (bdata_get lbuf) (\<lambda>d.
     thenk (bdata_put dbuf (\<lambda>_. d))
     (thenk (bwrite dbuf) (thenk (brelse lbuf) (brelse dbuf)))))))))"

definition install_trans :: "('z klog_scheme, unit) k" where
  "install_trans = bindk (kget lh_n) (\<lambda>n. eachk install_block [0..<nat n])"

text \<open>One pass of the loop of \<open>read_head\<close>.\<close>

definition read_block :: "block \<Rightarrow> nat \<Rightarrow> ('z klog_scheme, unit) k" where
  "read_block d i = kput (\<lambda>s. s\<lparr>lh_block := (lh_block s)[i := get32 (4 + 4 * i) d]\<rparr>)"

text \<open>A header on disk with more entries than the array has sends \<open>read_head\<close> out of bounds.\<close>

definition read_head :: "('z klog_scheme, unit) k" where
  "read_head = bindk (kget ldev) (\<lambda>dev. bindk (kget lstart) (\<lambda>start. bindk (bread dev start) (\<lambda>buf.
     bindk (bdata_get buf) (\<lambda>d.
     thenk (kput (\<lambda>s. s\<lparr>lh_n := s32 (int (get32 0 d))\<rparr>))
     (bindk (kget lh_n) (\<lambda>n. if int LOGSIZE < n then kfault ''log header''
      else thenk (eachk (read_block d) [0..<nat n]) (brelse buf)))))))"

definition write_head :: "('z klog_scheme, unit) k" where
  "write_head = bindk (kget ldev) (\<lambda>dev. bindk (kget lstart) (\<lambda>start. bindk (bread dev start) (\<lambda>buf.
     bindk (kget lh_n) (\<lambda>n. bindk (kget lh_block) (\<lambda>bl.
     thenk (bdata_put buf (\<lambda>d. put32s 4 (take (nat n) bl) (put32 0 (nat (n mod 2 ^ 32)) d)))
     (thenk (bwrite buf) (brelse buf)))))))"

definition recover_from_log :: "('z klog_scheme, unit) k" where
  "recover_from_log = thenk read_head (thenk install_trans
     (thenk (kput (\<lambda>s. s\<lparr>lh_n := 0\<rparr>)) write_head))"

definition initlog :: "nat \<Rightarrow> ('z klog_scheme, unit) k" where
  "initlog dev = (if BSIZE \<le> 4 + 4 * LOGSIZE then kpanic ''initlog: too big logheader''
     else bindk (readsb dev) (\<lambda>sb. thenk (kput (\<lambda>s. s\<lparr>lstart := sb_logstart sb\<rparr>))
       (thenk (kput (\<lambda>s. s\<lparr>lsize := s32 (int (sb_nlog sb))\<rparr>))
       (thenk (kput (\<lambda>s. s\<lparr>ldev := dev\<rparr>)) recover_from_log))))"

text \<open>The loop head of \<open>begin_op\<close>, entered with the log lock held.\<close>

definition begin_op_loop :: "('z klog_scheme, unit) k" where
  "begin_op_loop = bindk (kget lcommitting) (\<lambda>c. bindk (kget lh_n) (\<lambda>n. bindk (kget loutstanding) (\<lambda>o'.
     if c then sleep ChLog (Some LogLk)
     else if int LOGSIZE < s32 (n + (o' + 1) * int MAXOPBLOCKS) then sleep ChLog (Some LogLk)
     else thenk (kput (\<lambda>s. s\<lparr>loutstanding := s32 (loutstanding s + 1)\<rparr>)) (unlock LogLk))))"

definition begin_op :: "('z klog_scheme, unit) k" where
  "begin_op = thenk (lock LogLk) begin_op_loop"

definition begin_op_resume :: "('z klog_scheme, unit) k" where
  "begin_op_resume = thenk (sleep_resume LogLk) begin_op_loop"

text \<open>One pass of the loop of \<open>write_log\<close>.\<close>

definition log_block :: "nat \<Rightarrow> ('z klog_scheme, unit) k" where
  "log_block tail = bindk (kget ldev) (\<lambda>dev. bindk (kget lstart) (\<lambda>start.
     bindk (bread dev (n32 (start + tail + 1))) (\<lambda>to.
     bindk (kget (\<lambda>s. lh_block s ! tail)) (\<lambda>bn.
     bindk (bread dev bn) (\<lambda>from.
     bindk (bdata_get from) (\<lambda>d.
     thenk (bdata_put to (\<lambda>_. d))
     (thenk (bwrite to) (thenk (brelse from) (brelse to)))))))))"

definition write_log :: "('z klog_scheme, unit) k" where
  "write_log = bindk (kget lh_n) (\<lambda>n. eachk log_block [0..<nat n])"

definition commit :: "('z klog_scheme, unit) k" where
  "commit = bindk (kget lh_n) (\<lambda>n. whenk (0 < n)
     (thenk write_log (thenk write_head (thenk install_trans
       (thenk (kput (\<lambda>s. s\<lparr>lh_n := 0\<rparr>)) write_head)))))"

definition end_op :: "('z klog_scheme, unit) k" where
  "end_op = thenk (lock LogLk)
     (thenk (kput (\<lambda>s. s\<lparr>loutstanding := s32 (loutstanding s - 1)\<rparr>))
     (bindk (kget lcommitting) (\<lambda>c. if c then kpanic ''log.committing''
      else bindk (kget loutstanding) (\<lambda>o'.
        if o' = 0 then
          thenk (kput (\<lambda>s. s\<lparr>lcommitting := True\<rparr>)) (thenk (unlock LogLk)
          (thenk commit (thenk (lock LogLk) (thenk (kput (\<lambda>s. s\<lparr>lcommitting := False\<rparr>))
          (thenk (wakeup ChLog) (unlock LogLk))))))
        else thenk (wakeup ChLog) (unlock LogLk)))))"

definition log_write :: "nat \<Rightarrow> ('z klog_scheme, unit) k" where
  "log_write b = bindk (kget lh_n) (\<lambda>n. bindk (kget lsize) (\<lambda>sz. bindk (kget loutstanding) (\<lambda>o'.
     if int LOGSIZE \<le> n \<or> s32 (sz - 1) \<le> n then kpanic ''too big a transaction''
     else if o' < 1 then kpanic ''log_write outside of trans''
     else thenk (lock LogLk)
       (bindk (kget (\<lambda>s. b_blockno (buf_at s b))) (\<lambda>bn.
        bindk (kget (\<lambda>s. case scan (\<lambda>x. x = bn) (take (nat n) (lh_block s)) of Some i \<Rightarrow> i | None \<Rightarrow> nat n)) (\<lambda>i.
        thenk (kput (\<lambda>s. s\<lparr>lh_block := (lh_block s)[i := bn]\<rparr>))
        (thenk (whenk (int i = n) (kput (\<lambda>s. s\<lparr>lh_n := n + 1\<rparr>)))
        (thenk (set_buf b (\<lambda>f. f\<lparr>b_dirty := True\<rparr>)) (unlock LogLk)))))))))"

section \<open>Sequences of disk writes\<close>

primrec apply_writes :: "(nat \<times> block) list \<Rightarrow> (nat \<Rightarrow> block) \<Rightarrow> nat \<Rightarrow> block" where
  "apply_writes [] d = d"
| "apply_writes (w # ws) d = apply_writes ws (d(fst w := snd w))"

lemma apply_writes_append: "apply_writes (xs @ ys) d = apply_writes ys (apply_writes xs d)"
  by (induction xs arbitrary: d) auto

lemma apply_writes_other: "b \<notin> fst ` set ws \<Longrightarrow> apply_writes ws d b = d b"
  by (induction ws arbitrary: d) auto

lemma apply_writes_cong: "d b = d' b \<Longrightarrow> apply_writes ws d b = apply_writes ws d' b"
proof (induction ws arbitrary: d d')
  case (Cons w ws)
  show ?case unfolding apply_writes.simps by (rule Cons.IH) (use Cons.prems in simp)
qed simp

lemma apply_writes_map:
  assumes "distinct (map f xs)" "x \<in> set xs"
  shows "apply_writes (map (\<lambda>j. (f j, g j)) xs) d (f x) = g x"
  using assms
proof (induction xs arbitrary: d)
  case (Cons y ys)
  then show ?case by (cases "x = y") (auto simp: apply_writes_other image_image)
qed simp

definition quiet :: "'z kbio_scheme \<Rightarrow> bool" where
  "quiet s \<longleftrightarrow> bc_inv s \<and> hbufs s = {}"

text \<open>From \<open>s\<close> to \<open>t\<close> exactly the blocks of \<open>ws\<close> were written, in that order.\<close>

definition wrote :: "'z kbio_scheme \<Rightarrow> (nat \<times> block) list \<Rightarrow> 'z kbio_scheme \<Rightarrow> bool" where
  "wrote s ws t \<longleftrightarrow> quiet t \<and> bview t = apply_writes ws (bview s) \<and> disk t = apply_writes ws (disk s)
     \<and> dtrace t = dtrace s @ ws \<and> dirties t = dirties s - fst ` set ws \<and> bframe s t"

lemma wrote_refl: "quiet s \<Longrightarrow> wrote s [] s"
  by (simp add: wrote_def)

lemma wrote_trans: "wrote s xs t \<Longrightarrow> wrote t ys u \<Longrightarrow> wrote s (xs @ ys) u"
  using bframe_trans [of s t u] by (auto simp: wrote_def apply_writes_append)

lemma wroteD:
  assumes "wrote s ws t"
  shows "quiet t" "bview t = apply_writes ws (bview s)" "disk t = apply_writes ws (disk s)"
    "dtrace t = dtrace s @ ws" "dirties t = dirties s - fst ` set ws" "bframe s t" "disksize t = disksize s"
  using assms bframe_disksize [of s t] by (auto simp: wrote_def)

lemma bframe_log:
  fixes s :: "'z klog_scheme"
  assumes "bframe s t"
  shows "lstart t = lstart s" "lsize t = lsize s" "loutstanding t = loutstanding s"
    "lcommitting t = lcommitting s" "ldev t = ldev s" "lh_n t = lh_n s" "lh_block t = lh_block s"
  using assms by (auto simp: bframe_def)

lemma eachk_upt: "eachk f [0..<Suc n] = thenk (eachk f [0..<n]) (f n)"
proof -
  have "thenk (f n) (kret ()) = f n"
    by (rule ext) (simp add: thenk_def bindk_def split: res.splits)
  then show ?thesis by (simp add: eachk_append)
qed

section \<open>Copying between the log and the home blocks\<close>

definition log_geom :: "nat \<Rightarrow> 'z klog_scheme \<Rightarrow> bool" where
  "log_geom n s \<longleftrightarrow> ldev s = 1 \<and> n \<le> LOGSIZE \<and> lstart s + n < disksize s \<and> disksize s < 2 ^ 32
     \<and> length (lh_block s) = LOGSIZE
     \<and> (\<forall>j < n. lh_block s ! j < disksize s \<and> (lh_block s ! j < lstart s \<or> lstart s + n < lh_block s ! j))"

lemma log_geom_frame:
  fixes s :: "'z klog_scheme"
  assumes "bframe s t"
  shows "log_geom n t = log_geom n s"
  using bframe_log [OF assms] bframe_disksize [OF assms] by (simp add: log_geom_def)

lemma copy_step:
  assumes s: "quiet s" "a < disksize s" "c < disksize s" "a \<noteq> c"
    and av: "a \<in> dirties s \<or> card (dirties s) < NBUF" "c \<in> dirties s \<or> Suc (card (dirties s)) < NBUF"
  shows "\<exists>x y t u. bread 1 a s = Ok x t \<and> bread 1 c t = Ok y u \<and> b_data (buf_at u x) = bview s a
    \<and> b_data (buf_at u y) = bview s c \<and> bframe s t \<and> bframe s u
    \<and> (\<exists>v. thenk (bdata_put y (\<lambda>_. bview s a)) (thenk (bwrite y) (thenk (brelse x) (brelse y))) u = Ok () v
         \<and> wrote s [(c, bview s a)] v)
    \<and> (\<exists>v. thenk (bdata_put x (\<lambda>_. bview s c)) (thenk (bwrite x) (thenk (brelse y) (brelse x))) u = Ok () v
         \<and> wrote s [(a, bview s c)] v)"
proof -
  have q: "bc_inv s" "hbufs s = {}" using s(1) by (simp_all add: quiet_def)
  obtain x y t u where u: "bread 1 a s = Ok x t" "bread 1 c t = Ok y u" "bc_inv u" "hbufs u = {x, y}" "x \<noteq> y"
    "b_blockno (buf_at u x) = a" "b_blockno (buf_at u y) = c" "released_ok u x" "released_ok u y"
    "bview u = bview s" "dirties u = dirties s" "disk u = disk s" "dtrace u = dtrace s" "bframe s t" "bframe s u"
    using bc.read_two [OF q s(2-4) av] by blast
  have ds: "a < disksize u" "c < disksize u" using s bframe_disksize [OF u(15)] by simp_all
  have d: "b_data (buf_at u x) = bview s a" "b_data (buf_at u y) = bview s c"
    using bc.held_view [OF u(3), of x] bc.held_view [OF u(3), of y] u(4,6,7,10) by simp_all
  obtain v where v: "thenk (bdata_put y (\<lambda>_. bview u a)) (thenk (bwrite y) (thenk (brelse x) (brelse y))) u = Ok () v"
    "bc_inv v" "hbufs v = {}" "bview v = (bview u)(c := bview u a)" "disk v = (disk u)(c := bview u a)"
    "dtrace v = dtrace u @ [(c, bview u a)]" "dirties v = dirties u - {c}" "bframe u v"
    using bc.copy_tail [OF u(3-7) ds(2) u(8)] by blast
  have "hbufs u = {y, x}" "y \<noteq> x" using u(4,5) by auto
  from bc.copy_tail [OF u(3) this u(7,6) ds(1) u(9)]
  obtain w where w: "thenk (bdata_put x (\<lambda>_. bview u c)) (thenk (bwrite x) (thenk (brelse y) (brelse x))) u = Ok () w"
    "bc_inv w" "hbufs w = {}" "bview w = (bview u)(a := bview u c)" "disk w = (disk u)(a := bview u c)"
    "dtrace w = dtrace u @ [(a, bview u c)]" "dirties w = dirties u - {a}" "bframe u w"
    by blast
  have "wrote s [(c, bview s a)] v" "wrote s [(a, bview s c)] w"
    using v w u(10-13) bframe_trans [OF u(15) v(8)] bframe_trans [OF u(15) w(8)]
    by (simp_all add: wrote_def quiet_def)
  then show ?thesis using u(1,2,10,14,15) v(1) w(1) d
    by (intro exI [of _ x] exI [of _ y] exI [of _ t] exI [of _ u]) simp
qed

text \<open>The copy loops run as long as the cache can hold the dirty blocks and one more.\<close>

definition room :: "'z klog_scheme \<Rightarrow> nat set \<Rightarrow> bool" where
  "room s C \<longleftrightarrow> Suc (card (dirties s)) < NBUF \<or> card (dirties s) < NBUF \<and> C \<subseteq> dirties s"

lemma room_step:
  "room s C \<Longrightarrow> c \<in> C \<Longrightarrow> card (dirties s) < NBUF \<and> (c \<in> dirties s \<or> Suc (card (dirties s)) < NBUF)"
  by (auto simp: room_def)

lemma room_wrote:
  assumes "room s C" "wrote s ws t"
  shows "room t (C - fst ` set ws)"
proof -
  have "dirties t \<subseteq> dirties s" using wroteD(5) [OF assms(2)] by auto
  then have "card (dirties t) \<le> card (dirties s)" by (rule card_mono [OF finite_dirties])
  then show ?thesis using assms(1) wroteD(5) [OF assms(2)] unfolding room_def by auto
qed

lemma install_block_run:
  fixes s :: "'z klog_scheme"
  assumes g: "log_geom n s" and j: "j < n" and q: "quiet s" and r: "room s {lh_block s ! j}"
  shows "\<exists>t. install_block j s = Ok () t \<and> wrote s [(lh_block s ! j, bview s (lstart s + j + 1))] t"
proof -
  let ?a = "lstart s + j + 1" and ?c = "lh_block s ! j"
  have ac: "?a < disksize s" "?c < disksize s" "?a \<noteq> ?c" "n32 ?a = ?a" "ldev s = 1"
    using g j by (force simp: log_geom_def n32_def)+
  have av: "?a \<in> dirties s \<or> card (dirties s) < NBUF" "?c \<in> dirties s \<or> Suc (card (dirties s)) < NBUF"
    using room_step [OF r] by simp_all
  obtain x y t u v where c: "bread 1 ?a s = Ok x t" "bread 1 ?c t = Ok y u" "b_data (buf_at u x) = bview s ?a"
    "bframe s t" "thenk (bdata_put y (\<lambda>_. bview s ?a)) (thenk (bwrite y) (thenk (brelse x) (brelse y))) u = Ok () v"
    "wrote s [(?c, bview s ?a)] v"
    using copy_step [OF q ac(1-3) av] by blast
  have "install_block j s = Ok () v"
    using c ac bframe_log [OF c(4)] by (simp add: install_block_def del: bdata_put_run)
  with c(6) show ?thesis by blast
qed

lemma log_block_run:
  fixes s :: "'z klog_scheme"
  assumes g: "log_geom n s" and j: "j < n" and q: "quiet s" and r: "room s {lh_block s ! j}"
  shows "\<exists>t. log_block j s = Ok () t \<and> wrote s [(lstart s + j + 1, bview s (lh_block s ! j))] t"
proof -
  let ?a = "lstart s + j + 1" and ?c = "lh_block s ! j"
  have ac: "?a < disksize s" "?c < disksize s" "?a \<noteq> ?c" "n32 ?a = ?a" "ldev s = 1"
    using g j by (force simp: log_geom_def n32_def)+
  have av: "?a \<in> dirties s \<or> card (dirties s) < NBUF" "?c \<in> dirties s \<or> Suc (card (dirties s)) < NBUF"
    using room_step [OF r] by simp_all
  obtain x y t u v where c: "bread 1 ?a s = Ok x t" "bread 1 ?c t = Ok y u" "b_data (buf_at u y) = bview s ?c"
    "bframe s t" "thenk (bdata_put x (\<lambda>_. bview s ?c)) (thenk (bwrite x) (thenk (brelse y) (brelse x))) u = Ok () v"
    "wrote s [(?a, bview s ?c)] v"
    using copy_step [OF q ac(1-3) av] by blast
  have "log_block j s = Ok () v"
    using c ac bframe_log [OF c(4)] by (simp add: log_block_def del: bdata_put_run)
  with c(6) show ?thesis by blast
qed

definition log_writes :: "nat \<Rightarrow> 'z klog_scheme \<Rightarrow> (nat \<times> block) list" where
  "log_writes n s = map (\<lambda>j. (lstart s + j + 1, bview s (lh_block s ! j))) [0..<n]"

definition home_writes :: "nat \<Rightarrow> 'z klog_scheme \<Rightarrow> (nat \<times> block) list" where
  "home_writes n s = map (\<lambda>j. (lh_block s ! j, bview s (lstart s + j + 1))) [0..<n]"

abbreviation logged :: "nat \<Rightarrow> 'z klog_scheme \<Rightarrow> nat list" where
  "logged n s \<equiv> take n (lh_block s)"

lemma log_writes_blocks [simp]: "fst ` set (log_writes n s) = {lstart s + 1..lstart s + n}"
proof -
  have "fst ` set (log_writes n s) = (\<lambda>j. j + (lstart s + 1)) ` {0..<n}"
    by (auto simp: log_writes_def image_image)
  also have "\<dots> = {lstart s + 1..lstart s + n}"
    by (subst image_add_atLeastLessThan') auto
  finally show ?thesis .
qed

lemma nth_in_take: "i < n \<Longrightarrow> n \<le> length xs \<Longrightarrow> xs ! i \<in> set (take n xs)"
  using nth_mem [of i "take n xs"] by simp

lemma home_writes_blocks: "n \<le> length (lh_block s) \<Longrightarrow> fst ` set (home_writes n s) = set (logged n s)"
  by (auto simp: home_writes_def image_image nth_in_take) (auto simp: in_set_conv_nth)

lemma logged_geom:
  "log_geom n s \<Longrightarrow> b \<in> set (logged n s) \<Longrightarrow> b < disksize s \<and> (b < lstart s \<or> lstart s + n < b)"
  by (auto simp: log_geom_def in_set_conv_nth)

lemma take_upt_distinct:
  "distinct (take n xs) \<Longrightarrow> n \<le> length xs \<Longrightarrow> distinct (map ((!) xs) [0..<n])"
proof -
  assume "distinct (take n xs)" "n \<le> length xs"
  moreover have "map ((!) xs) [0..<n] = take n xs" if "n \<le> length xs"
    using that by (intro nth_equalityI) simp_all
  ultimately show ?thesis by simp
qed

text \<open>\<open>write_log\<close> copies the cached blocks into the log.\<close>

lemma write_log_run:
  fixes s :: "'z klog_scheme"
  assumes g: "log_geom n s" and q: "quiet s" and r: "room s (set (logged n s))"
  shows "m \<le> n \<Longrightarrow> \<exists>t. eachk log_block [0..<m] s = Ok () t \<and> wrote s (log_writes m s) t"
proof (induction m)
  case 0
  then show ?case using wrote_refl [OF q] by (simp add: log_writes_def)
next
  case (Suc m)
  then obtain t where t: "eachk log_block [0..<m] s = Ok () t" "wrote s (log_writes m s) t" by auto
  have f: "bframe s t" using t(2) by (rule wroteD)
  have c: "lh_block s ! m \<in> set (logged n s)" using Suc.prems g by (simp add: nth_in_take log_geom_def)
  have nl: "lh_block s ! m \<notin> {lstart s + 1..lstart s + m}" using logged_geom [OF g c] Suc.prems by auto
  have "room t (set (logged n s) - fst ` set (log_writes m s))" using room_wrote [OF r t(2)] .
  then have "room t {lh_block t ! m}" using c nl bframe_log [OF f] by (auto simp: room_def)
  moreover have "log_geom n t" using g log_geom_frame [OF f] by simp
  ultimately obtain u where u: "log_block m t = Ok () u"
    "wrote t [(lstart t + m + 1, bview t (lh_block t ! m))] u"
    using log_block_run Suc.prems wroteD(1) [OF t(2)] by (metis Suc_le_eq)
  have "bview t (lh_block s ! m) = bview s (lh_block s ! m)"
    using wroteD(2) [OF t(2)] nl by (simp add: apply_writes_other)
  then have "wrote t [(lstart s + m + 1, bview s (lh_block s ! m))] u"
    using u(2) bframe_log [OF f] by simp
  from wrote_trans [OF t(2) this] have "wrote s (log_writes (Suc m) s) u" by (simp add: log_writes_def)
  moreover have "eachk log_block [0..<Suc m] s = Ok () u" unfolding eachk_upt using t(1) u(1) by simp
  ultimately show ?case by blast
qed

text \<open>\<open>install_trans\<close> copies the log to the home blocks.\<close>

lemma install_run:
  fixes s :: "'z klog_scheme"
  assumes g: "log_geom n s" and q: "quiet s" and r: "room s (set (logged n s))" and d: "distinct (logged n s)"
  shows "m \<le> n \<Longrightarrow> \<exists>t. eachk install_block [0..<m] s = Ok () t \<and> wrote s (home_writes m s) t"
proof (induction m)
  case 0
  then show ?case using wrote_refl [OF q] by (simp add: home_writes_def)
next
  case (Suc m)
  then obtain t where t: "eachk install_block [0..<m] s = Ok () t" "wrote s (home_writes m s) t" by auto
  have f: "bframe s t" using t(2) by (rule wroteD)
  have len: "n \<le> length (lh_block s)" using g by (simp add: log_geom_def)
  have c: "lh_block s ! m \<in> set (logged n s)" using Suc.prems len by (simp add: nth_in_take)
  have nc: "lh_block s ! m \<notin> set (logged m s)"
  proof
    assume "lh_block s ! m \<in> set (logged m s)"
    then obtain i where "i < m" "lh_block s ! m = lh_block s ! i" using len by (auto simp: in_set_conv_nth)
    then show False using d Suc.prems len nth_eq_iff_index_eq [OF d, of i m] by simp
  qed
  have fs: "fst ` set (home_writes m s) = set (logged m s)"
    using Suc.prems len by (simp add: home_writes_blocks)
  have "room t (set (logged n s) - set (logged m s))" using room_wrote [OF r t(2)] fs by simp
  then have "room t {lh_block t ! m}" using c nc bframe_log [OF f] by (auto simp: room_def)
  moreover have "log_geom n t" using g log_geom_frame [OF f] by simp
  ultimately obtain u where u: "install_block m t = Ok () u"
    "wrote t [(lh_block t ! m, bview t (lstart t + m + 1))] u"
    using install_block_run Suc.prems wroteD(1) [OF t(2)] by (metis Suc_le_eq)
  have "lstart s + m + 1 \<notin> set (logged m s)"
    using logged_geom [OF g, of "lstart s + m + 1"] Suc.prems set_take_subset_set_take [of m n "lh_block s"] by auto
  then have "bview t (lstart s + m + 1) = bview s (lstart s + m + 1)"
    using wroteD(2) [OF t(2)] fs by (simp add: apply_writes_other)
  then have "wrote t [(lh_block s ! m, bview s (lstart s + m + 1))] u"
    using u(2) bframe_log [OF f] by simp
  from wrote_trans [OF t(2) this] have "wrote s (home_writes (Suc m) s) u" by (simp add: home_writes_def)
  moreover have "eachk install_block [0..<Suc m] s = Ok () u" unfolding eachk_upt using t(1) u(1) by simp
  ultimately show ?case by blast
qed

text \<open>\<open>write_head\<close> puts the header block on the disk.\<close>

definition header :: "int \<Rightarrow> nat list \<Rightarrow> block \<Rightarrow> block" where
  "header n bl d = put32s 4 (take (nat n) bl) (put32 0 (nat (n mod 2 ^ 32)) d)"

lemma length_header [simp]:
  "length d = BSIZE \<Longrightarrow> length bl = LOGSIZE \<Longrightarrow> length (header n bl d) = BSIZE"
  by (simp add: header_def)

lemma header_n [simp]: "length d = BSIZE \<Longrightarrow> length bl = LOGSIZE \<Longrightarrow> get32 0 (header n bl d) = nat (n mod 2 ^ 32)"
  by (simp add: header_def n32_id nat_less_iff)

lemma header_blocks:
  assumes "length d = BSIZE" "length bl = LOGSIZE" "\<forall>b \<in> set (take (nat n) bl). b < 2 ^ 32" "n \<le> int LOGSIZE"
  shows "get32s 4 (nat n) (header n bl d) = take (nat n) bl"
proof -
  have "length (take (nat n) bl) = nat n" using assms by auto
  then show ?thesis using get32s_put32s [of 4 "take (nat n) bl" "put32 0 (nat (n mod 2 ^ 32)) d"] assms
    by (simp add: header_def)
qed

lemma write_head_run:
  fixes s :: "'z klog_scheme"
  assumes g: "log_geom m s" and q: "quiet s" and c: "card (dirties s) < NBUF"
  shows "\<exists>t. write_head s = Ok () t \<and> wrote s [(lstart s, header (lh_n s) (lh_block s) (bview s (lstart s)))] t"
proof -
  have q': "bc_inv s" "hbufs s = {}" using q by (simp_all add: quiet_def)
  have l: "ldev s = 1" "lstart s < disksize s" "length (lh_block s) = LOGSIZE" using g by (simp_all add: log_geom_def)
  have "length (header (lh_n s) (lh_block s) (bview s (lstart s))) = BSIZE"
    using bview_length [OF q'(1)] l(3) by simp
  from bc.rewrite_block [where f = "header (lh_n s) (lh_block s)", OF q' l(2) c this] obtain x t u where u: "bread 1 (lstart s) s = Ok x t"
    "thenk (bdata_put x (header (lh_n s) (lh_block s))) (thenk (bwrite x) (brelse x)) t = Ok () u" "bc_inv u"
    "hbufs u = {}" "bview u = (bview s)(lstart s := header (lh_n s) (lh_block s) (bview s (lstart s)))"
    "disk u = (disk s)(lstart s := header (lh_n s) (lh_block s) (bview s (lstart s)))"
    "dtrace u = dtrace s @ [(lstart s, header (lh_n s) (lh_block s) (bview s (lstart s)))]"
    "dirties u = dirties s - {lstart s}" "bframe s t" "bframe s u" by blast
  have "write_head s = Ok () u"
    using u(1,2) l bframe_log [OF u(9)] by (simp add: write_head_def header_def [abs_def] del: bdata_put_run)
  then show ?thesis using u by (intro exI [of _ u]) (simp add: wrote_def quiet_def)
qed

section \<open>Commit\<close>

text \<open>Between file system calls the in-memory header lists the dirty blocks, and the header on disk
  is empty. The superblock is not part of a transaction.\<close>

definition sb_ok :: "'z klog_scheme \<Rightarrow> bool" where
  "sb_ok s \<longleftrightarrow> (let sb = get_superblock (disk s 1) in sb_logstart sb = lstart s \<and> s32 (int (sb_nlog sb)) = lsize s)"

definition log_ok :: "'z klog_scheme \<Rightarrow> bool" where
  "log_ok s \<longleftrightarrow> quiet s \<and> 0 \<le> lh_n s \<and> lh_n s < lsize s \<and> lsize s \<le> int NBUF \<and> ldev s = 1
     \<and> 1 < lstart s \<and> lstart s + nat (lsize s) \<le> disksize s \<and> disksize s < 2 ^ 32 \<and> length (lh_block s) = LOGSIZE
     \<and> distinct (logged (nat (lh_n s)) s) \<and> dirties s = set (logged (nat (lh_n s)) s)
     \<and> (\<forall>b \<in> dirties s. b \<noteq> 1 \<and> b < disksize s \<and> (b < lstart s \<or> lstart s + nat (lsize s) \<le> b))
     \<and> get32 0 (disk s (lstart s)) = 0 \<and> sb_ok s"

lemma log_okD:
  assumes "log_ok s"
  shows "quiet s" "log_geom (nat (lh_n s)) s" "distinct (logged (nat (lh_n s)) s)"
    "dirties s = set (logged (nat (lh_n s)) s)" "nat (lh_n s) < NBUF" "card (dirties s) < NBUF"
    "1 < lstart s" "sb_ok s" "1 \<notin> dirties s" "get32 0 (disk s (lstart s)) = 0" "0 \<le> lh_n s"
    "lstart s + nat (lsize s) \<le> disksize s" "lh_n s < lsize s" "lsize s \<le> int NBUF"
proof -
  show g: "quiet s" and d: "distinct (logged (nat (lh_n s)) s)"
    "dirties s = set (logged (nat (lh_n s)) s)" and n: "nat (lh_n s) < NBUF" and s: "1 < lstart s" "sb_ok s"
    "1 \<notin> dirties s" "get32 0 (disk s (lstart s)) = 0" "0 \<le> lh_n s"
    "lstart s + nat (lsize s) \<le> disksize s" and z: "lh_n s < lsize s" and "lsize s \<le> int NBUF"
    using assms unfolding log_ok_def by (blast, blast, blast, linarith, blast, blast, blast, blast, blast, blast, blast, blast)
  have l: "length (lh_block s) = LOGSIZE" using assms by (simp add: log_ok_def)
  show "card (dirties s) < NBUF" using distinct_card [OF d(1)] l d(2) n by simp
  have k: "nat (lh_n s) < nat (lsize s)" using z s(5) by simp
  have "lh_block s ! j < disksize s \<and> (lh_block s ! j < lstart s \<or> lstart s + nat (lh_n s) < lh_block s ! j)"
    if "j < nat (lh_n s)" for j
  proof -
    have "lh_block s ! j \<in> dirties s" unfolding d(2) using that n l by (intro nth_in_take) simp_all
    then have "lh_block s ! j < disksize s \<and> (lh_block s ! j < lstart s \<or> lstart s + nat (lsize s) \<le> lh_block s ! j)"
      using assms unfolding log_ok_def by blast
    then show ?thesis using k by linarith
  qed
  then show "log_geom (nat (lh_n s)) s"
    using assms n order_less_le_trans [OF add_strict_left_mono [OF k] s(6)]
    unfolding log_geom_def log_ok_def by simp
qed

definition commit_writes :: "'z klog_scheme \<Rightarrow> (nat \<times> block) list" where
  "commit_writes s = (let n = nat (lh_n s); h = header (lh_n s) (lh_block s) (bview s (lstart s)) in
     log_writes n s @ [(lstart s, h)] @ map (\<lambda>j. (lh_block s ! j, bview s (lh_block s ! j))) [0..<n]
     @ [(lstart s, header 0 (lh_block s) h)])"

lemma bview_clean:
  assumes "quiet s" "n \<notin> dirties s"
  shows "bview s n = disk s n"
proof (cases "\<exists>i. cached s n i")
  case True
  then obtain i where i: "cached s n i" by blast
  have inv: "bc_inv s" and nh: "\<not> bheld s i" using assms(1) by (auto simp: quiet_def)
  have "i < NBUF" "b_dev (buf_at s i) = 1" "b_blockno (buf_at s i) = n" "\<not> b_dirty (buf_at s i)"
    using i assms(2) by (auto simp: cached_def dirties_def)
  moreover from this have "buf_ok s i" using bc_invD(2) [OF inv] by blast
  ultimately have "b_data (buf_at s i) = disk s n" using nh by (auto simp: buf_ok_def Let_def bheld_def)
  then show ?thesis using bview_cached [OF inv i] by simp
next
  case False
  then show ?thesis using bview_disk assms(1) by (auto simp: quiet_def)
qed

text \<open>The cache does not look at the fields of the log.\<close>

lemma cache_log [simp]:
  fixes s :: "'z klog_scheme"
  shows "bc_inv (s\<lparr>lh_n := n\<rparr>) = bc_inv s" "bheld (s\<lparr>lh_n := n\<rparr>) = bheld s"
    "dirties (s\<lparr>lh_n := n\<rparr>) = dirties s" "bview (s\<lparr>lh_n := n\<rparr>) = bview s"
    "released_ok (s\<lparr>lh_n := n\<rparr>) = released_ok s"
    "bc_inv (s\<lparr>lh_block := bl\<rparr>) = bc_inv s" "bheld (s\<lparr>lh_block := bl\<rparr>) = bheld s"
    "dirties (s\<lparr>lh_block := bl\<rparr>) = dirties s" "bview (s\<lparr>lh_block := bl\<rparr>) = bview s"
    "released_ok (s\<lparr>lh_block := bl\<rparr>) = released_ok s"
  by (simp_all add: bc_inv_def lru_def buf_ok_def idle_def dirties_def cached_def bheld_def
      bview_def released_ok_def fun_eq_iff split: option.split)

lemma cache_log_conf [simp]:
  fixes s :: "'z klog_scheme"
  shows "bc_inv (s\<lparr>lstart := a\<rparr>) = bc_inv s" "bheld (s\<lparr>lstart := a\<rparr>) = bheld s"
    "dirties (s\<lparr>lstart := a\<rparr>) = dirties s" "bview (s\<lparr>lstart := a\<rparr>) = bview s"
    "bc_inv (s\<lparr>lsize := z\<rparr>) = bc_inv s" "bheld (s\<lparr>lsize := z\<rparr>) = bheld s"
    "dirties (s\<lparr>lsize := z\<rparr>) = dirties s" "bview (s\<lparr>lsize := z\<rparr>) = bview s"
    "bc_inv (s\<lparr>ldev := v\<rparr>) = bc_inv s" "bheld (s\<lparr>ldev := v\<rparr>) = bheld s"
    "dirties (s\<lparr>ldev := v\<rparr>) = dirties s" "bview (s\<lparr>ldev := v\<rparr>) = bview s"
  by (simp_all add: bc_inv_def lru_def buf_ok_def idle_def dirties_def cached_def bheld_def
      bview_def fun_eq_iff split: option.split)

lemma quiet_log [simp]:
  fixes s :: "'z klog_scheme"
  shows "quiet (s\<lparr>lh_n := n\<rparr>) = quiet s" "quiet (s\<lparr>lh_block := bl\<rparr>) = quiet s"
    "quiet (s\<lparr>lstart := a\<rparr>) = quiet s" "quiet (s\<lparr>lsize := z\<rparr>) = quiet s" "quiet (s\<lparr>ldev := v\<rparr>) = quiet s"
    "log_geom m (s\<lparr>lh_n := n\<rparr>) = log_geom m s"
  by (simp_all add: quiet_def log_geom_def)

text \<open>The same as \<open>wrote\<close> when fields of the log have changed as well.\<close>

definition dwrote :: "'z kbio_scheme \<Rightarrow> (nat \<times> block) list \<Rightarrow> 'z kbio_scheme \<Rightarrow> bool" where
  "dwrote s ws t \<longleftrightarrow> quiet t \<and> bview t = apply_writes ws (bview s) \<and> disk t = apply_writes ws (disk s)
     \<and> dtrace t = dtrace s @ ws \<and> dirties t = dirties s - fst ` set ws \<and> disksize t = disksize s"

lemma wrote_dwrote: "wrote s ws t \<Longrightarrow> dwrote s ws t"
  using bframe_disksize [of s t] by (simp add: wrote_def dwrote_def)

lemma dwrote_trans: "dwrote s xs t \<Longrightarrow> dwrote t ys u \<Longrightarrow> dwrote s (xs @ ys) u"
  by (auto simp: dwrote_def apply_writes_append)

lemma dwroteD:
  assumes "dwrote s ws t"
  shows "quiet t" "bview t = apply_writes ws (bview s)" "disk t = apply_writes ws (disk s)"
    "dtrace t = dtrace s @ ws" "dirties t = dirties s - fst ` set ws" "disksize t = disksize s"
  using assms by (auto simp: dwrote_def)

text \<open>Everything but the cache, the disk and the header is as before.\<close>

definition lframe :: "'z klog_scheme \<Rightarrow> 'z klog_scheme \<Rightarrow> bool" where
  "lframe s t \<longleftrightarrow> (\<exists>n bl. bframe (s\<lparr>lh_n := n, lh_block := bl\<rparr>) t)"

lemma lframeI: "bframe (s\<lparr>lh_n := n, lh_block := bl\<rparr>) t \<Longrightarrow> lframe s t"
  by (auto simp: lframe_def)

lemma bframe_lframe:
  fixes s :: "'z klog_scheme"
  shows "bframe s t \<Longrightarrow> lframe s t"
  by (rule lframeI [where n = "lh_n s" and bl = "lh_block s"]) simp

lemma bframe_header:
  fixes s :: "'z klog_scheme"
  assumes "bframe s t"
  shows "bframe (s\<lparr>lh_n := n, lh_block := bl\<rparr>) (t\<lparr>lh_n := n, lh_block := bl\<rparr>)"
proof -
  obtain k b x v d tr where t: "t = s\<lparr>slocks := k, bufs := b, bnext := x, bprev := v, disk := d, dtrace := tr\<rparr>"
    "\<forall>i. k (InodeSl i) = slocks s (InodeSl i)" using assms by (auto simp: bframe_def)
  show ?thesis
    by (rule bframeI [where k = k and b = b and x = x and v = v and d = d and t = tr])
      (use t in \<open>cases s; simp\<close>)+
qed

lemma bframe_conf:
  fixes s :: "'z klog_scheme"
  assumes "bframe s t"
  shows "bframe (s\<lparr>lstart := a, lsize := z, ldev := e\<rparr>) (t\<lparr>lstart := a, lsize := z, ldev := e\<rparr>)"
proof -
  obtain k b x v d tr where t: "t = s\<lparr>slocks := k, bufs := b, bnext := x, bprev := v, disk := d, dtrace := tr\<rparr>"
    "\<forall>i. k (InodeSl i) = slocks s (InodeSl i)" using assms by (auto simp: bframe_def)
  show ?thesis
    by (rule bframeI [where k = k and b = b and x = x and v = v and d = d and t = tr])
      (use t in \<open>cases s; simp\<close>)+
qed

lemma lframe_trans:
  fixes s :: "'z klog_scheme"
  assumes "lframe s t" "lframe t u"
  shows "lframe s u"
proof -
  obtain n bl m cl where f: "bframe (s\<lparr>lh_n := n, lh_block := bl\<rparr>) t" "bframe (t\<lparr>lh_n := m, lh_block := cl\<rparr>) u"
    using assms by (auto simp: lframe_def)
  have "bframe (s\<lparr>lh_n := m, lh_block := cl\<rparr>) (t\<lparr>lh_n := m, lh_block := cl\<rparr>)"
    using bframe_header [OF f(1), where n = m and bl = cl] by simp
  then show ?thesis using bframe_trans f(2) lframeI by blast
qed

lemma lframe_header [simp]:
  fixes s :: "'z klog_scheme"
  shows "lframe s (s\<lparr>lh_n := n\<rparr>)" "lframe s (s\<lparr>lh_block := bl\<rparr>)"
  using lframeI [where s = s and n = n and bl = "lh_block s"] lframeI [where s = s and n = "lh_n s" and bl = bl]
  by simp_all

lemma lframeD:
  fixes s :: "'z klog_scheme"
  assumes "lframe s t"
  shows "lstart t = lstart s" "lsize t = lsize s" "loutstanding t = loutstanding s"
    "lcommitting t = lcommitting s" "ldev t = ldev s" "held t = held s" "procs t = procs s" "cur t = cur s"
    "disksize t = disksize s" "slocks t (InodeSl i) = slocks s (InodeSl i)"
  using assms by (auto simp: lframe_def bframe_def)

text \<open>The first half of a commit: the blocks are in the log and the header says so.\<close>

lemma log_phase:
  fixes s :: "'z klog_scheme"
  assumes ok: "log_ok s"
  defines "n \<equiv> nat (lh_n s)" and "h \<equiv> header (lh_n s) (lh_block s) (bview s (lstart s))"
  shows "\<exists>t u. write_log s = Ok () t \<and> write_head t = Ok () u \<and> wrote s (log_writes n s @ [(lstart s, h)]) u
    \<and> dirties u = dirties s \<and> (\<forall>j < n. bview u (lstart s + j + 1) = bview s (lh_block s ! j))"
proof -
  note q = log_okD(1) [OF ok] and g = log_okD(2) [OF ok, folded n_def] and dt = log_okD(4) [OF ok, folded n_def]
    and cd = log_okD(6) [OF ok]
  have r: "room s (set (logged n s))" using cd dt by (simp add: room_def)
  obtain t where t: "eachk log_block [0..<n] s = Ok () t" "wrote s (log_writes n s) t"
    using write_log_run [OF g q r, of n] by auto
  note f = bframe_log [OF wroteD(6) [OF t(2)]]
  have d: "dirties t = dirties s" using wroteD(5) [OF t(2)] dt logged_geom [OF g] by force
  have "\<not> lstart s \<in> {lstart s + 1..lstart s + n}" by simp
  then have v: "bview t (lstart s) = bview s (lstart s)"
    using wroteD(2) [OF t(2)] by (simp add: apply_writes_other)
  have "log_geom n t" using g log_geom_frame [OF wroteD(6) [OF t(2)]] by simp
  then obtain u where u: "write_head t = Ok () u" "wrote t [(lstart s, h)] u"
    using write_head_run [of n t] wroteD(1) [OF t(2)] cd d f v by (auto simp: h_def)
  have ls: "lstart s \<notin> set (logged n s)" using logged_geom [OF g] by auto
  have "distinct (map (\<lambda>j. lstart s + j + 1) [0..<n])" by (simp add: distinct_map inj_on_def)
  then have "bview t (lstart s + j + 1) = bview s (lh_block s ! j)" if "j < n" for j
    using that wroteD(2) [OF t(2)]
    by (simp only: log_writes_def) (rule apply_writes_map [of "\<lambda>j. lstart s + j + 1"]; simp)
  then have "\<forall>j < n. bview u (lstart s + j + 1) = bview s (lh_block s ! j)" using wroteD(2) [OF u(2)] by simp
  moreover have "write_log s = Ok () t" using t(1) by (simp add: write_log_def n_def)
  moreover have "dirties u = dirties s" using wroteD(5) [OF u(2)] d ls dt by simp
  ultimately show ?thesis using u(1) wrote_trans [OF t(2) u(2)] by (intro exI [of _ t] exI [of _ u]) simp
qed

text \<open>The second half, which recovery shares: the home blocks are written and the header is cleared.\<close>

lemma install_phase:
  fixes s :: "'z klog_scheme"
  defines "n \<equiv> nat (lh_n s)" and "h \<equiv> header 0 (lh_block s) (bview s (lstart s))"
  assumes g: "log_geom n s" and q: "quiet s" and r: "room s (set (logged n s))" and d: "distinct (logged n s)"
  shows "\<exists>t u. install_trans s = Ok () t \<and> write_head (t\<lparr>lh_n := 0\<rparr>) = Ok () u
    \<and> dwrote s (home_writes n s @ [(lstart s, h)]) u \<and> lh_n u = 0 \<and> lh_block u = lh_block s
    \<and> lframe s u"
proof -
  obtain t where t: "eachk install_block [0..<n] s = Ok () t" "wrote s (home_writes n s) t"
    using install_run [OF g q r d, of n] by auto
  note f = bframe_log [OF wroteD(6) [OF t(2)]]
  let ?t = "t\<lparr>lh_n := 0\<rparr>"
  have "lstart s \<notin> fst ` set (home_writes n s)"
    using logged_geom [OF g] home_writes_blocks [of n s] g by (auto simp: log_geom_def)
  then have v: "bview t (lstart s) = bview s (lstart s)"
    using wroteD(2) [OF t(2)] by (simp add: apply_writes_other)
  have g': "log_geom n ?t" "quiet ?t"
    using g log_geom_frame [OF wroteD(6) [OF t(2)]] wroteD(1) [OF t(2)] by simp_all
  have "card (dirties ?t) < NBUF"
    using room_wrote [OF r t(2)] by (auto simp: room_def)
  then obtain u where u: "write_head ?t = Ok () u" "wrote ?t [(lstart s, h)] u"
    using write_head_run [OF g'] v f by (auto simp: h_def)
  have "dwrote t [(lstart s, h)] u" using wrote_dwrote [OF u(2)] by (simp add: dwrote_def)
  note dw = dwrote_trans [OF wrote_dwrote [OF t(2)] this]
  have "lframe s u" using lframe_trans [OF bframe_lframe [OF wroteD(6) [OF t(2)]]]
      lframe_trans [OF lframe_header(1) bframe_lframe [OF wroteD(6) [OF u(2)]]] by blast
  then show ?thesis using dw t(1) u(1) bframe_log [OF wroteD(6) [OF u(2)]] f
    by (intro exI [of _ t] exI [of _ u]) (simp add: install_trans_def n_def)
qed

lemma commit_run:
  fixes s :: "'z klog_scheme"
  assumes ok: "log_ok s" and n: "0 < lh_n s"
  shows "\<exists>t. commit s = Ok () t \<and> dwrote s (commit_writes s) t \<and> lh_n t = 0
    \<and> lh_block t = lh_block s \<and> lframe s t"
proof -
  let ?n = "nat (lh_n s)" and ?bl = "lh_block s"
  let ?h = "header (lh_n s) ?bl (bview s (lstart s))"
  obtain t u where u: "write_log s = Ok () t" "write_head t = Ok () u"
    "wrote s (log_writes ?n s @ [(lstart s, ?h)]) u" "dirties u = dirties s"
    "\<forall>j < ?n. bview u (lstart s + j + 1) = bview s (?bl ! j)" using log_phase [OF ok] by blast
  note f = bframe_log [OF wroteD(6) [OF u(3)]]
  note g = log_okD(2) [OF ok] and dist = log_okD(3) [OF ok] and dt = log_okD(4) [OF ok] and cd = log_okD(6) [OF ok]
  have g': "log_geom (nat (lh_n u)) u" using g f log_geom_frame [OF wroteD(6) [OF u(3)]] by simp
  have r: "room u (set (logged (nat (lh_n u)) u))" using u(4) dt f cd by (simp add: room_def)
  have "bview u (lstart s) = ?h" using wroteD(2) [OF u(3)] by (simp add: apply_writes_append)
  then obtain v w where w: "install_trans u = Ok () v" "write_head (v\<lparr>lh_n := 0\<rparr>) = Ok () w"
    "dwrote u (home_writes ?n u @ [(lstart s, header 0 ?bl ?h)]) w" "lh_n w = 0" "lh_block w = ?bl"
    "lframe u w"
    using install_phase [OF g' wroteD(1) [OF u(3)] r] dist f by auto
  have "home_writes ?n u = map (\<lambda>j. (?bl ! j, bview s (?bl ! j))) [0..<?n]"
    using u(5) f by (auto simp: home_writes_def)
  then have "dwrote s (commit_writes s) w"
    using dwrote_trans [OF wrote_dwrote [OF u(3)] w(3)] by (simp add: commit_writes_def Let_def)
  moreover have "commit s = Ok () w" using n u(1,2) w(1,2) by (simp add: commit_def)
  moreover have "lframe s w" using lframe_trans [OF bframe_lframe [OF wroteD(6) [OF u(3)]] w(6)] .
  ultimately show ?thesis using w by blast
qed

section \<open>Recovery\<close>

text \<open>The loop of \<open>read_head\<close> copies the array of the header.\<close>

lemma read_blocks:
  fixes s :: "'z klog_scheme"
  assumes "n \<le> length (lh_block s)"
  shows "\<exists>bl. eachk (read_block d) [0..<n] s = Ok () (s\<lparr>lh_block := bl\<rparr>)
    \<and> length bl = length (lh_block s) \<and> take n bl = get32s 4 n d"
  using assms
proof (induction n)
  case 0
  then show ?case by (intro exI [of _ "lh_block s"]) (simp add: get32s_def)
next
  case (Suc n)
  then obtain bl where bl: "eachk (read_block d) [0..<n] s = Ok () (s\<lparr>lh_block := bl\<rparr>)"
    "length bl = length (lh_block s)" "take n bl = get32s 4 n d" by auto
  let ?bl = "bl[n := get32 (4 + 4 * n) d]"
  have "take (Suc n) ?bl = get32s 4 (Suc n) d"
    using bl(2,3) Suc.prems by (simp add: take_Suc_conv_app_nth get32s_def)
  moreover have "eachk (read_block d) [0..<Suc n] s = Ok () (s\<lparr>lh_block := ?bl\<rparr>)"
    unfolding eachk_upt using bl(1) by (simp add: read_block_def)
  ultimately show ?case using bl(2) by (intro exI [of _ ?bl]) (simp only: length_list_update simp_thms)
qed

lemma read_head_run:
  fixes s :: "'z klog_scheme"
  assumes q: "quiet s" and l: "ldev s = 1" "lstart s < disksize s" "length (lh_block s) = LOGSIZE"
    and c: "card (dirties s) < NBUF" and n: "s32 (int (get32 0 (bview s (lstart s)))) = int n" "n \<le> LOGSIZE"
  shows "\<exists>t. read_head s = Ok () t \<and> dwrote s [] t \<and> lh_n t = int n \<and> length (lh_block t) = LOGSIZE
    \<and> logged n t = get32s 4 n (bview s (lstart s)) \<and> lframe s t"
proof -
  have q': "bc_inv s" "hbufs s = {}" using q by (simp_all add: quiet_def)
  obtain x t where t: "bread 1 (lstart s) s = Ok x t" "bc_inv t" "hbufs t = {x}" "b_blockno (buf_at t x) = lstart s"
    "released_ok t x" "bview t = bview s" "dirties t = dirties s" "disk t = disk s" "dtrace t = dtrace s"
    "bframe s t" using bc.rd_law [OF q'(1) l(2)] q'(2) c by auto
  have d: "b_data (buf_at t x) = bview s (lstart s)" using bc.held_view [OF t(2), of x] t by simp
  note f = bframe_log [OF t(10)]
  let ?t = "t\<lparr>lh_n := int n\<rparr>"
  have "n \<le> length (lh_block ?t)" using l f n by simp
  from read_blocks [where d = "bview s (lstart s)", OF this] obtain bl where bl:
    "eachk (read_block (bview s (lstart s))) [0..<n] ?t = Ok () (?t\<lparr>lh_block := bl\<rparr>)" "length bl = LOGSIZE" "take n bl = get32s 4 n (bview s (lstart s))"
    using l f by auto
  let ?u = "?t\<lparr>lh_block := bl\<rparr>"
  have "bc_inv ?u" "x \<in> hbufs ?u" "released_ok ?u x" using t by simp_all
  from bc.rel_law [OF this] obtain v where v: "brelse x ?u = Ok () v" "bc_inv v" "hbufs v = {}"
    "bview v = bview s" "dirties v = dirties s" "disk v = disk s" "dtrace v = dtrace s" "bframe ?u v"
    using t by auto
  have "read_head s = Ok () v"
    using t(1) l d n bl(1) v(1) by (simp add: read_head_def)
  moreover have "lframe s v" using lframe_trans [OF bframe_lframe [OF t(10)] lframe_trans [OF lframe_header(1)
        lframe_trans [OF lframe_header(2) bframe_lframe [OF v(8)]]]] .
  ultimately show ?thesis using v bl f bframe_log [OF v(8)] bframe_disksize [OF t(10)] bframe_disksize [OF v(8)]
    by (intro exI [of _ v]) (simp add: dwrote_def quiet_def)
qed

text \<open>What recovery writes, for the header found on the disk.\<close>

definition header_n :: "(nat \<Rightarrow> block) \<Rightarrow> nat \<Rightarrow> int" where
  "header_n d st = s32 (int (get32 0 (d st)))"

definition header_ok :: "(nat \<Rightarrow> block) \<Rightarrow> nat \<Rightarrow> nat \<Rightarrow> nat \<Rightarrow> bool" where
  "header_ok d st m n \<longleftrightarrow> header_n d st = int n \<and> n \<le> LOGSIZE \<and> st + n < m
     \<and> distinct (get32s 4 n (d st)) \<and> (\<forall>b \<in> set (get32s 4 n (d st)). b < m \<and> (b < st \<or> st + n < b))"

lemma recover_run:
  fixes s :: "'z klog_scheme"
  assumes q: "quiet s" and l: "ldev s = 1" "length (lh_block s) = LOGSIZE" "disksize s < 2 ^ 32"
    and c: "dirties s = {}" and h: "header_ok (disk s) (lstart s) (disksize s) n"
  shows "\<exists>t e. recover_from_log s = Ok () t \<and> dwrote s
      (map (\<lambda>j. (get32s 4 n (disk s (lstart s)) ! j, disk s (lstart s + j + 1))) [0..<n] @ [(lstart s, e)]) t
    \<and> get32 0 e = 0 \<and> lh_n t = 0 \<and> lframe s t \<and> length (lh_block t) = LOGSIZE"
proof -
  let ?bl = "get32s 4 n (disk s (lstart s))"
  have bv: "bview s = disk s" using bview_clean [OF q] c by auto
  have ls: "lstart s < disksize s" "s32 (int (get32 0 (bview s (lstart s)))) = int n" "n \<le> LOGSIZE"
    using h bv by (auto simp: header_ok_def header_n_def)
  obtain t where t: "read_head s = Ok () t" "dwrote s [] t" "lh_n t = int n" "length (lh_block t) = LOGSIZE"
    "logged n t = ?bl" "lframe s t"
    using read_head_run [OF q l(1) ls(1) l(2) _ ls(2,3)] c bv by auto
  note ft = lframeD [OF t(6)]
  have nth: "lh_block t ! j = ?bl ! j" if "j < n" for j using that t(5) nth_take [of j n "lh_block t"] by simp
  have nt: "nat (lh_n t) = n" using t(3) by simp
  have "?bl ! j \<in> set ?bl" if "j < n" for j using that by (intro nth_mem) simp
  then have "\<forall>j < n. lh_block t ! j < disksize s \<and> (lh_block t ! j < lstart s \<or> lstart s + n < lh_block t ! j)"
    using h nth unfolding header_ok_def by metis
  then have "log_geom n t" "quiet t" "distinct (logged n t)"
    using h l ls t ft dwroteD(1,6) [OF t(2)] by (simp_all add: log_geom_def header_ok_def)
  moreover have "room t (set (logged n t))" using dwroteD(5) [OF t(2)] c by (simp add: room_def)
  ultimately obtain u v where v: "install_trans t = Ok () u" "write_head (u\<lparr>lh_n := 0\<rparr>) = Ok () v"
    "dwrote t (home_writes n t @ [(lstart t, header 0 (lh_block t) (bview t (lstart t)))]) v" "lh_n v = 0"
    "lh_block v = lh_block t" "lframe t v"
    using install_phase [of t] unfolding nt by blast
  have "bview t = disk s" using dwroteD(2) [OF t(2)] bv by simp
  moreover from this have "home_writes n t = map (\<lambda>j. (?bl ! j, disk s (lstart s + j + 1))) [0..<n]"
    using nth ft(1) by (simp add: home_writes_def)
  moreover have "length (disk s (lstart s)) = BSIZE" using bview_length q bv by (metis quiet_def)
  moreover have "recover_from_log s = Ok () v" using t(1) v(1,2) by (simp add: recover_from_log_def)
  ultimately show ?thesis using dwrote_trans [OF t(2) v(3)] v t ft lframe_trans [OF t(6) v(6)]
    by (intro exI [of _ v] exI [of _ "header 0 (lh_block t) (disk s (lstart s))"]) simp
qed

lemma initlog_run:
  fixes s :: "'z klog_scheme"
  assumes q: "quiet s" and l: "length (lh_block s) = LOGSIZE" "disksize s < 2 ^ 32" "1 < disksize s"
    and c: "dirties s = {}" and h: "header_ok (disk s) (sb_logstart (get_superblock (disk s 1))) (disksize s) n"
  defines "st \<equiv> sb_logstart (get_superblock (disk s 1))"
  shows "\<exists>t e. initlog 1 s = Ok () t \<and> dwrote s
      (map (\<lambda>j. (get32s 4 n (disk s st) ! j, disk s (st + j + 1))) [0..<n] @ [(st, e)]) t
    \<and> get32 0 e = 0 \<and> lh_n t = 0 \<and> lstart t = st \<and> ldev t = 1
    \<and> lsize t = s32 (int (sb_nlog (get_superblock (disk s 1)))) \<and> length (lh_block t) = LOGSIZE
    \<and> lframe (s\<lparr>lstart := st, lsize := s32 (int (sb_nlog (get_superblock (disk s 1)))), ldev := 1\<rparr>) t"
proof -
  have q': "bc_inv s" "hbufs s = {}" using q by (simp_all add: quiet_def)
  have bv: "bview s = disk s" using bview_clean [OF q] c by auto
  obtain x t u where u: "bread 1 1 s = Ok x t" "b_data (buf_at t x) = disk s 1" "brelse x t = Ok () u"
    "bc_inv u" "hbufs u = {}" "bview u = bview s" "dirties u = {}" "disk u = disk s" "dtrace u = dtrace s" "bframe s u"
    using bc.peek_block [OF q'(1) l(3)] q'(2) c bv by auto
  let ?sb = "get_superblock (disk s 1)"
  let ?u = "u\<lparr>lstart := st, lsize := s32 (int (sb_nlog ?sb)), ldev := 1\<rparr>"
  have rs: "readsb 1 s = Ok ?sb u" using u by (simp add: readsb_def)
  have i: "initlog 1 s = recover_from_log ?u" using rs by (simp add: initlog_def st_def)
  have "quiet ?u" "ldev ?u = 1" "length (lh_block ?u) = LOGSIZE" "disksize ?u < 2 ^ 32" "dirties ?u = {}"
    "header_ok (disk ?u) (lstart ?u) (disksize ?u) n"
    using u l h bframe_log [OF u(10)] bframe_disksize [OF u(10)] by (simp_all add: quiet_def st_def)
  note r = recover_run [OF this]
  obtain v e where v: "recover_from_log ?u = Ok () v" "dwrote ?u
      (map (\<lambda>j. (get32s 4 n (disk s st) ! j, disk s (st + j + 1))) [0..<n] @ [(st, e)]) v" "get32 0 e = 0"
    "lh_n v = 0" "lframe ?u v" "length (lh_block v) = LOGSIZE"
    using r u(8) by (auto simp del: One_nat_def)
  have "bframe (s\<lparr>lstart := st, lsize := s32 (int (sb_nlog ?sb)), ldev := 1\<rparr>) ?u" using bframe_conf [OF u(10)] .
  note fv = lframe_trans [OF bframe_lframe [OF this] v(5)]
  have "dwrote s ws v" if "dwrote ?u ws v" for ws
    using that u c bframe_disksize [OF u(10)] by (simp add: dwrote_def)
  with v i fv lframeD [OF v(5)] show ?thesis by (auto simp del: One_nat_def)
qed

section \<open>Crashes\<close>

text \<open>A machine that comes up with the disk \<open>d\<close>: the cache is initialised and empty.\<close>

definition booted :: "(nat \<Rightarrow> block) \<Rightarrow> 'z klog_scheme \<Rightarrow> bool" where
  "booted d r \<longleftrightarrow> quiet r \<and> dirties r = {} \<and> disk r = d \<and> length (lh_block r) = LOGSIZE"

lemma take_middle:
  assumes "length xs < k" "k \<le> Suc (length xs + length zs)"
  shows "take k (xs @ [y] @ zs @ ys) = xs @ [y] @ take (k - length xs - 1) zs"
proof -
  obtain m where "k = Suc (length xs + m)" using assms(1) by (auto simp: less_iff_Suc_add)
  then show ?thesis using assms(2) by simp
qed

lemma fst_set_take: "fst ` set (take k ws) \<subseteq> fst ` set ws"
  using set_take_subset [of k ws] by blast

text \<open>The disk while the log is being filled: the header still says that there is nothing to install.\<close>

lemma crash_early:
  fixes s :: "'z klog_scheme"
  assumes ok: "log_ok s" and k: "k \<le> nat (lh_n s)"
  defines "d \<equiv> apply_writes (take k (commit_writes s)) (disk s)"
  shows "d (lstart s) = disk s (lstart s)" "b \<notin> {lstart s..lstart s + nat (lh_n s)} \<Longrightarrow> d b = disk s b"
proof -
  have t: "take k (commit_writes s) = take k (log_writes (nat (lh_n s)) s)"
    using k by (simp add: commit_writes_def Let_def log_writes_def)
  have "fst ` set (take k (commit_writes s)) \<subseteq> {lstart s + 1..lstart s + nat (lh_n s)}"
    unfolding t using fst_set_take log_writes_blocks by metis
  then show "d (lstart s) = disk s (lstart s)"
    "b \<notin> {lstart s..lstart s + nat (lh_n s)} \<Longrightarrow> d b = disk s b"
    unfolding d_def by (auto intro!: apply_writes_other)
qed

text \<open>The disk while the home blocks are being installed: header and log are complete, and a home
  block has its old or its new contents.\<close>

lemma crash_install:
  fixes s :: "'z klog_scheme"
  assumes ok: "log_ok s" and k: "nat (lh_n s) < k" "k \<le> 2 * nat (lh_n s) + 1"
  defines "d \<equiv> apply_writes (take k (commit_writes s)) (disk s)"
  shows "d (lstart s) = header (lh_n s) (lh_block s) (bview s (lstart s))"
    "j < nat (lh_n s) \<Longrightarrow> d (lstart s + j + 1) = bview s (lh_block s ! j)"
    "b \<notin> {lstart s..lstart s + nat (lh_n s)} \<Longrightarrow> b \<notin> set (logged (nat (lh_n s)) s) \<Longrightarrow> d b = disk s b"
proof -
  let ?n = "nat (lh_n s)" and ?h = "header (lh_n s) (lh_block s) (bview s (lstart s))"
  let ?H = "map (\<lambda>j. (lh_block s ! j, bview s (lh_block s ! j))) [0..<?n]"
  note g = log_okD(2) [OF ok]
  have len: "length (log_writes ?n s) = ?n" by (simp add: log_writes_def)
  have t: "take k (commit_writes s) = log_writes ?n s @ [(lstart s, ?h)] @ take (k - ?n - 1) ?H"
    using take_middle [of "log_writes ?n s" k ?H "(lstart s, ?h)" "[(lstart s, header 0 (lh_block s) ?h)]"] k len
    by (simp only: commit_writes_def Let_def) simp
  have "fst ` set ?H = set (logged ?n s)"
    using home_writes_blocks [of ?n s] g by (simp add: home_writes_def log_geom_def image_image)
  then have hs: "fst ` set (take (k - ?n - 1) ?H) \<subseteq> set (logged ?n s)"
    using fst_set_take [of "k - ?n - 1" ?H] by (simp only:)
  have out: "x \<notin> fst ` set (take (k - ?n - 1) ?H)" if "x \<in> {lstart s..lstart s + ?n}" for x
    using hs logged_geom [OF g, of x] that by auto
  have e: "d x = apply_writes (log_writes ?n s @ [(lstart s, ?h)]) (disk s) x" if "x \<in> {lstart s..lstart s + ?n}" for x
    unfolding d_def t using apply_writes_other [OF out [OF that]] by (simp add: apply_writes_append)
  show "d (lstart s) = ?h" using e [of "lstart s"] by (simp add: apply_writes_append)
  have "distinct (map (\<lambda>j. lstart s + j + 1) [0..<?n])" by (simp add: distinct_map inj_on_def)
  from apply_writes_map [OF this]
  show "j < ?n \<Longrightarrow> d (lstart s + j + 1) = bview s (lh_block s ! j)"
    using e [of "lstart s + j + 1"] by (simp add: apply_writes_append log_writes_def)
  show "b \<notin> {lstart s..lstart s + ?n} \<Longrightarrow> b \<notin> set (logged ?n s) \<Longrightarrow> d b = disk s b"
    unfolding d_def t using hs log_writes_blocks [of ?n s]
    by (intro apply_writes_other) (auto simp only: set_append image_Un list.set image_insert image_empty fst_conv
        Un_iff insert_iff empty_iff atLeastAtMost_iff)
qed

lemma crash_installed:
  fixes s :: "'z klog_scheme"
  assumes ok: "log_ok s" and k: "nat (lh_n s) < k" "k \<le> 2 * nat (lh_n s) + 1"
    and b: "b \<notin> {lstart s..lstart s + nat (lh_n s)}"
  defines "d \<equiv> apply_writes (take k (commit_writes s)) (disk s)"
  shows "apply_writes (map (\<lambda>j. (logged (nat (lh_n s)) s ! j, d (lstart s + j + 1))) [0..<nat (lh_n s)]) d b = bview s b"
proof -
  let ?n = "nat (lh_n s)"
  let ?W = "map (\<lambda>j. (logged ?n s ! j, d (lstart s + j + 1))) [0..<?n]"
  note e = crash_install [OF ok k, folded d_def]
  have len: "?n \<le> length (lh_block s)" using log_okD(2) [OF ok] by (simp add: log_geom_def)
  show "apply_writes ?W d b = bview s b"
  proof (cases "b \<in> set (logged ?n s)")
    case True
    then obtain j where j: "j < ?n" "b = logged ?n s ! j" using len by (auto simp: in_set_conv_nth)
    have "distinct (map ((!) (logged ?n s)) [0..<?n])"
      using take_upt_distinct [of ?n "logged ?n s"] log_okD(3) [OF ok] len by simp
    then have "apply_writes ?W d b = d (lstart s + j + 1)"
      using j apply_writes_map [of "(!) (logged ?n s)" "[0..<?n]" j "\<lambda>j. d (lstart s + j + 1)" d] by simp
    then show ?thesis using e(2) [OF j(1)] j by simp
  next
    case False
    have "fst ` set ?W \<subseteq> set (logged ?n s)" using len by (auto simp: nth_in_take)
    then have "apply_writes ?W d b = d b" using False by (intro apply_writes_other) blast
    then show ?thesis using bview_clean [OF log_okD(1) [OF ok], of b] False log_okD(4) [OF ok] e(3) [OF b False] by simp
  qed
qed

lemma crash_late:
  fixes s :: "'z klog_scheme"
  assumes ok: "log_ok s" and n: "0 < lh_n s"
  defines "d \<equiv> apply_writes (commit_writes s) (disk s)"
  shows "get32 0 (d (lstart s)) = 0" "b \<notin> {lstart s..lstart s + nat (lh_n s)} \<Longrightarrow> d b = bview s b"
proof -
  let ?n = "nat (lh_n s)" and ?h = "header (lh_n s) (lh_block s) (bview s (lstart s))"
  let ?H = "map (\<lambda>j. (lh_block s ! j, bview s (lh_block s ! j))) [0..<?n]"
  note g = log_okD(2) [OF ok]
  have ll: "length (lh_block s) = LOGSIZE" "?n \<le> length (lh_block s)" using g by (auto simp: log_geom_def)
  have lb: "length (bview s (lstart s)) = BSIZE" using log_okD(1) [OF ok] bview_length by (auto simp: quiet_def)
  have "d (lstart s) = header 0 (lh_block s) ?h"
    by (simp add: d_def commit_writes_def Let_def apply_writes_append)
  then show "get32 0 (d (lstart s)) = 0" using ll lb by (simp del: LOGSIZE_def)
  assume b: "b \<notin> {lstart s..lstart s + ?n}"
  have bl: "b \<noteq> lstart s" "b \<notin> fst ` set (log_writes ?n s)" using b by auto
  then have e: "d b = apply_writes ?H (disk s) b"
    using apply_writes_other [OF bl(2), of "disk s"]
    by (simp add: d_def commit_writes_def Let_def apply_writes_append)
      (rule apply_writes_cong, simp)
  show "d b = bview s b"
  proof (cases "b \<in> set (logged ?n s)")
    case True
    then obtain j where j: "j < ?n" "b = lh_block s ! j" using ll by (auto simp: in_set_conv_nth)
    have "distinct (map ((!) (lh_block s)) [0..<?n])" using take_upt_distinct log_okD(3) [OF ok] ll(2) by blast
    then show ?thesis using e j apply_writes_map [of "(!) (lh_block s)" "[0..<?n]" j] by simp
  next
    case False
    then have "b \<notin> fst ` set ?H" using ll(2) by (auto simp: nth_in_take)
    then have "d b = disk s b" using e apply_writes_other by metis
    then show ?thesis using bview_clean [OF log_okD(1) [OF ok], of b] False log_okD(4) [OF ok] by simp
  qed
qed

lemma log_ok_empty:
  fixes s :: "'z klog_scheme"
  assumes "quiet s" "lh_n s = 0" "ldev s = 1" "lstart s + nat (lsize s) \<le> disksize s" "disksize s < 2 ^ 32"
    "length (lh_block s) = LOGSIZE" "dirties s = {}" "get32 0 (disk s (lstart s)) = 0" "1 < lstart s"
    "0 < lsize s" "lsize s \<le> int NBUF" "sb_ok s"
  shows "log_ok s"
  using assms by (simp add: log_ok_def)

text \<open>What recovery makes of a disk whose header lists \<open>n\<close> blocks.\<close>

lemma recover_disk:
  fixes r :: "'z klog_scheme"
  assumes b: "booted d r" and sb: "sb_logstart (get_superblock (d 1)) = st \<and>
      s32 (int (sb_nlog (get_superblock (d 1)))) = nl" and st: "1 < st"
    and m: "disksize r < 2 ^ 32" "0 < nl" "nl \<le> int NBUF" "st + nat nl \<le> disksize r" and h: "header_ok d st (disksize r) n" "1 \<notin> set (get32s 4 n (d st))"
  shows "\<exists>r'. initlog 1 r = Ok () r' \<and> log_ok r' \<and> lh_n r' = 0
    \<and> lframe (r\<lparr>lstart := st, lsize := nl, ldev := 1\<rparr>) r' \<and> (\<forall>b. b \<noteq> st \<longrightarrow> disk r' b =
         apply_writes (map (\<lambda>j. (get32s 4 n (d st) ! j, d (st + j + 1))) [0..<n]) d b)"
proof -
  let ?W = "map (\<lambda>j. (get32s 4 n (d st) ! j, d (st + j + 1))) [0..<n]"
  have dr: "disk r = d" "quiet r" "dirties r = {}" "length (lh_block r) = LOGSIZE" using b by (simp_all add: booted_def)
  have sz: "st < disksize r" using h(1) by (auto simp: header_ok_def)
  have hr: "header_ok (disk r) (sb_logstart (get_superblock (disk r 1))) (disksize r) n" "1 < disksize r"
    using h(1) st sb dr(1) sz by simp_all
  obtain t e where t: "initlog 1 r = Ok () t" "dwrote r (?W @ [(st, e)]) t" "get32 0 e = 0" "lh_n t = 0"
    "lstart t = st" "ldev t = 1" "lsize t = nl" "length (lh_block t) = LOGSIZE"
    "lframe (r\<lparr>lstart := st, lsize := nl, ldev := 1\<rparr>) t"
    using initlog_run [OF dr(2,4) m(1) hr(2) dr(3) hr(1)] sb unfolding dr(1) by blast
  have dk: "disk t = (apply_writes ?W d)(st := e)" using dwroteD(3) [OF t(2)] dr(1) by (simp add: apply_writes_append)
  have "fst ` set ?W = set (get32s 4 n (d st))"
    by (auto simp: get32s_def image_image)
  then have "1 \<notin> fst ` set ?W" using h(2) by (simp only:) simp
  then have "disk t 1 = d 1" using dk st apply_writes_other [of 1 ?W d] by simp
  then have "sb_ok t" using sb t by (simp add: sb_ok_def)
  then have "log_ok t"
    using t dwroteD(1,5,6) [OF t(2)] m st dr(3) sz dk by (intro log_ok_empty) simp_all
  then show ?thesis using t(1,4,9) dk by (intro exI [of _ t]) simp
qed

lemma header_okI:
  fixes s :: "'z klog_scheme"
  assumes ok: "log_ok s" and d: "d (lstart s) = header (lh_n s) (lh_block s) (bview s (lstart s))"
  shows "header_ok d (lstart s) (disksize s) (nat (lh_n s))" "get32s 4 (nat (lh_n s)) (d (lstart s)) = logged (nat (lh_n s)) s"
proof -
  let ?n = "nat (lh_n s)"
  note g = log_okD(2) [OF ok]
  have lb: "length (bview s (lstart s)) = BSIZE" using log_okD(1) [OF ok] bview_length by (auto simp: quiet_def)
  have l: "length (lh_block s) = LOGSIZE" "disksize s < 2 ^ 32" "lstart s + ?n < disksize s" "?n \<le> LOGSIZE"
    using g by (auto simp: log_geom_def)
  have n: "0 \<le> lh_n s" "lh_n s \<le> int LOGSIZE" using log_okD(11) [OF ok] l(4) by auto
  have "\<forall>b \<in> set (logged ?n s). b < 2 ^ 32" using logged_geom [OF g] l(2) by (meson order_less_trans)
  from header_blocks [OF lb l(1) this n(2)]
  show e: "get32s 4 ?n (d (lstart s)) = logged ?n s" using d by simp
  have "lh_n s mod 2 ^ 32 = lh_n s" using n by simp
  then have "header_n d (lstart s) = int ?n"
    using d lb l(1) n by (simp add: header_n_def s32_id)
  then show "header_ok d (lstart s) (disksize s) ?n"
    using e logged_geom [OF g] log_okD(3) [OF ok] l by (simp add: header_ok_def)
qed

lemma crash_recovers:
  fixes s r :: "'z klog_scheme"
  assumes ok: "log_ok s" and n: "0 < lh_n s"
    and r: "booted (apply_writes (take k (commit_writes s)) (disk s)) r" "disksize r = disksize s"
  shows "\<exists>r'. initlog 1 r = Ok () r' \<and> log_ok r' \<and> lh_n r' = 0
    \<and> (\<forall>b. b \<notin> {lstart s..lstart s + nat (lh_n s)} \<longrightarrow>
         disk r' b = (if k \<le> nat (lh_n s) then disk s b else bview s b))"
proof -
  let ?n = "nat (lh_n s)" and ?d = "apply_writes (take k (commit_writes s)) (disk s)"
  note g = log_okD(2) [OF ok]
  have c: "1 < lstart s" "sb_logstart (get_superblock (disk s 1)) = lstart s \<and>
      s32 (int (sb_nlog (get_superblock (disk s 1)))) = lsize s" "1 \<notin> dirties s"
    "get32 0 (disk s (lstart s)) = 0" "0 < lsize s" "lsize s \<le> int NBUF" "lstart s + nat (lsize s) \<le> disksize r"
    using log_okD(7-14) [OF ok] r(2) by (simp_all add: sb_ok_def Let_def)
  have m: "disksize r < 2 ^ 32" "lstart s < disksize s" using g r(2) by (auto simp: log_geom_def)
  have one: "1 \<notin> {lstart s..lstart s + ?n}" "1 \<notin> set (logged ?n s)" using c log_okD(4) [OF ok] by auto
  have v1: "bview s 1 = disk s 1" using bview_clean [OF log_okD(1) [OF ok] c(3)] .
  consider "k \<le> ?n" | "?n < k" "k \<le> 2 * ?n + 1" | "2 * ?n + 1 < k" by linarith
  then show ?thesis
  proof cases
    case 1
    note e = crash_early [OF ok 1]
    have "header_ok ?d (lstart s) (disksize r) 0"
      using e(1) c(4) m r(2) by (simp add: header_ok_def header_n_def get32s_def s32_id)
    then show ?thesis using recover_disk [OF r(1) _ c(1) m(1) c(5-7), of 0] e(2) [OF one(1)] c(2) e(2) 1
      by (force simp: get32s_def)
  next
    case 2
    note e = crash_install [OF ok 2]
    have d1: "?d 1 = disk s 1" using e(3) [OF one] .
    note h = header_okI [where d = ?d, OF ok e(1)]
    let ?W = "map (\<lambda>j. (logged ?n s ! j, ?d (lstart s + j + 1))) [0..<?n]"
    obtain r' where r': "initlog 1 r = Ok () r'" "log_ok r'" "lh_n r' = 0"
      "\<forall>b. b \<noteq> lstart s \<longrightarrow> disk r' b = apply_writes ?W ?d b"
      using recover_disk [OF r(1) _ c(1) m(1) c(5-7), of ?n] h(1) one(2) d1 c(2) unfolding r(2) h(2) by auto
    have "disk r' b = bview s b" if b: "b \<notin> {lstart s..lstart s + ?n}" for b
    proof -
      have "b \<noteq> lstart s" using b by auto
      then have "disk r' b = apply_writes ?W ?d b" using r'(4) by blast
      then show ?thesis using crash_installed [OF ok 2 b] by (rule trans)
    qed
    then show ?thesis using r' 2 by auto
  next
    case 3
    have "length (commit_writes s) \<le> k" using 3 by (simp add: commit_writes_def Let_def log_writes_def)
    then have t: "take k (commit_writes s) = commit_writes s" by simp
    note e = crash_late [OF ok n]
    have "header_ok ?d (lstart s) (disksize r) 0"
      using e(1) m r(2) unfolding t by (simp add: header_ok_def header_n_def get32s_def s32_id)
    then show ?thesis using recover_disk [OF r(1) _ c(1) m(1) c(5-7), of 0] e(2) [OF one(1)] v1 c(2) e(2) 3 unfolding t
      by (force simp: get32s_def)
  qed
qed

section \<open>Transactions\<close>

lemma cache_out [simp]:
  fixes s :: "'z klog_scheme"
  shows "bc_inv (s\<lparr>loutstanding := n\<rparr>) = bc_inv s" "bheld (s\<lparr>loutstanding := n\<rparr>) = bheld s"
    "dirties (s\<lparr>loutstanding := n\<rparr>) = dirties s" "bview (s\<lparr>loutstanding := n\<rparr>) = bview s"
    "bc_inv (s\<lparr>lcommitting := c\<rparr>) = bc_inv s" "bheld (s\<lparr>lcommitting := c\<rparr>) = bheld s"
    "dirties (s\<lparr>lcommitting := c\<rparr>) = dirties s" "bview (s\<lparr>lcommitting := c\<rparr>) = bview s"
  by (simp_all add: bc_inv_def lru_def buf_ok_def idle_def dirties_def cached_def bheld_def
      bview_def fun_eq_iff split: option.split)

lemma log_ok_out [simp]:
  fixes s :: "'z klog_scheme"
  shows "log_ok (s\<lparr>loutstanding := n\<rparr>) = log_ok s" "log_ok (s\<lparr>lcommitting := c\<rparr>) = log_ok s"
  by (simp_all add: log_ok_def quiet_def sb_ok_def)

lemma cache_procs [simp]:
  fixes s :: "'z kbio_scheme"
  shows "bheld (s\<lparr>procs := p\<rparr>) = bheld s" "dirties (s\<lparr>procs := p\<rparr>) = dirties s"
    "bview (s\<lparr>procs := p\<rparr>) = bview s"
  by (simp_all add: dirties_def cached_def bheld_def bview_def fun_eq_iff split: option.split)

lemma lru_procs [simp]: "lru (s\<lparr>procs := p\<rparr>) = lru s"
  by (rule ext) (simp add: lru_def)

lemma buf_ok_unheld:
  assumes "buf_ok s i" "\<not> bheld s i" "i < NBUF"
  shows "buf_ok (s\<lparr>procs := p\<rparr>) i"
  using assms by (auto simp: buf_ok_def Let_def bheld_def)

lemma quiet_wakeup:
  assumes q: "quiet s"
  shows "quiet (s\<lparr>procs := map (wakeup_proc c) (procs s)\<rparr>)"
proof -
  have inv: "bc_inv s" "\<forall>i. \<not> bheld s i" using q by (auto simp: quiet_def)
  let ?t = "s\<lparr>procs := map (wakeup_proc c) (procs s)\<rparr>"
  have "buf_ok ?t i" if "i < NBUF" for i using buf_ok_unheld bc_invD(2) [OF inv(1) that] inv(2) that by blast
  moreover have "\<forall>p \<in> set (procs s). \<forall>i. state (wakeup_proc c p) = SLEEPING \<longrightarrow>
      chan (wakeup_proc c p) \<noteq> Some (ChSleep (BufSl i))"
    using inv(1) by (auto simp: bc_inv_def wakeup_proc_def)
  ultimately show ?thesis using inv unfolding quiet_def bc_inv_def by (simp add: lru_def idle_def)
qed

lemma log_ok_wakeup:
  fixes s :: "'z klog_scheme"
  assumes "log_ok s"
  shows "log_ok (s\<lparr>procs := map (wakeup_proc c) (procs s)\<rparr>)"
  using assms quiet_wakeup [of s c] by (simp add: log_ok_def sb_ok_def)

lemma log_ok_committed:
  fixes s :: "'z klog_scheme"
  assumes ok: "log_ok s" and n: "0 < lh_n s" and t: "quiet t" "lh_n t = 0" "ldev t = ldev s" "lstart t = lstart s"
    "lsize t = lsize s" "disksize t = disksize s" "lh_block t = lh_block s" "dirties t = dirties s - fst ` set (commit_writes s)"
    "disk t = apply_writes (commit_writes s) (disk s)"
  shows "log_ok t"
proof -
  note g = log_okD(2) [OF ok] and e = crash_late [OF ok n]
  note c = log_okD(7-9) [OF ok]
  have "fst ` set (home_writes (nat (lh_n s)) s) = set (logged (nat (lh_n s)) s)"
    using home_writes_blocks [of "nat (lh_n s)" s] g by (simp add: log_geom_def)
  then have "dirties s \<subseteq> fst ` set (commit_writes s)"
    using log_okD(4) [OF ok] by (auto simp: commit_writes_def home_writes_def Let_def image_image image_Un)
  then have d: "dirties t = {}" using t(8) by auto
  have one: "1 \<notin> {lstart s..lstart s + nat (lh_n s)}" using c by auto
  have "disk t 1 = disk s 1" using e(2) [OF one] bview_clean [OF log_okD(1) [OF ok] c(3)] t(9) by simp
  then have "sb_ok t" using c(2) t by (simp add: sb_ok_def)
  then show ?thesis using t c(1) d e(1) g log_okD(11-14) [OF ok] by (intro log_ok_empty) (simp_all add: log_geom_def)
qed

text \<open>The last outstanding call commits the transaction.\<close>

lemma end_op_run:
  fixes s :: "'z klog_scheme"
  assumes ok: "log_ok s" and n: "0 < lh_n s" and o1: "loutstanding s = 1" "\<not> lcommitting s"
  shows "\<exists>t. end_op s = Ok () t \<and> log_ok t \<and> lh_n t = 0 \<and> loutstanding t = 0 \<and> \<not> lcommitting t
    \<and> disk t = apply_writes (commit_writes s) (disk s) \<and> dtrace t = dtrace s @ commit_writes s"
proof -
  have h: "held s = []" using log_okD(1) [OF ok] bc_invD(6) by (auto simp: quiet_def)
  let ?s = "s\<lparr>loutstanding := 0, lcommitting := True\<rparr>"
  have cw: "commit_writes ?s = commit_writes s"
    by (simp add: commit_writes_def log_writes_def)
  have ok': "log_ok ?s" "0 < lh_n ?s" using ok n by simp_all
  obtain t where t: "commit ?s = Ok () t" "dwrote ?s (commit_writes s) t" "lh_n t = 0"
    "lh_block t = lh_block s" "lframe ?s t"
    using commit_run [OF ok'] unfolding cw by auto
  note f = lframeD [OF t(5)]
  have dk: "disk t = apply_writes (commit_writes s) (disk s)" using dwroteD(3) [OF t(2)] by simp
  have "log_ok t" using log_ok_committed [OF ok n] t f dk dwroteD(1,5) [OF t(2)] by simp
  note lw = log_ok_wakeup [OF this, of "Some ChLog"]
  have "end_op s = Ok () (t\<lparr>procs := map (wakeup_proc (Some ChLog)) (procs t), lcommitting := False\<rparr>)"
    using h o1 t(1) f by (simp add: end_op_def s32_def)
  then show ?thesis using lw dk t(3) f dwroteD(4) [OF t(2)] by simp
qed

text \<open>\<open>log_write\<close> pins the buffer and lists its block, once.\<close>

definition pinned :: "nat \<Rightarrow> 'z kbio_scheme \<Rightarrow> 'z kbio_scheme" where
  "pinned b s = s\<lparr>bufs := (bufs s)[b := (buf_at s b)\<lparr>b_dirty := True\<rparr>]\<rparr>"

lemma pinned_swap: "pinned b s = swap_buf b ((buf_at s b)\<lparr>b_dirty := True\<rparr>) (slocks s (BufSl b)) s"
  by (simp add: pinned_def swap_buf_def)

lemma pinned_inv:
  assumes inv: "bc_inv s" and h: "bheld s b"
  shows "bc_inv (pinned b s)" "bview (pinned b s) = bview s" "bheld (pinned b s) = bheld s"
    "dirties (pinned b s) = insert (b_blockno (buf_at s b)) (dirties s)" "released_ok (pinned b s) b"
    "buf_at (pinned b s) b = (buf_at s b)\<lparr>b_dirty := True\<rparr>"
    "i \<noteq> b \<Longrightarrow> buf_at (pinned b s) i = buf_at s i"
proof -
  let ?v = "(buf_at s b)\<lparr>b_dirty := True\<rparr>" and ?k = "slocks s (BufSl b)"
  note hd = bheldD [OF inv h]
  have at: "buf_at (pinned b s) i = (if i = b then ?v else buf_at s i)" for i
    using hd(2) by (simp add: pinned_def nth_list_update)
  show "buf_at (pinned b s) b = ?v" "i \<noteq> b \<Longrightarrow> buf_at (pinned b s) i = buf_at s i" using at by simp_all
  have "buf_ok (swap_buf b ?v ?k s) b"
    using bc_invD(2) [OF inv hd(1)] hd at [of b] unfolding pinned_swap by (simp add: buf_ok_def Let_def)
  then show inv': "bc_inv (pinned b s)"
    unfolding pinned_swap by (intro swap_inv [OF inv hd(1)]) (use bc_invD(3) [OF inv] hd in auto)
  show "bview (pinned b s) = bview s"
  proof
    fix m
    show "bview (pinned b s) m = bview s m"
      using swap_view [OF inv hd(1) inv' [unfolded pinned_swap], of m] hd(4,8,9)
      by (auto simp: pinned_swap cached_def)
  qed
  show "bheld (pinned b s) = bheld s" using at hd(3) by (auto simp: bheld_def fun_eq_iff)
  have c: "cached (pinned b s) n i = cached s n i" for n i using at by (simp add: cached_def)
  have dt: "b_dirty (buf_at (pinned b s) i) = (i = b \<or> b_dirty (buf_at s i))" for i using at by simp
  have "cached s n b \<longleftrightarrow> n = b_blockno (buf_at s b)" for n using hd(8) by (auto simp: cached_def)
  then show "dirties (pinned b s) = insert (b_blockno (buf_at s b)) (dirties s)"
    unfolding dirties_def c dt by auto
  show "released_ok (pinned b s) b" using at by (simp add: released_ok_def)
qed

definition log_index :: "'z klog_scheme \<Rightarrow> nat \<Rightarrow> nat" where
  "log_index s bn = (case scan (\<lambda>x. x = bn) (logged (nat (lh_n s)) s) of Some i \<Rightarrow> i | None \<Rightarrow> nat (lh_n s))"

lemma log_index:
  fixes s :: "'z klog_scheme" and bn :: nat
  assumes n: "0 \<le> lh_n s" "nat (lh_n s) < length (lh_block s)" and d: "distinct (logged (nat (lh_n s)) s)"
  defines "i \<equiv> log_index s bn" and "m \<equiv> nat (lh_n s) + (if log_index s bn = nat (lh_n s) then 1 else 0)"
  shows "i \<le> nat (lh_n s)" "i = nat (lh_n s) \<longleftrightarrow> bn \<notin> set (logged (nat (lh_n s)) s)"
    "set (take m ((lh_block s)[i := bn])) = insert bn (set (logged (nat (lh_n s)) s))"
    "distinct (take m ((lh_block s)[i := bn]))"
proof -
  let ?n = "nat (lh_n s)" and ?bl = "lh_block s"
  have *: "i \<le> ?n \<and> (i = ?n \<longleftrightarrow> bn \<notin> set (take ?n ?bl)) \<and>
    set (take m (?bl[i := bn])) = insert bn (set (take ?n ?bl)) \<and> distinct (take m (?bl[i := bn]))"
  proof (cases "scan (\<lambda>x. x = bn) (take ?n ?bl)")
    case None
    then have "bn \<notin> set (take ?n ?bl)" by (auto simp: scan_None_iff)
    then show ?thesis using None n d by (simp add: i_def m_def log_index_def take_Suc_conv_app_nth)
  next
    case (Some j)
    then have j: "j < ?n" "?bl ! j = bn" using n scan_SomeD [OF Some] by auto
    then have "bn \<in> set (take ?n ?bl)" "?bl[j := bn] = ?bl" using nth_in_take [of j ?n ?bl] n by auto
    then show ?thesis using Some j d by (auto simp: i_def m_def log_index_def)
  qed
  then show "i \<le> ?n" "i = ?n \<longleftrightarrow> bn \<notin> set (take ?n ?bl)"
    "set (take m (?bl[i := bn])) = insert bn (set (take ?n ?bl))" "distinct (take m (?bl[i := bn]))" by blast+
qed

definition recorded :: "nat \<Rightarrow> 'z klog_scheme \<Rightarrow> 'z klog_scheme" where
  "recorded b s = (let bn = b_blockno (buf_at s b); i = log_index s bn in
     (pinned b s)\<lparr>lh_n := lh_n s + (if int i = lh_n s then 1 else 0), lh_block := (lh_block s)[i := bn]\<rparr>)"

text \<open>The header has room for another block and a transaction is open.\<close>

definition in_trans :: "'z klog_scheme \<Rightarrow> bool" where
  "in_trans s \<longleftrightarrow> 0 \<le> lh_n s \<and> lh_n s < int LOGSIZE \<and> lh_n s < lsize s - 1 \<and> lsize s < 2 ^ 31
     \<and> 1 \<le> loutstanding s \<and> length (lh_block s) = LOGSIZE \<and> distinct (logged (nat (lh_n s)) s)"

lemma log_write_run:
  fixes s :: "'z klog_scheme"
  assumes inv: "bc_inv s" and h: "bheld s b" and tr: "in_trans s"
  shows "log_write b s = Ok () (recorded b s)"
proof -
  have hl: "held s = []" using bc_invD(6) [OF inv] .
  have n: "0 \<le> lh_n s" "\<not> int LOGSIZE \<le> lh_n s" "\<not> s32 (lsize s - 1) \<le> lh_n s" "\<not> loutstanding s < 1"
    using tr s32_id [of "lsize s - 1"] by (auto simp: in_trans_def)
  have u: "upd b (\<lambda>f. f\<lparr>b_dirty := True\<rparr>) (bufs s) = (bufs s)[b := (buf_at s b)\<lparr>b_dirty := True\<rparr>]"
    by (simp add: upd_def)
  show ?thesis
    using n hl u
    by (simp add: log_write_def log_index_def [symmetric] recorded_def pinned_def Let_def set_buf_def del: LOGSIZE_def)
qed

lemma recorded_law:
  fixes s :: "'z klog_scheme"
  assumes inv: "bc_inv s" and h: "bheld s b" and tr: "in_trans s"
  defines "t \<equiv> recorded b s" and "bn \<equiv> b_blockno (buf_at s b)"
  shows "bc_inv t" "bview t = bview s" "hbufs t = hbufs s" "dirties t = insert bn (dirties s)" "released_ok t b"
    "i \<noteq> b \<Longrightarrow> buf_at t i = buf_at s i" "b_blockno (buf_at t b) = bn" "b_data (buf_at t b) = b_data (buf_at s b)"
    "disk t = disk s" "dtrace t = dtrace s" "lframe s t" "0 \<le> lh_n t"
    "lh_n t = lh_n s + (if bn \<in> set (logged (nat (lh_n s)) s) then 0 else 1)"
    "set (logged (nat (lh_n t)) t) = insert bn (set (logged (nat (lh_n s)) s))"
    "distinct (logged (nat (lh_n t)) t)" "length (lh_block t) = LOGSIZE"
proof -
  let ?n = "nat (lh_n s)" and ?i = "log_index s bn"
  have n: "0 \<le> lh_n s" "?n < length (lh_block s)" "distinct (logged ?n s)" "length (lh_block s) = LOGSIZE"
    using tr by (auto simp: in_trans_def)
  note li = log_index [OF n(1-3), of bn]
  have t: "t = (pinned b s)\<lparr>lh_n := lh_n s + (if int ?i = lh_n s then 1 else 0), lh_block := (lh_block s)[?i := bn]\<rparr>"
    by (simp add: t_def recorded_def Let_def bn_def)
  have ie: "int ?i = lh_n s \<longleftrightarrow> ?i = ?n" using n(1) by auto
  note p = pinned_inv [OF inv h]
  show "bc_inv t" "bview t = bview s" "hbufs t = hbufs s" "dirties t = insert bn (dirties s)" "released_ok t b"
    "b_blockno (buf_at t b) = bn" "b_data (buf_at t b) = b_data (buf_at s b)"
    using p(1-6) by (simp_all add: t bn_def)
  show "i \<noteq> b \<Longrightarrow> buf_at t i = buf_at s i" using p(7) [of i] by (simp add: t)
  show "disk t = disk s" "dtrace t = dtrace s" "0 \<le> lh_n t" "length (lh_block t) = LOGSIZE"
    using n by (simp_all add: t pinned_def)
  have "lframe s (pinned b s)" unfolding pinned_swap by (rule bframe_lframe [OF bframe_swap])
  then have "lframe s ((pinned b s)\<lparr>lh_n := m\<rparr>)" for m using lframe_trans lframe_header(1) by blast
  then show "lframe s t" unfolding t using lframe_trans lframe_header(2) by blast
  show "lh_n t = lh_n s + (if bn \<in> set (logged ?n s) then 0 else 1)" using li(2) ie by (simp add: t)
  have "nat (lh_n t) = ?n + (if ?i = ?n then 1 else 0)" using ie n(1) by (simp add: t nat_add_distrib)
  then show "set (logged (nat (lh_n t)) t) = insert bn (set (logged ?n s))" "distinct (logged (nat (lh_n t)) t)"
    using li(3,4) by (simp_all add: t)
qed

text \<open>The way the file system changes a block: read it, store into the buffer, log it, release it.\<close>

definition update_block :: "nat \<Rightarrow> (block \<Rightarrow> block) \<Rightarrow> ('z klog_scheme, unit) k" where
  "update_block n f = bindk (bread 1 n) (\<lambda>b. thenk (bdata_put b f) (thenk (log_write b) (brelse b)))"

definition may_log :: "'z klog_scheme \<Rightarrow> nat \<Rightarrow> bool" where
  "may_log s n \<longleftrightarrow> n \<noteq> 1 \<and> n < disksize s \<and> (n < lstart s \<or> lstart s + nat (lsize s) \<le> n)"

lemma update_block_run:
  fixes s :: "'z klog_scheme"
  assumes ok: "log_ok s" and tr: "lh_n s < lsize s - 1" "1 \<le> loutstanding s" and n: "may_log s n"
    and f: "length (f (bview s n)) = BSIZE"
  shows "\<exists>t. update_block n f s = Ok () t \<and> log_ok t \<and> bview t = (bview s)(n := f (bview s n)) \<and> disk t = disk s
    \<and> dtrace t = dtrace s \<and> dirties t = insert n (dirties s) \<and> lframe s t
    \<and> lh_n t = lh_n s + (if n \<in> dirties s then 0 else 1)"
proof -
  note o1 = log_okD [OF ok]
  have q: "bc_inv s" "hbufs s = {}" using o1(1) by (simp_all add: quiet_def)
  have nd: "n < disksize s" using n by (simp add: may_log_def)
  obtain x t where t: "bread 1 n s = Ok x t" "bc_inv t" "hbufs t = {x}" "b_blockno (buf_at t x) = n"
    "bview t = bview s" "dirties t = dirties s" "disk t = disk s" "dtrace t = dtrace s" "bframe s t"
    using bc.rd_law [OF q(1) nd] q(2) o1(6) by auto
  have d: "b_data (buf_at t x) = bview s n" using bc.held_view [OF t(2), of x] t by simp
  obtain u where u: "bdata_put x f t = Ok () u" "bc_inv u" "hbufs u = {x}" "b_blockno (buf_at u x) = n"
    "bview u = (bview s)(n := f (bview s n))" "dirties u = dirties s" "disk u = disk s" "dtrace u = dtrace s" "bframe t u"
    using bc.put_law [OF t(2), of x f] t d f by auto
  have fl: "lframe s u" using bframe_lframe [OF bframe_trans [OF t(9) u(9)]] .
  note bl = bframe_log [OF bframe_trans [OF t(9) u(9)]]
  have tu: "in_trans u" using ok tr bl o1(3,11,14) by (simp add: in_trans_def log_ok_def)
  have hu: "bheld u x" using u(3) by auto
  let ?v = "recorded x u"
  note r = recorded_law [OF u(2) hu tu]
  have lw: "log_write x u = Ok () ?v" by (rule log_write_run [OF u(2) hu tu])
  have "x \<in> hbufs ?v" using r(3) u(3) by simp
  then obtain w where w: "brelse x ?v = Ok () w" "bc_inv w" "hbufs w = {}" "bview w = bview ?v"
    "dirties w = dirties ?v" "disk w = disk ?v" "dtrace w = dtrace ?v" "bframe ?v w"
    using bc.rel_law [OF r(1) _ r(5)] r(3) u(3) by auto
  have fw: "lframe s w" using lframe_trans [OF lframe_trans [OF fl r(11)] bframe_lframe [OF w(8)]] .
  note bw = bframe_log [OF w(8)]
  have lh: "lh_n w = lh_n s + (if n \<in> dirties s then 0 else 1)"
    "set (logged (nat (lh_n w)) w) = insert n (dirties s)" "distinct (logged (nat (lh_n w)) w)"
    "length (lh_block w) = LOGSIZE"
    using r(13-16) bw bl u(4) o1(4) by simp_all
  have dw: "dirties w = insert n (dirties s)" using w(5) r(4) u(4,6) by simp
  have qw: "quiet w" and dk: "disk w = disk s" using w(2,3,6) r(9) u(7) by (simp_all add: quiet_def)
  have "\<forall>b \<in> dirties w. b \<noteq> 1 \<and> b < disksize s \<and> (b < lstart s \<or> lstart s + nat (lsize s) \<le> b)"
    using n ok unfolding dw may_log_def log_ok_def by blast
  moreover have "0 \<le> lh_n w" "lh_n w < lsize w" using lh(1) o1(11) tr(1) lframeD(2) [OF fw] by auto
  ultimately have "log_ok w"
    using ok qw dk lh(2-4) dw lframeD [OF fw] unfolding log_ok_def sb_ok_def by (elim conjE, intro conjI) simp_all
  moreover have "update_block n f s = Ok () w"
    using t(1) u(1) lw w(1) by (simp add: update_block_def del: bdata_put_run)
  ultimately show ?thesis using w r(2,9,10) u(5,7,8) dw fw lh(1) by (intro exI [of _ w]) simp
qed

lemma begin_op_run:
  fixes s :: "'z klog_scheme"
  assumes "held s = []" "\<not> lcommitting s" "0 \<le> lh_n s" "0 \<le> loutstanding s"
    "lh_n s + (loutstanding s + 1) * int MAXOPBLOCKS \<le> int LOGSIZE"
  shows "begin_op s = Ok () (s\<lparr>loutstanding := loutstanding s + 1\<rparr>)"
proof -
  have "s32 (lh_n s + (loutstanding s + 1) * 10) = lh_n s + (loutstanding s + 1) * 10" "s32 (loutstanding s + 1) = loutstanding s + 1"
    using assms by (auto intro!: s32_id)
  then show ?thesis using assms by (simp add: begin_op_def begin_op_loop_def)
qed

section \<open>Properties\<close>

text \<open>C1: crash atomicity. When the last outstanding file system call ends, the transaction reaches
  the disk as a sequence of block writes after which every block outside the log has the contents the
  calls gave it. If the machine crashes after any number \<open>k\<close> of these writes, then \<open>initlog\<close> at the
  next boot brings every block outside the log to its old contents, or every one to its new contents:
  the old ones exactly when the header block had not been written.\<close>

theorem end_op_crash_atomic:
  fixes s :: "'z klog_scheme"
  assumes "log_ok s" "0 < lh_n s" "loutstanding s = 1" "\<not> lcommitting s"
  shows "\<exists>t ws. end_op s = Ok () t \<and> dtrace t = dtrace s @ ws \<and> log_ok t \<and> lh_n t = 0
    \<and> (\<forall>b. b \<notin> {lstart s..lstart s + nat (lh_n s)} \<longrightarrow> disk t b = bview s b)
    \<and> (\<forall>k (r :: 'z klog_scheme). booted (apply_writes (take k ws) (disk s)) r \<and> disksize r = disksize s \<longrightarrow>
         (\<exists>r'. initlog 1 r = Ok () r' \<and> log_ok r' \<and> (\<forall>b. b \<notin> {lstart s..lstart s + nat (lh_n s)} \<longrightarrow>
            disk r' b = (if k \<le> nat (lh_n s) then disk s b else bview s b))))"
proof -
  obtain t where t: "end_op s = Ok () t" "log_ok t" "lh_n t = 0"
    "disk t = apply_writes (commit_writes s) (disk s)" "dtrace t = dtrace s @ commit_writes s"
    using end_op_run [OF assms] by blast
  have "\<exists>r'. initlog 1 r = Ok () r' \<and> log_ok r' \<and> (\<forall>b. b \<notin> {lstart s..lstart s + nat (lh_n s)} \<longrightarrow>
            disk r' b = (if k \<le> nat (lh_n s) then disk s b else bview s b))"
    if "booted (apply_writes (take k (commit_writes s)) (disk s)) r \<and> disksize r = disksize s"
    for k and r :: "'z klog_scheme"
    using crash_recovers [OF assms(1,2), of k r] that by blast
  moreover have "disk t b = bview s b" if "b \<notin> {lstart s..lstart s + nat (lh_n s)}" for b
    using crash_late(2) [OF assms(1,2) that] t(4) by simp
  ultimately show ?thesis using t by blast
qed

text \<open>A disk with a superblock and nothing else, and the machine that boots from it.\<close>

definition demo_disk :: "nat \<Rightarrow> block" where
  "demo_disk = (\<lambda>_. replicate BSIZE 0)(1 := put_superblock \<lparr>sb_size = 1000, sb_nblocks = 941, sb_ninodes = 200,
     sb_nlog = 30, sb_logstart = 2, sb_inodestart = 32, sb_bmapstart = 58\<rparr> (replicate BSIZE 0))"

definition boot_klog :: "(nat \<Rightarrow> block) \<Rightarrow> klog" where
  "boot_klog d = kbio.extend (boot_kbio d) \<lparr>lstart = 0, lsize = 0, loutstanding = 0, lcommitting = False,
     ldev = 0, lh_n = 0, lh_block = replicate LOGSIZE 0\<rparr>"

lemma binit_booted:
  fixes s :: "'z klog_scheme"
  assumes "bufs s = replicate NBUF boot_buf" "idle s" "\<forall>n. length (disk s n) = BSIZE"
    and "\<forall>p \<in> set (procs s). state p \<noteq> SLEEPING" "length (lh_block s) = LOGSIZE"
  shows "\<exists>r. binit s = Ok () r \<and> booted (disk s) r \<and> disksize r = disksize s \<and> loutstanding r = loutstanding s
    \<and> lcommitting r = lcommitting s \<and> (\<exists>k x v. r = s\<lparr>slocks := k, bnext := x, bprev := v\<rparr>)"
proof -
  obtain r k x v where r: "binit s = Ok () r" "bc_inv r" "bufs r = bufs s" "r = s\<lparr>slocks := k, bnext := x, bprev := v\<rparr>"
    using binit_inv [OF assms(1-4)] by blast
  have "\<not> bheld r i" "\<not> b_dirty (buf_at r i) \<or> \<not> i < NBUF" for i
    using r(3) assms(1) by (auto simp: bheld_def boot_buf_def)
  then have "booted (disk s) r" using r assms(5) by (auto simp: booted_def quiet_def dirties_def cached_def)
  moreover have "\<exists>k x v. r = s\<lparr>slocks := k, bnext := x, bprev := v\<rparr>" using r(4) by blast
  moreover have "disksize r = disksize s" "loutstanding r = loutstanding s" "lcommitting r = lcommitting s"
    using r(4) by simp_all
  ultimately show ?thesis using r(1) by blast
qed

lemma demo_superblock:
  "get_superblock (demo_disk 1) = \<lparr>sb_size = 1000, sb_nblocks = 941, sb_ninodes = 200, sb_nlog = 30, sb_logstart = 2,
     sb_inodestart = 32, sb_bmapstart = 58\<rparr>"
  by (simp add: demo_disk_def put_superblock_def get_superblock_def n32_def)

lemma demo_disk_length [simp]: "length (demo_disk n) = BSIZE"
  by (simp add: demo_disk_def put_superblock_def)

lemma demo_disk_at: "n \<noteq> 1 \<Longrightarrow> demo_disk n = replicate BSIZE 0"
  by (simp add: demo_disk_def)

lemma get32_zero: "off + 4 \<le> n \<Longrightarrow> get32 off (replicate n 0) = 0"
  by (simp add: get32_def get_at_def numeral_eq_Suc)

lemma boot_demo:
  fixes s :: "'z klog_scheme"
  assumes "bufs s = replicate NBUF boot_buf" "idle s" "disk s = demo_disk" "disksize s = FSSIZE"
    and "\<forall>p \<in> set (procs s). state p \<noteq> SLEEPING" "length (lh_block s) = LOGSIZE"
  shows "\<exists>r. thenk binit (initlog 1) s = Ok () r \<and> log_ok r \<and> lh_n r = 0 \<and> lstart r = 2 \<and> lsize r = 30
    \<and> disksize r = FSSIZE \<and> loutstanding r = loutstanding s \<and> lcommitting r = lcommitting s
    \<and> (\<forall>b. b \<noteq> 2 \<longrightarrow> disk r b = demo_disk b)"
proof -
  obtain r0 where r0: "binit s = Ok () r0" "booted demo_disk r0" "disksize r0 = FSSIZE"
    "loutstanding r0 = loutstanding s" "lcommitting r0 = lcommitting s"
    using binit_booted [of s] assms by auto
  have h: "header_ok demo_disk 2 (disksize r0) 0"
    using r0(3) by (simp add: header_ok_def header_n_def demo_disk_at get32_zero get32s_def s32_def)
  have sb: "sb_logstart (get_superblock (demo_disk 1)) = 2 \<and> s32 (int (sb_nlog (get_superblock (demo_disk 1)))) = 30"
    unfolding demo_superblock by (simp add: s32_def)
  obtain r where r: "initlog 1 r0 = Ok () r" "log_ok r" "lh_n r = 0" "\<forall>b. b \<noteq> 2 \<longrightarrow> disk r b = demo_disk b"
    "lframe (r0\<lparr>lstart := 2, lsize := 30, ldev := 1\<rparr>) r"
    using recover_disk [OF r0(2) sb _ _ _ _ _ h] r0(3) by (auto simp: get32s_def)
  have "thenk binit (initlog 1) s = Ok () r" using r0(1) r(1) by simp
  then show ?thesis using r r0 lframeD [OF r(5)] by (intro exI [of _ r]) simp
qed

theorem end_op_crash_atomic_witness:
  "\<exists>s t. thenk (thenk binit (initlog 1)) (thenk begin_op (update_block 40 (\<lambda>_. replicate BSIZE 7))) (boot_klog demo_disk)
     = Ok () s \<and> end_op s = Ok () t \<and> disk t 40 = replicate BSIZE 7"
proof -
  obtain r where r: "thenk binit (initlog 1) (boot_klog demo_disk) = Ok () r" "log_ok r" "lh_n r = 0" "lstart r = 2"
    "lsize r = 30" "disksize r = FSSIZE" "loutstanding r = 0" "\<not> lcommitting r"
    using boot_demo [of "boot_klog demo_disk"]
    by (auto simp: boot_klog_def kbio.defs boot_kbio_def kslk.defs kkmem.defs boot_kkmem_def ksched.defs
        lottery_boot_def kbase.defs boot_kbase_def idle_def)
  have h: "held r = []" using log_okD(1) [OF r(2)] bc_invD(6) by (auto simp: quiet_def)
  have b: "begin_op r = Ok () (r\<lparr>loutstanding := 1\<rparr>)" using begin_op_run [of r] h r by simp
  let ?r = "r\<lparr>loutstanding := 1\<rparr>"
  obtain s where s: "update_block 40 (\<lambda>_. replicate BSIZE 7) ?r = Ok () s" "log_ok s"
    "bview s = (bview ?r)(40 := replicate BSIZE 7)" "lframe ?r s" "lh_n s = 1"
    using update_block_run [of ?r 40 "\<lambda>_. replicate BSIZE 7"] r log_okD(4) [OF r(2)] by (auto simp: may_log_def)
  have "loutstanding s = 1" "\<not> lcommitting s" "lstart s = 2" using lframeD [OF s(4)] r by simp_all
  then obtain t where "end_op s = Ok () t" "\<forall>b. b \<notin> {2..3} \<longrightarrow> disk t b = bview s b"
    using end_op_crash_atomic [OF s(2)] s(5) by auto
  then show ?thesis using r(1) b s(1,3) by (intro exI [of _ s] exI [of _ t]) simp
qed

end
