(* ===== verification/Inode.thy ===== *)
theory Inode
  imports Log
begin

text \<open>
  Blocks and inodes of fs.c: the free bit map, the inode blocks and the cache of inodes in memory.
  A \<open>struct inode *\<close> is an index of \<open>icache.inode\<close>, with \<open>None\<close> for the null pointer where the
  code tests for it; the sleep-lock of entry \<open>i\<close> is \<open>InodeSl i\<close>. Every change of a block goes through
  \<open>log_write\<close>, so that what is proved here of the blocks as the callers see them (\<open>bview\<close>) is what
  the log makes atomic.
\<close>

unbundle bit_operations_syntax

section \<open>State\<close>

definition T_DIR :: int where [simp]: "T_DIR = 1"
definition T_FILE :: int where [simp]: "T_FILE = 2"
definition T_DEV :: int where [simp]: "T_DEV = 3"

record inode =
  i_dev :: nat
  i_inum :: nat
  i_ref :: int
  i_valid :: bool
  i_type :: int
  i_major :: int
  i_minor :: int
  i_nlink :: int
  i_size :: nat
  i_addrs :: "nat list"

record kfs = klog +
  sb :: superblock
  icache :: "inode list"

abbreviation inode_at :: "'z kfs_scheme \<Rightarrow> nat \<Rightarrow> inode" where
  "inode_at s i \<equiv> icache s ! i"

definition iget_f :: "nat \<Rightarrow> (inode \<Rightarrow> 'a) \<Rightarrow> ('z kfs_scheme, 'a) k" where
  "iget_f ip f = kget (\<lambda>s. f (inode_at s ip))"

definition iset :: "nat \<Rightarrow> (inode \<Rightarrow> inode) \<Rightarrow> ('z kfs_scheme, unit) k" where
  "iset ip f = kput (\<lambda>s. s\<lparr>icache := upd ip f (icache s)\<rparr>)"

text \<open>The disk fields of an inode in memory.\<close>

definition to_dinode :: "inode \<Rightarrow> dinode" where
  "to_dinode i = \<lparr>di_type = i_type i, di_major = i_major i, di_minor = i_minor i, di_nlink = i_nlink i,
     di_size = i_size i, di_addrs = i_addrs i\<rparr>"

definition from_dinode :: "dinode \<Rightarrow> inode \<Rightarrow> inode" where
  "from_dinode d i = i\<lparr>i_type := di_type d, i_major := di_major d, i_minor := di_minor d, i_nlink := di_nlink d,
     i_size := di_size d, i_addrs := di_addrs d\<rparr>"

section \<open>Blocks\<close>

definition bzero :: "nat \<Rightarrow> nat \<Rightarrow> ('z klog_scheme, unit) k" where
  "bzero dev bno = bindk (bread dev bno) (\<lambda>bp.
     thenk (bdata_put bp (\<lambda>_. replicate BSIZE 0)) (thenk (log_write bp) (brelse bp)))"

text \<open>Bit \<open>bi\<close> of a block of the free map: \<open>data[bi/8] & (1 << (bi % 8))\<close>.\<close>

definition used_bit :: "block \<Rightarrow> nat \<Rightarrow> bool" where
  "used_bit d bi \<longleftrightarrow> (d ! (bi div 8)) AND push_bit (bi mod 8) 1 \<noteq> 0"

definition set_used :: "nat \<Rightarrow> block \<Rightarrow> block" where
  "set_used bi d = d[bi div 8 := (d ! (bi div 8)) OR push_bit (bi mod 8) 1]"

definition clear_used :: "nat \<Rightarrow> block \<Rightarrow> block" where
  "clear_used bi d = d[bi div 8 := (d ! (bi div 8)) AND NOT (push_bit (bi mod 8) 1)]"

text \<open>The outer loop of \<open>balloc\<close> over the first blocks \<open>b\<close> of each map block; the inner loop is the
  search for the first clear bit.\<close>

primrec balloc_loop :: "nat \<Rightarrow> nat list \<Rightarrow> ('z kfs_scheme, nat) k" where
  "balloc_loop dev [] = kpanic ''balloc: out of blocks''"
| "balloc_loop dev (b # bs) = bindk (kget sb) (\<lambda>sb. bindk (bread dev (BBLOCK b sb)) (\<lambda>bp. bindk (bdata_get bp) (\<lambda>d.
     case find (\<lambda>bi. \<not> used_bit d bi) [0..<min BPB (sb_size sb - b)] of
       Some bi \<Rightarrow> thenk (bdata_put bp (set_used bi))
         (thenk (log_write bp) (thenk (brelse bp) (thenk (bzero dev (b + bi)) (kret (b + bi)))))
     | None \<Rightarrow> thenk (brelse bp) (balloc_loop dev bs))))"

definition map_starts :: "nat \<Rightarrow> nat list" where
  "map_starts n = map (\<lambda>j. j * BPB) [0..<(n + BPB - 1) div BPB]"

definition balloc :: "nat \<Rightarrow> ('z kfs_scheme, nat) k" where
  "balloc dev = bindk (kget (\<lambda>s. sb_size (sb s))) (\<lambda>n. balloc_loop dev (map_starts n))"

definition bfree :: "nat \<Rightarrow> nat \<Rightarrow> ('z kfs_scheme, unit) k" where
  "bfree dev b = bindk (kget sb) (\<lambda>sb. bindk (bread dev (BBLOCK b sb)) (\<lambda>bp. bindk (bdata_get bp) (\<lambda>d.
     if \<not> used_bit d (b mod BPB) then kpanic ''freeing free block''
     else thenk (bdata_put bp (clear_used (b mod BPB))) (thenk (log_write bp) (brelse bp)))))"

section \<open>Inodes\<close>

definition iinit :: "nat \<Rightarrow> ('z kfs_scheme, unit) k" where
  "iinit dev = thenk (eachk (\<lambda>i. initsleeplock (InodeSl i)) [0..<NINODE])
     (bindk (readsb dev) (\<lambda>x. kput (\<lambda>s. s\<lparr>sb := x\<rparr>)))"

text \<open>Recycling remembers the first entry with \<open>ref == 0\<close>.\<close>

definition iget :: "nat \<Rightarrow> nat \<Rightarrow> ('z kfs_scheme, nat) k" where
  "iget dev inum = thenk (lock IcacheLk) (bindk (kget icache) (\<lambda>ic.
     case scan (\<lambda>i. 0 < i_ref i \<and> i_dev i = dev \<and> i_inum i = inum) ic of
       Some ip \<Rightarrow> thenk (iset ip (\<lambda>i. i\<lparr>i_ref := s32 (i_ref i + 1)\<rparr>)) (thenk (unlock IcacheLk) (kret ip))
     | None \<Rightarrow> (case scan (\<lambda>i. i_ref i = 0) ic of
         None \<Rightarrow> kpanic ''iget: no inodes''
       | Some ip \<Rightarrow> thenk (iset ip (\<lambda>i. i\<lparr>i_dev := dev, i_inum := inum, i_ref := 1, i_valid := False\<rparr>))
           (thenk (unlock IcacheLk) (kret ip)))))"

primrec ialloc_loop :: "nat \<Rightarrow> int \<Rightarrow> nat list \<Rightarrow> ('z kfs_scheme, nat) k" where
  "ialloc_loop dev type [] = kpanic ''ialloc: no inodes''"
| "ialloc_loop dev type (inum # is) = bindk (kget sb) (\<lambda>sb. bindk (bread dev (IBLOCK inum sb)) (\<lambda>bp.
     bindk (bdata_get bp) (\<lambda>d. if di_type (get_dinode (64 * (inum mod IPB)) d) = 0
       then thenk (bdata_put bp (put_dinode (64 * (inum mod IPB)) \<lparr>di_type = type, di_major = 0, di_minor = 0,
              di_nlink = 0, di_size = 0, di_addrs = replicate (NDIRECT + 1) 0\<rparr>))
            (thenk (log_write bp) (thenk (brelse bp) (iget dev inum)))
       else thenk (brelse bp) (ialloc_loop dev type is))))"

definition ialloc :: "nat \<Rightarrow> int \<Rightarrow> ('z kfs_scheme, nat) k" where
  "ialloc dev type = bindk (kget (\<lambda>s. sb_ninodes (sb s))) (\<lambda>n. ialloc_loop dev type [1..<n])"

definition iupdate :: "nat \<Rightarrow> ('z kfs_scheme, unit) k" where
  "iupdate ip = bindk (iget_f ip i_dev) (\<lambda>dev. bindk (iget_f ip i_inum) (\<lambda>inum. bindk (kget sb) (\<lambda>sb.
     bindk (bread dev (IBLOCK inum sb)) (\<lambda>bp. bindk (iget_f ip to_dinode) (\<lambda>di.
     thenk (bdata_put bp (put_dinode (64 * (inum mod IPB)) di)) (thenk (log_write bp) (brelse bp)))))))"

definition idup :: "nat \<Rightarrow> ('z kfs_scheme, nat) k" where
  "idup ip = thenk (lock IcacheLk) (thenk (iset ip (\<lambda>i. i\<lparr>i_ref := s32 (i_ref i + 1)\<rparr>))
     (thenk (unlock IcacheLk) (kret ip)))"

definition ilock :: "nat option \<Rightarrow> ('z kfs_scheme, unit) k" where
  "ilock ipo = (case ipo of None \<Rightarrow> kpanic ''ilock'' | Some ip \<Rightarrow>
     bindk (iget_f ip i_ref) (\<lambda>r. if r < 1 then kpanic ''ilock'' else
     thenk (acquiresleep (InodeSl ip)) (bindk (iget_f ip i_valid) (\<lambda>v. whenk (\<not> v)
       (bindk (iget_f ip i_dev) (\<lambda>dev. bindk (iget_f ip i_inum) (\<lambda>inum. bindk (kget sb) (\<lambda>sb.
        bindk (bread dev (IBLOCK inum sb)) (\<lambda>bp. bindk (bdata_get bp) (\<lambda>d.
        thenk (iset ip (from_dinode (get_dinode (64 * (inum mod IPB)) d)))
        (thenk (brelse bp) (thenk (iset ip (\<lambda>i. i\<lparr>i_valid := True\<rparr>))
        (bindk (iget_f ip i_type) (\<lambda>t. if t = 0 then kpanic ''ilock: no type'' else kret ()))))))))))))))"

definition iunlock :: "nat option \<Rightarrow> ('z kfs_scheme, unit) k" where
  "iunlock ipo = (case ipo of None \<Rightarrow> kpanic ''iunlock'' | Some ip \<Rightarrow>
     bindk (holdingsleep (InodeSl ip)) (\<lambda>h. bindk (iget_f ip i_ref) (\<lambda>r.
       if \<not> h \<or> r < 1 then kpanic ''iunlock'' else releasesleep (InodeSl ip))))"

section \<open>Contents\<close>

definition bmap :: "nat \<Rightarrow> nat \<Rightarrow> ('z kfs_scheme, nat) k" where
  "bmap ip bn = bindk (iget_f ip i_dev) (\<lambda>dev.
     if bn < NDIRECT then bindk (iget_f ip (\<lambda>i. i_addrs i ! bn)) (\<lambda>addr.
       if addr = 0 then bindk (balloc dev) (\<lambda>addr.
         thenk (iset ip (\<lambda>i. i\<lparr>i_addrs := (i_addrs i)[bn := addr]\<rparr>)) (kret addr))
       else kret addr)
     else if bn - NDIRECT < NINDIRECT then bindk (iget_f ip (\<lambda>i. i_addrs i ! NDIRECT)) (\<lambda>addr.
       bindk (if addr = 0 then bindk (balloc dev) (\<lambda>addr.
           thenk (iset ip (\<lambda>i. i\<lparr>i_addrs := (i_addrs i)[NDIRECT := addr]\<rparr>)) (kret addr))
         else kret addr) (\<lambda>addr.
       bindk (bread dev addr) (\<lambda>bp. bindk (bdata_get bp) (\<lambda>d.
       bindk (if get32 (4 * (bn - NDIRECT)) d = 0 then bindk (balloc dev) (\<lambda>addr.
           thenk (bdata_put bp (put32 (4 * (bn - NDIRECT)) addr)) (thenk (log_write bp) (kret addr)))
         else kret (get32 (4 * (bn - NDIRECT)) d)) (\<lambda>addr.
       thenk (brelse bp) (kret addr))))))
     else kpanic ''bmap: out of range'')"

text \<open>The body of the first loop of \<open>itrunc\<close>.\<close>

definition itrunc_direct :: "nat \<Rightarrow> nat \<Rightarrow> ('z kfs_scheme, unit) k" where
  "itrunc_direct ip j = bindk (iget_f ip i_dev) (\<lambda>dev. bindk (iget_f ip (\<lambda>i. i_addrs i ! j)) (\<lambda>a. whenk (a \<noteq> 0)
     (thenk (bfree dev a) (iset ip (\<lambda>i. i\<lparr>i_addrs := (i_addrs i)[j := 0]\<rparr>)))))"

definition itrunc :: "nat \<Rightarrow> ('z kfs_scheme, unit) k" where
  "itrunc ip = (thenk (eachk (itrunc_direct ip) [0..<NDIRECT])
     (bindk (iget_f ip i_dev) (\<lambda>dev.
     bindk (iget_f ip (\<lambda>i. i_addrs i ! NDIRECT)) (\<lambda>ind.
     thenk (whenk (ind \<noteq> 0) (bindk (bread dev ind) (\<lambda>bp. bindk (bdata_get bp) (\<lambda>d.
       thenk (eachk (\<lambda>j. whenk (get32 (4 * j) d \<noteq> 0) (bfree dev (get32 (4 * j) d))) [0..<NINDIRECT])
       (thenk (brelse bp) (thenk (bfree dev ind)
       (iset ip (\<lambda>i. i\<lparr>i_addrs := (i_addrs i)[NDIRECT := 0]\<rparr>))))))))
     (thenk (iset ip (\<lambda>i. i\<lparr>i_size := 0\<rparr>))
     (iupdate ip))))))"

definition iput :: "nat \<Rightarrow> ('z kfs_scheme, unit) k" where
  "iput ip = (thenk (acquiresleep (InodeSl ip))
     (bindk (iget_f ip (\<lambda>i. i_valid i \<and> i_nlink i = 0)) (\<lambda>dead.
     thenk (whenk dead (thenk (lock IcacheLk) (bindk (iget_f ip i_ref) (\<lambda>r. thenk (unlock IcacheLk)
       (whenk (r = 1) (thenk (itrunc ip) (thenk (iset ip (\<lambda>i. i\<lparr>i_type := 0\<rparr>))
         (thenk (iupdate ip) (iset ip (\<lambda>i. i\<lparr>i_valid := False\<rparr>))))))))))
     (thenk (releasesleep (InodeSl ip))
     (thenk (lock IcacheLk) (thenk (iset ip (\<lambda>i. i\<lparr>i_ref := s32 (i_ref i - 1)\<rparr>)) (unlock IcacheLk)))))))"

definition iunlockput :: "nat \<Rightarrow> ('z kfs_scheme, unit) k" where
  "iunlockput ip = thenk (iunlock (Some ip)) (iput ip)"

text \<open>\<open>struct stat\<close>.\<close>

record stat =
  st_type :: int
  st_dev :: nat
  st_ino :: nat
  st_nlink :: int
  st_size :: nat

definition stati :: "nat \<Rightarrow> ('z kfs_scheme, stat) k" where
  "stati ip = iget_f ip (\<lambda>i. \<lparr>st_type = i_type i, st_dev = i_dev i, st_ino = i_inum i, st_nlink = i_nlink i,
     st_size = i_size i\<rparr>)"

section \<open>A machine that has booted\<close>

definition zero_inode :: inode where
  "zero_inode = \<lparr>i_dev = 0, i_inum = 0, i_ref = 0, i_valid = False, i_type = 0, i_major = 0, i_minor = 0,
     i_nlink = 0, i_size = 0, i_addrs = replicate (NDIRECT + 1) 0\<rparr>"

definition boot_kfs :: "(nat \<Rightarrow> block) \<Rightarrow> kfs" where
  "boot_kfs d = klog.extend (boot_klog d) \<lparr>sb = get_superblock (d 1), icache = replicate NINODE zero_inode\<rparr>"

end
