(* ===== verification/Vm.thy ===== *)
theory Vm
  imports Kalloc
begin

text \<open>
  Page tables (vm.c). A page directory and the page tables it points to are pages of kernel memory;
  an entry is a 32-bit word with the physical address of a page in its upper 20 bits and flags below.
  \<open>entry\<close> reads the entry of a virtual address the way the processor does, with 0 for an address
  whose page table is missing; the lemmas state what the operations do to this function.
\<close>

unbundle bit_operations_syntax

section \<open>Entries\<close>

definition PDX :: "nat \<Rightarrow> nat" where
  "PDX va = va div 2 ^ 22 mod 1024"

definition PTX :: "nat \<Rightarrow> nat" where
  "PTX va = va div 2 ^ 12 mod 1024"

definition PGADDR :: "nat \<Rightarrow> nat \<Rightarrow> nat \<Rightarrow> nat" where
  "PGADDR d t off = d * 2 ^ 22 + t * 2 ^ 12 + off"

definition PTE_P :: nat where [simp]: "PTE_P = 1"
definition PTE_W :: nat where [simp]: "PTE_W = 2"
definition PTE_U :: nat where [simp]: "PTE_U = 4"
definition NPDENTRIES :: nat where [simp]: "NPDENTRIES = 1024"

definition has_flag :: "nat \<Rightarrow> nat \<Rightarrow> bool" where
  "has_flag f e \<longleftrightarrow> e AND f \<noteq> 0"

definition PTE_ADDR :: "nat \<Rightarrow> nat" where
  "PTE_ADDR e = e - e mod 4096"

definition PTE_FLAGS :: "nat \<Rightarrow> nat" where
  "PTE_FLAGS e = e mod 4096"

section \<open>Operations\<close>

definition ldw :: "nat \<Rightarrow> ('z kkmem_scheme, nat) k" where
  "ldw a = kget (\<lambda>s. ld32 (memory s) a)"

definition stw :: "nat \<Rightarrow> nat \<Rightarrow> ('z kkmem_scheme, unit) k" where
  "stw a v = kput (\<lambda>s. s\<lparr>memory := st32 a v (memory s)\<rparr>)"

definition zero_page :: "nat \<Rightarrow> ('z kkmem_scheme, unit) k" where
  "zero_page a = kput (\<lambda>s. s\<lparr>memory := memset a 0 PGSIZE (memory s)\<rparr>)"

definition walkpgdir :: "nat \<Rightarrow> nat \<Rightarrow> bool \<Rightarrow> ('z kkmem_scheme, nat) k" where
  "walkpgdir pd va alloc = bindk (ldw (pd + 4 * PDX va)) (\<lambda>pde.
     if has_flag PTE_P pde then kret (P2V (PTE_ADDR pde) + 4 * PTX va)
     else if \<not> alloc then kret 0
     else bindk kalloc (\<lambda>pgtab. if pgtab = 0 then kret 0
       else thenk (zero_page pgtab)
         (thenk (stw (pd + 4 * PDX va) (V2P pgtab OR PTE_P OR PTE_W OR PTE_U))
           (kret (pgtab + 4 * PTX va)))))"

text \<open>The loop of \<open>mappages\<close> goes from page to page until it has mapped \<open>last\<close>; the first argument
  bounds the number of passes.\<close>

primrec mappages_loop :: "nat \<Rightarrow> nat \<Rightarrow> nat \<Rightarrow> nat \<Rightarrow> nat \<Rightarrow> nat \<Rightarrow> ('z kkmem_scheme, int) k" where
  "mappages_loop 0 pd a l pa perm = (\<lambda>_. Hang)"
| "mappages_loop (Suc k) pd a l pa perm = bindk (walkpgdir pd a True) (\<lambda>pte.
     if pte = 0 then kret (- 1)
     else bindk (ldw pte) (\<lambda>e. if has_flag PTE_P e then kpanic ''remap''
       else thenk (stw pte (pa OR perm OR PTE_P))
         (if a = l then kret 0
          else mappages_loop k pd (n32 (a + PGSIZE)) l (n32 (pa + PGSIZE)) perm)))"

text \<open>Two page numbers differ by less than \<open>2 ^ 20\<close>, so that many passes reach \<open>last\<close>.\<close>

definition mappages :: "nat \<Rightarrow> nat \<Rightarrow> nat \<Rightarrow> nat \<Rightarrow> nat \<Rightarrow> ('z kkmem_scheme, int) k" where
  "mappages pd va n pa perm =
     mappages_loop (2 ^ 20) pd (PGROUNDDOWN va) (PGROUNDDOWN (n32 (va + n + (2 ^ 32 - 1)))) pa perm"

lemma next_table: "a < PGADDR (a div 2 ^ 22 + 1) 0 0"
  using dividend_less_div_times [of "2 ^ 22" a] by (simp add: PGADDR_def)

text \<open>The loop of \<open>deallocuvm\<close>; a missing page table skips to the next 4 MB. Process sizes stay below
  \<open>KERNBASE\<close>, so that the address does not wrap and \<open>PDX(a)\<close> is \<open>a div 2 ^ 22\<close>.\<close>

function deallocuvm_loop :: "nat \<Rightarrow> nat \<Rightarrow> nat \<Rightarrow> ('z kkmem_scheme, unit) k" where
  "deallocuvm_loop pd a oldsz =
     (if a < oldsz then bindk (walkpgdir pd a False) (\<lambda>pte.
        if pte = 0 then deallocuvm_loop pd (PGADDR (a div 2 ^ 22 + 1) 0 0) oldsz
        else bindk (ldw pte) (\<lambda>e.
          if has_flag PTE_P e
          then if PTE_ADDR e = 0 then kpanic ''kfree''
               else thenk (kfree (P2V (PTE_ADDR e))) (thenk (stw pte 0) (deallocuvm_loop pd (a + PGSIZE) oldsz))
          else deallocuvm_loop pd (a + PGSIZE) oldsz))
      else kret ())"
  by pat_completeness auto

termination
  by (relation "measure (\<lambda>(pd, a, oldsz). oldsz - a)") (use next_table in \<open>auto intro!: diff_less_mono2\<close>)

declare deallocuvm_loop.simps [simp del]

definition deallocuvm :: "nat \<Rightarrow> nat \<Rightarrow> nat \<Rightarrow> ('z kkmem_scheme, nat) k" where
  "deallocuvm pd oldsz newsz = (if oldsz \<le> newsz then kret oldsz
     else thenk (deallocuvm_loop pd (PGROUNDUP newsz) oldsz) (kret newsz))"

definition freevm :: "nat \<Rightarrow> ('z kkmem_scheme, unit) k" where
  "freevm pd = (if pd = 0 then kpanic ''freevm: no pgdir''
     else thenk (deallocuvm pd KERNBASE 0)
       (thenk (eachk (\<lambda>i. bindk (ldw (pd + 4 * i)) (\<lambda>e.
            whenk (has_flag PTE_P e) (kfree (P2V (PTE_ADDR e))))) [0..<NPDENTRIES])
          (kfree pd)))"

text \<open>\<open>kmap\<close>: virtual start, physical start and end, permissions of the kernel's mappings.\<close>

definition kmap :: "nat \<Rightarrow> (nat \<times> nat \<times> nat \<times> nat) list" where
  "kmap data = [(KERNBASE, 0, EXTMEM, PTE_W), (KERNLINK, V2P KERNLINK, V2P data, 0),
     (data, V2P data, PHYSTOP, PTE_W), (DEVSPACE, DEVSPACE, 0, PTE_W)]"

primrec setupkvm_loop :: "nat \<Rightarrow> (nat \<times> nat \<times> nat \<times> nat) list \<Rightarrow> ('z kkmem_scheme, nat) k" where
  "setupkvm_loop pd [] = kret pd"
| "setupkvm_loop pd (m # ms) = (case m of (virt, phys_start, phys_end, perm) \<Rightarrow>
     bindk (mappages pd virt (n32 (phys_end + (2 ^ 32 - phys_start))) phys_start perm) (\<lambda>r.
       if r < 0 then thenk (freevm pd) (kret 0) else setupkvm_loop pd ms))"

definition setupkvm :: "('z kkmem_scheme, nat) k" where
  "setupkvm = bindk kalloc (\<lambda>pd. if pd = 0 then kret 0
     else thenk (zero_page pd)
       (if DEVSPACE < P2V PHYSTOP then kpanic ''PHYSTOP too high''
        else bindk (kget kdata) (\<lambda>d. setupkvm_loop pd (kmap d))))"

definition kvmalloc :: "('z kkmem_scheme, unit) k" where
  "kvmalloc = bindk setupkvm (\<lambda>p. thenk (kput (\<lambda>s. s\<lparr>kpgdir := p\<rparr>)) switchkvm)"

text \<open>\<open>init\<close> is the text of initcode.S that the linker puts into the kernel image.\<close>

definition inituvm :: "nat \<Rightarrow> u8 list \<Rightarrow> ('z kkmem_scheme, unit) k" where
  "inituvm pd init = (if PGSIZE \<le> length init then kpanic ''inituvm: more than a page''
     else bindk kalloc (\<lambda>mem. if mem = 0 then kfault ''null page''
       else thenk (zero_page mem) (thenk (mappages pd 0 PGSIZE (V2P mem) (PTE_W OR PTE_U))
         (kput (\<lambda>s. s\<lparr>memory := wr mem init (memory s)\<rparr>)))))"

function allocuvm_loop :: "nat \<Rightarrow> nat \<Rightarrow> nat \<Rightarrow> nat \<Rightarrow> ('z kkmem_scheme, nat) k" where
  "allocuvm_loop pd a oldsz newsz =
     (if a < newsz then bindk kalloc (\<lambda>mem.
        if mem = 0 then thenk (deallocuvm pd newsz oldsz) (kret 0)
        else thenk (zero_page mem)
          (bindk (mappages pd a PGSIZE (V2P mem) (PTE_W OR PTE_U)) (\<lambda>r.
             if r < 0 then thenk (deallocuvm pd newsz oldsz) (thenk (kfree mem) (kret 0))
             else allocuvm_loop pd (a + PGSIZE) oldsz newsz)))
      else kret newsz)"
  by pat_completeness auto
termination by (relation "measure (\<lambda>(pd, a, oldsz, newsz). newsz - a)") auto

declare allocuvm_loop.simps [simp del]

definition allocuvm :: "nat \<Rightarrow> nat \<Rightarrow> nat \<Rightarrow> ('z kkmem_scheme, nat) k" where
  "allocuvm pd oldsz newsz = (if KERNBASE \<le> newsz then kret 0 else if newsz < oldsz then kret oldsz
     else allocuvm_loop pd (PGROUNDUP oldsz) oldsz newsz)"

definition clearpteu :: "nat \<Rightarrow> nat \<Rightarrow> ('z kkmem_scheme, unit) k" where
  "clearpteu pd uva = bindk (walkpgdir pd uva False) (\<lambda>pte.
     if pte = 0 then kpanic ''clearpteu''
     else bindk (ldw pte) (\<lambda>e. stw pte (if has_flag PTE_U e then e - PTE_U else e)))"

function copyuvm_loop :: "nat \<Rightarrow> nat \<Rightarrow> nat \<Rightarrow> nat \<Rightarrow> ('z kkmem_scheme, nat) k" where
  "copyuvm_loop pd d i n =
     (if i < n then bindk (walkpgdir pd i False) (\<lambda>pte.
        if pte = 0 then kpanic ''copyuvm: pte should exist''
        else bindk (ldw pte) (\<lambda>e.
          if \<not> has_flag PTE_P e then kpanic ''copyuvm: page not present''
          else bindk kalloc (\<lambda>mem. if mem = 0 then thenk (freevm d) (kret 0)
            else thenk (kput (\<lambda>s. s\<lparr>memory := memmove mem (P2V (PTE_ADDR e)) PGSIZE (memory s)\<rparr>))
              (bindk (mappages d i PGSIZE (V2P mem) (PTE_FLAGS e)) (\<lambda>r.
                 if r < 0 then thenk (kfree mem) (thenk (freevm d) (kret 0))
                 else copyuvm_loop pd d (i + PGSIZE) n)))))
      else kret d)"
  by pat_completeness auto
termination by (relation "measure (\<lambda>(pd, d, i, n). n - i)") auto

declare copyuvm_loop.simps [simp del]

definition copyuvm :: "nat \<Rightarrow> nat \<Rightarrow> ('z kkmem_scheme, nat) k" where
  "copyuvm pd n = bindk setupkvm (\<lambda>d. if d = 0 then kret 0 else copyuvm_loop pd d 0 n)"

definition uva2ka :: "nat \<Rightarrow> nat \<Rightarrow> ('z kkmem_scheme, nat) k" where
  "uva2ka pd uva = bindk (walkpgdir pd uva False) (\<lambda>pte.
     if pte = 0 then kfault ''null pte''
     else bindk (ldw pte) (\<lambda>e. if \<not> has_flag PTE_P e then kret 0
       else if \<not> has_flag PTE_U e then kret 0
       else kret (P2V (PTE_ADDR e))))"

lemma page_offset: "va - PGROUNDDOWN va < PGSIZE"
  using PGROUNDDOWN_le [of va] by simp

text \<open>\<open>copyout\<close>, with the bytes at \<open>p\<close> as a list.\<close>

function copyout :: "nat \<Rightarrow> nat \<Rightarrow> u8 list \<Rightarrow> ('z kkmem_scheme, int) k" where
  "copyout pd va buf = (if buf = [] then kret 0 else
     let va0 = PGROUNDDOWN va; n = min (PGSIZE - (va - va0)) (length buf) in
     bindk (uva2ka pd va0) (\<lambda>pa0. if pa0 = 0 then kret (- 1)
       else thenk (kput (\<lambda>s. s\<lparr>memory := wr (pa0 + (va - va0)) (take n buf) (memory s)\<rparr>))
         (copyout pd (n32 (va0 + PGSIZE)) (drop n buf))))"
  by pat_completeness auto

termination
proof (relation "measure (\<lambda>(pd, va, buf). length buf)", goal_cases)
  case (2 pd va buf va0 n)
  have "0 < PGSIZE - (va - PGROUNDDOWN va)" using page_offset [of va] by simp
  then show ?case using 2 by (cases buf) auto
qed simp

declare copyout.simps [simp del]

section \<open>What a page table maps\<close>

lemma has_flag_P [simp]: "has_flag (Suc 0) e \<longleftrightarrow> odd e"
  by (simp add: has_flag_def flip: One_nat_def) (simp add: and_one_eq odd_iff_mod_2_eq_one)

lemma has_flag_U: "has_flag 4 e \<longleftrightarrow> bit e 2"
  using and_exp_eq_0_iff_not_bit [of e 2] by (simp add: has_flag_def)

lemma has_flag_W: "has_flag 2 e \<longleftrightarrow> bit e 1"
  using and_exp_eq_0_iff_not_bit [of e 1] by (simp add: has_flag_def)

lemma or_flags:
  assumes "pa mod 4096 = 0" "f < 4096"
  shows "(pa :: nat) OR f = pa + f"
proof -
  have "take_bit 12 pa = 0" "take_bit 12 f = f" using assms by (simp_all add: take_bit_eq_mod)
  then have "\<not> (bit pa i \<and> bit f i)" for i
    by (metis bit_0_eq bit_take_bit_iff bot_apply bot_bool_def)
  then have "pa AND f = 0" by (intro bit_eqI) (simp add: bit_and_iff)
  then show ?thesis by (simp add: disjunctive_add_eq_or)
qed

lemma flags_less:
  assumes "f < 4096" "g < 4096"
  shows "(f :: nat) OR g < 4096"
proof -
  have "take_bit 12 f = f" "take_bit 12 g = g" using assms by (simp_all add: take_bit_eq_mod)
  then have "take_bit 12 (f OR g) = f OR g" by (simp only: take_bit_or)
  moreover have "take_bit 12 (f OR g) < 2 ^ 12" by (rule take_bit_nat_less_exp)
  ultimately show ?thesis by simp
qed

abbreviation pde :: "mem \<Rightarrow> nat \<Rightarrow> nat \<Rightarrow> nat" where
  "pde m pd i \<equiv> ld32 m (pd + 4 * i)"

definition pgtab :: "mem \<Rightarrow> nat \<Rightarrow> nat \<Rightarrow> nat" where
  "pgtab m pd i = P2V (PTE_ADDR (pde m pd i))"

definition entry :: "mem \<Rightarrow> nat \<Rightarrow> nat \<Rightarrow> nat" where
  "entry m pd va = (if odd (pde m pd (PDX va)) then ld32 m (pgtab m pd (PDX va) + 4 * PTX va) else 0)"

text \<open>The directory and its tables are pages of their own, none of them free, and no table is used
  twice.\<close>

definition vm_ok :: "'z kkmem_scheme \<Rightarrow> nat \<Rightarrow> nat list \<Rightarrow> bool" where
  "vm_ok s pd xs \<longleftrightarrow> free_pages s xs \<and> page_ok (kend s) pd \<and> pd \<notin> set xs
     \<and> (\<forall>i < 1024. odd (pde (memory s) pd i) \<longrightarrow> page_ok (kend s) (pgtab (memory s) pd i)
          \<and> pgtab (memory s) pd i \<notin> set xs \<and> pgtab (memory s) pd i \<noteq> pd)
     \<and> (\<forall>i < 1024. \<forall>j < 1024. odd (pde (memory s) pd i) \<longrightarrow> odd (pde (memory s) pd j) \<longrightarrow>
          pgtab (memory s) pd i = pgtab (memory s) pd j \<longrightarrow> i = j)"

lemma vm_okD:
  assumes "vm_ok s pd xs"
  shows "free_pages s xs" "page_ok (kend s) pd" "pd \<notin> set xs"
    "i < 1024 \<Longrightarrow> odd (pde (memory s) pd i) \<Longrightarrow> page_ok (kend s) (pgtab (memory s) pd i)"
    "i < 1024 \<Longrightarrow> odd (pde (memory s) pd i) \<Longrightarrow> pgtab (memory s) pd i \<notin> set xs"
    "i < 1024 \<Longrightarrow> odd (pde (memory s) pd i) \<Longrightarrow> pgtab (memory s) pd i \<noteq> pd"
    "i < 1024 \<Longrightarrow> j < 1024 \<Longrightarrow> odd (pde (memory s) pd i) \<Longrightarrow> odd (pde (memory s) pd j) \<Longrightarrow>
       pgtab (memory s) pd i = pgtab (memory s) pd j \<Longrightarrow> i = j"
  using assms unfolding vm_ok_def by blast+

text \<open>A word of one page and a word of another do not overlap, nor do two words of one page.\<close>

lemma word_in_page:
  assumes "page_ok e v" "page_ok e w" "i < 1024" "j < 1024" "v \<noteq> w \<or> i \<noteq> j"
  shows "v + 4 * i + 4 \<le> w + 4 * j \<or> w + 4 * j + 4 \<le> v + 4 * i"
proof (cases "v = w")
  case True
  then have "i < j \<or> j < i" using assms(5) by auto
  then show ?thesis using True by linarith
next
  case False
  have "v mod 4096 = 0" "w mod 4096 = 0" using assms(1,2) by (simp_all add: page_ok_def)
  from pages_disjoint [OF this False] show ?thesis using assms(3,4) by linarith
qed

lemma ld32_page [simp]:
  "page_ok e v \<Longrightarrow> page_ok e w \<Longrightarrow> i < 1024 \<Longrightarrow> j < 1024 \<Longrightarrow> v \<noteq> w \<or> i \<noteq> j \<Longrightarrow>
   ld32 (st32 (v + 4 * i) x m) (w + 4 * j) = ld32 m (w + 4 * j)"
  using word_in_page [of e v w i j] by (intro ld32_st32_other) auto

lemma PDX_less [simp]: "PDX va < 1024" and PTX_less [simp]: "PTX va < 1024"
  by (simp_all add: PDX_def PTX_def)

lemma same_page:
  assumes "a < 2 ^ 32" "b < 2 ^ 32"
  shows "PDX a = PDX b \<and> PTX a = PTX b \<longleftrightarrow> a div 4096 = b div 4096"
proof -
  have p: "PDX x = x div 4096 div 1024" if "x < 2 ^ 32" for x
  proof -
    have "x div 4096 div 1024 < 1024" using that by (simp add: div_mult2_eq [symmetric] less_mult_imp_div_less)
    then show ?thesis by (simp add: PDX_def div_mult2_eq [symmetric])
  qed
  have "x = y" if "x div 1024 = y div 1024" "x mod 1024 = y mod 1024" for x y :: nat
    using div_mult_mod_eq [of x 1024] div_mult_mod_eq [of y 1024] unfolding that by (rule trans [OF sym])
  then have iff: "(x div 1024 = y div 1024 \<and> x mod 1024 = y mod 1024) \<longleftrightarrow> x = y" for x y :: nat by blast
  have "PTX x = x div 4096 mod 1024" for x by (simp add: PTX_def)
  then show ?thesis using p [OF assms(1)] p [OF assms(2)] iff [of "a div 4096" "b div 4096"] by (simp only:)
qed

lemma entry_less: "entry m pd va < 2 ^ 32"
  using ld32_bound by (simp add: entry_def)

text \<open>Storing an entry.\<close>

lemma set_entry:
  assumes ok: "vm_ok s pd xs" and p: "odd (pde (memory s) pd (PDX va))" and v: "v < 2 ^ 32" and va: "va < 2 ^ 32"
  defines "m \<equiv> st32 (pgtab (memory s) pd (PDX va) + 4 * PTX va) v (memory s)"
  shows "vm_ok (s\<lparr>memory := m\<rparr>) pd xs"
    "w < 2 ^ 32 \<Longrightarrow> entry m pd w = (if w div 4096 = va div 4096 then v else entry (memory s) pd w)"
proof -
  let ?t = "pgtab (memory s) pd (PDX va)"
  note d = vm_okD [OF ok]
  have t: "page_ok (kend s) ?t" "?t \<noteq> pd" "?t \<notin> set xs" using d(4-6) p by simp_all
  have pd: "pde m pd i = pde (memory s) pd i" if "i < 1024" for i
    unfolding m_def using t d(2) that by (intro ld32_page [of "kend s"]) auto
  then have pt: "pgtab m pd i = pgtab (memory s) pd i" if "i < 1024" for i using that by (simp add: pgtab_def)
  have "ld32 m x = ld32 (memory s) x" if "x \<in> set xs" for x
  proof -
    have "page_ok (kend s) x" "x \<noteq> ?t" using d(1) that t(3) by (auto simp: free_pages_def)
    then show ?thesis using ld32_page [of "kend s" ?t x "PTX va" 0 v "memory s"] t(1) by (simp add: m_def)
  qed
  then have "linked m (freelist s) xs" using d(1) linked_cong [of xs m "memory s"] by (simp add: free_pages_def)
  then have "free_pages (s\<lparr>memory := m\<rparr>) xs" using d(1) by (simp add: free_pages_def)
  then show "vm_ok (s\<lparr>memory := m\<rparr>) pd xs"
    using d(2-7) pd pt by (auto simp: vm_ok_def)
  assume w: "w < 2 ^ 32"
  show "entry m pd w = (if w div 4096 = va div 4096 then v else entry (memory s) pd w)"
  proof (cases "w div 4096 = va div 4096")
    case True
    then have "PDX w = PDX va" "PTX w = PTX va" using same_page [OF w va] by auto
    then show ?thesis using True p v pd [of "PDX va"] pt [of "PDX va"] by (simp add: entry_def m_def)
  next
    case False
    then have ne: "PDX w \<noteq> PDX va \<or> PTX w \<noteq> PTX va" using same_page [OF w va] by auto
    have "ld32 m (pgtab (memory s) pd (PDX w) + 4 * PTX w) = ld32 (memory s) (pgtab (memory s) pd (PDX w) + 4 * PTX w)"
      if "odd (pde (memory s) pd (PDX w))"
      unfolding m_def using t d(4) [OF _ that] ne d(7) [OF _ _ that p] by (intro ld32_page [of "kend s"]) auto
    then show ?thesis using False pd [of "PDX w"] pt [of "PDX w"] by (simp add: entry_def)
  qed
qed

lemma ld32_memset_other:
  assumes "page_ok e v" "page_ok e w" "j < 1024" "v \<noteq> w"
  shows "ld32 (memset v c PGSIZE m) (w + 4 * j) = ld32 m (w + 4 * j)"
proof (rule ld32_cong)
  fix i :: nat assume i: "i < 4"
  have "v mod 4096 = 0" "w mod 4096 = 0" using assms by (simp_all add: page_ok_def)
  from pages_disjoint [OF this assms(4)] show "memset v c PGSIZE m (w + 4 * j + i) = m (w + 4 * j + i)"
    using i assms(3) by (auto simp: memset_at)
qed

lemma ld32_zero_page: "j < 1024 \<Longrightarrow> ld32 (memset v 0 PGSIZE m) (v + 4 * j) = 0"
  by (simp add: ld32_def memset_at)

lemma table_entry:
  assumes "page_ok e x"
  shows "V2P x OR PTE_P OR PTE_W OR PTE_U = V2P x + 7" "PTE_ADDR (V2P x + 7) = V2P x" "odd (V2P x + 7)"
    "V2P x + 7 < 2 ^ 32" "P2V (V2P x) = x" "V2P x mod 4096 = 0" "V2P x < 2 ^ 32"
proof -
  have x: "KERNBASE \<le> x" "x < KERNBASE + PHYSTOP" "x mod 4096 = 0" using assms by (simp_all add: page_ok_def)
  have v: "V2P x = x - KERNBASE" using x by (intro V2P_kva) simp_all
  obtain k where k: "x = 4096 * k" using x(3) by auto
  show a: "V2P x mod 4096 = 0" using v k by (simp add: mod_eq_0_iff_dvd)
  show "V2P x < 2 ^ 32" "V2P x + 7 < 2 ^ 32" using v x by simp_all
  show "P2V (V2P x) = x" using x by (intro P2V_V2P) simp_all
  have "(PTE_P OR PTE_W OR PTE_U :: nat) = 7" by simp
  then show "V2P x OR PTE_P OR PTE_W OR PTE_U = V2P x + 7" using or_flags [OF a, of 7] by simp
  show "PTE_ADDR (V2P x + 7) = V2P x" "odd (V2P x + 7)" using a by (auto simp: PTE_ADDR_def)
qed

lemma new_table:
  assumes ok: "vm_ok s pd (x # xs)" and e: "even (pde (memory s) pd i)" and i: "i < 1024"
  defines "m \<equiv> st32 (pd + 4 * i) (V2P x + 7) (memset x 0 PGSIZE (memory s))"
  shows "vm_ok (s\<lparr>memory := m, freelist := ld32 (memory s) x\<rparr>) pd xs" "odd (pde m pd i)" "pgtab m pd i = x"
    "entry m pd w = entry (memory s) pd w"
proof -
  note d = vm_okD [OF ok]
  have fp: "free_pages s (x # xs)" using d(1) .
  have x: "page_ok (kend s) x" "x \<noteq> pd" "x \<notin> set xs" using fp d(3) by (auto simp: free_pages_def)
  note te = table_entry [OF x(1)]
  have pi: "pde m pd i = V2P x + 7" unfolding m_def using te(4) by simp
  show o: "odd (pde m pd i)" and px: "pgtab m pd i = x" using te pi by (simp_all add: pgtab_def)
  have word: "ld32 m (v + 4 * j) = ld32 (memory s) (v + 4 * j)"
    if "page_ok (kend s) v" "v \<noteq> x" "j < 1024" "v \<noteq> pd \<or> j \<noteq> i" for v j
  proof -
    have "ld32 m (v + 4 * j) = ld32 (memset x 0 PGSIZE (memory s)) (v + 4 * j)"
      unfolding m_def using that d(2) i by (intro ld32_page [of "kend s"]) auto
    also have "\<dots> = ld32 (memory s) (v + 4 * j)" using ld32_memset_other [OF x(1)] that by auto
    finally show ?thesis .
  qed
  have pj: "pde m pd j = pde (memory s) pd j" if "j < 1024" "j \<noteq> i" for j
    using word [OF d(2) _ that(1)] that x(2) by auto
  then have pt: "pgtab m pd j = pgtab (memory s) pd j" if "j < 1024" "j \<noteq> i" for j
    using that by (simp add: pgtab_def)
  have "ld32 m y = ld32 (memory s) y" if "y \<in> set xs" for y
    using word [of y 0] that fp x d(3) by (auto simp: free_pages_def)
  then have "linked m (ld32 (memory s) x) xs"
    using fp linked_cong [of xs m "memory s"] by (simp add: free_pages_def)
  then have "free_pages (s\<lparr>memory := m, freelist := ld32 (memory s) x\<rparr>) xs" using fp by (simp add: free_pages_def)
  moreover have "page_ok (kend s) (pgtab m pd j) \<and> pgtab m pd j \<notin> set xs \<and> pgtab m pd j \<noteq> pd"
    if "j < 1024" "odd (pde m pd j)" for j
    using that x px pj [of j] pt [of j] d(4-6) [of j] by (cases "j = i") auto
  moreover have "j = k" if "j < 1024" "k < 1024" "odd (pde m pd j)" "odd (pde m pd k)" "pgtab m pd j = pgtab m pd k" for j k
    using that px pj pt d(5) [of j] d(5) [of k] d(7) [of j k] by (cases "j = i"; cases "k = i") auto
  ultimately show "vm_ok (s\<lparr>memory := m, freelist := ld32 (memory s) x\<rparr>) pd xs"
    using d(2,3) by (simp add: vm_ok_def)
  show "entry m pd w = entry (memory s) pd w"
  proof (cases "PDX w = i")
    case True
    have "ld32 m (x + 4 * PTX w) = ld32 (memset x 0 PGSIZE (memory s)) (x + 4 * PTX w)"
      unfolding m_def using x d(2) i by (intro ld32_page [of "kend s"]) auto
    then have "ld32 m (x + 4 * PTX w) = 0" using ld32_zero_page by simp
    then show ?thesis using True e o px by (simp add: entry_def)
  next
    case False
    have "ld32 m (pgtab (memory s) pd (PDX w) + 4 * PTX w) = ld32 (memory s) (pgtab (memory s) pd (PDX w) + 4 * PTX w)"
      if "odd (pde (memory s) pd (PDX w))"
      using d(4-6) [OF _ that] by (intro word) auto
    then show ?thesis using False pj [of "PDX w"] pt [of "PDX w"] by (simp add: entry_def)
  qed
qed

lemma kkmem_commute [simp]:
  "s\<lparr>freelist := f, memory := m\<rparr> = s\<lparr>memory := m, freelist := f\<rparr>"
  by (cases s) simp

definition mframe :: "'z kkmem_scheme \<Rightarrow> 'z kkmem_scheme \<Rightarrow> bool" where
  "mframe s t \<longleftrightarrow> (\<exists>m f. t = s\<lparr>memory := m, freelist := f\<rparr>)"

lemma mframeI: "mframe s (s\<lparr>memory := m, freelist := f\<rparr>)"
  by (auto simp: mframe_def)

lemma mframe_simps [simp]: "mframe s s" "mframe s (s\<lparr>memory := m\<rparr>)" "mframe s (s\<lparr>freelist := f\<rparr>)"
  using mframeI [where s = s and m = "memory s" and f = "freelist s"]
    mframeI [where s = s and m = m and f = "freelist s"] mframeI [where s = s and m = "memory s" and f = f]
  by simp_all

lemma mframe_trans: "mframe s t \<Longrightarrow> mframe t u \<Longrightarrow> mframe s u"
proof -
  assume "mframe s t" "mframe t u"
  then obtain m f m' f' where "t = s\<lparr>memory := m, freelist := f\<rparr>" "u = t\<lparr>memory := m', freelist := f'\<rparr>"
    by (auto simp: mframe_def)
  then have "u = s\<lparr>memory := m', freelist := f'\<rparr>" by simp
  then show ?thesis using mframeI by simp
qed

text \<open>The pages a page table consists of, and what an operation on it may do: take pages from the free
  list for new tables, and write to tables.\<close>

definition tabs :: "mem \<Rightarrow> nat \<Rightarrow> nat set" where
  "tabs m pd = insert pd {pgtab m pd i |i. i < 1024 \<and> odd (pde m pd i)}"

definition grown :: "nat \<Rightarrow> 'z kkmem_scheme \<Rightarrow> nat list \<Rightarrow> 'z kkmem_scheme \<Rightarrow> nat list \<Rightarrow> bool" where
  "grown pd s xs t ys \<longleftrightarrow> mframe s t \<and> set ys \<subseteq> set xs \<and> tabs (memory t) pd \<subseteq> tabs (memory s) pd \<union> set xs
     \<and> (\<forall>v i. page_ok (kend s) v \<and> v \<notin> tabs (memory s) pd \<and> v \<notin> set xs \<and> i < 4096 \<longrightarrow>
          memory t (v + i) = memory s (v + i))"

lemma grown_refl [simp]: "grown pd s xs s xs"
  by (simp add: grown_def)

lemma mframe_kend: "mframe s t \<Longrightarrow> kend t = kend s"
  by (auto simp: mframe_def)

lemma grown_trans:
  assumes "grown pd s xs t ys" "grown pd t ys u zs"
  shows "grown pd s xs u zs"
proof -
  have "mframe s u" using assms mframe_trans unfolding grown_def by blast
  moreover have "kend t = kend s" using assms(1) mframe_kend unfolding grown_def by blast
  moreover have "memory u (v + i) = memory s (v + i)"
    if "page_ok (kend s) v" "v \<notin> tabs (memory s) pd" "v \<notin> set xs" "i < 4096" for v i
  proof -
    have "v \<notin> tabs (memory t) pd" "v \<notin> set ys" using that assms(1) unfolding grown_def by blast+
    then have "memory u (v + i) = memory t (v + i)"
      using that assms(2) \<open>kend t = kend s\<close> unfolding grown_def by simp
    also have "\<dots> = memory s (v + i)" using that assms(1) unfolding grown_def by simp
    finally show ?thesis .
  qed
  ultimately show ?thesis using assms unfolding grown_def by blast
qed

lemma st32_other_page:
  assumes "page_ok e v" "page_ok e w" "v \<noteq> w" "j < 1024" "i < 4096"
  shows "st32 (v + 4 * j) x m (w + i) = m (w + i)"
proof -
  have "v mod 4096 = 0" "w mod 4096 = 0" using assms(1,2) by (simp_all add: page_ok_def)
  from pages_disjoint [OF this assms(3)] show ?thesis using assms(4,5) by (intro st32_other) linarith
qed

lemma tabsI: "i < 1024 \<Longrightarrow> odd (pde m pd i) \<Longrightarrow> pgtab m pd i \<in> tabs m pd"
  by (auto simp: tabs_def)

lemma tabs_mono:
  assumes "\<And>i. i < 1024 \<Longrightarrow> pde m pd i = pde m' pd i"
  shows "tabs m pd \<subseteq> tabs m' pd"
proof
  fix x assume "x \<in> tabs m pd"
  then consider "x = pd" | i where "i < 1024" "odd (pde m pd i)" "x = pgtab m pd i" by (auto simp: tabs_def)
  then show "x \<in> tabs m' pd"
  proof cases
    case 2
    then show ?thesis using assms [of i] tabsI [of i m' pd] by (simp add: pgtab_def)
  qed (simp add: tabs_def)
qed

lemma tabs_cong: "(\<And>i. i < 1024 \<Longrightarrow> pde m pd i = pde m' pd i) \<Longrightarrow> tabs m pd = tabs m' pd"
  using tabs_mono [of m pd m'] tabs_mono [of m' pd m] by auto

lemma grown_entry:
  assumes ok: "vm_ok s pd xs" and p: "odd (pde (memory s) pd (PDX va))"
  shows "grown pd s xs (s\<lparr>memory := st32 (pgtab (memory s) pd (PDX va) + 4 * PTX va) v (memory s)\<rparr>) xs"
proof -
  let ?t = "pgtab (memory s) pd (PDX va)" and ?m = "st32 (pgtab (memory s) pd (PDX va) + 4 * PTX va) v (memory s)"
  note d = vm_okD [OF ok]
  have t: "page_ok (kend s) ?t" "?t \<noteq> pd" using d(4,6) p by simp_all
  have "pde ?m pd i = pde (memory s) pd i" if "i < 1024" for i
    using t d(2) that by (intro ld32_page [of "kend s"]) auto
  then have "tabs ?m pd = tabs (memory s) pd" by (rule tabs_cong)
  moreover have "?t \<in> tabs (memory s) pd" using p by (intro tabsI) simp_all
  then have "?m (w + i) = memory s (w + i)"
    if "page_ok (kend s) w" "w \<notin> tabs (memory s) pd" "i < 4096" for w i
    using that by (intro st32_other_page [OF t(1)]) auto
  ultimately show ?thesis unfolding grown_def by simp
qed

lemma grown_table:
  assumes ok: "vm_ok s pd (x # xs)" and i: "i < 1024"
  defines "m \<equiv> st32 (pd + 4 * i) (V2P x + 7) (memset x 0 PGSIZE (memory s))"
  shows "grown pd s (x # xs) (s\<lparr>memory := m, freelist := ld32 (memory s) x\<rparr>) xs"
proof -
  note d = vm_okD [OF ok]
  have x: "page_ok (kend s) x" "x \<noteq> pd" using d(1,3) by (auto simp: free_pages_def)
  note te = table_entry [OF x(1)]
  have "pgtab m pd i = x" unfolding m_def using te by (simp add: pgtab_def)
  moreover have "pde m pd j = pde (memory s) pd j" if "j < 1024" "j \<noteq> i" for j
  proof -
    have "pde m pd j = pde (memset x 0 PGSIZE (memory s)) pd j"
      unfolding m_def using d(2) i that by (intro ld32_page [of "kend s"]) auto
    then show ?thesis using ld32_memset_other [OF x(1) d(2) that(1) x(2)] by simp
  qed
  then have "pgtab m pd j = pgtab (memory s) pd j \<and> odd (pde m pd j) = odd (pde (memory s) pd j)"
    if "j < 1024" "j \<noteq> i" for j using that by (simp add: pgtab_def)
  ultimately have "tabs m pd \<subseteq> tabs (memory s) pd \<union> set (x # xs)" unfolding tabs_def by fastforce
  moreover have "m (v + j) = memory s (v + j)" if v: "page_ok (kend s) v" "v \<noteq> pd" "v \<noteq> x" and j: "j < 4096" for v j
  proof -
    have "x mod 4096 = 0" "v mod 4096 = 0" using x(1) v(1) by (simp_all add: page_ok_def)
    from pages_disjoint [OF this v(3) [symmetric]] have "memset x 0 PGSIZE (memory s) (v + j) = memory s (v + j)"
      using j by (auto simp: memset_at)
    then show ?thesis unfolding m_def using st32_other_page [OF d(2) v(1) v(2) [symmetric] i j] by simp
  qed
  ultimately show ?thesis using mframeI unfolding grown_def by (auto simp: tabs_def)
qed

lemma walk_present:
  assumes "odd (pde (memory s) pd (PDX va))"
  shows "walkpgdir pd va alloc s = Ok (pgtab (memory s) pd (PDX va) + 4 * PTX va) s"
  using assms by (simp add: walkpgdir_def ldw_def pgtab_def)

lemma walk_absent:
  assumes "even (pde (memory s) pd (PDX va))"
  shows "walkpgdir pd va False s = Ok 0 s"
  using assms by (simp add: walkpgdir_def ldw_def)

lemma walk_alloc:
  assumes ok: "vm_ok s pd xs"
  shows "(\<exists>t ys. walkpgdir pd va True s = Ok (pgtab (memory t) pd (PDX va) + 4 * PTX va) t
      \<and> odd (pde (memory t) pd (PDX va)) \<and> vm_ok t pd ys \<and> (\<forall>w. entry (memory t) pd w = entry (memory s) pd w)
      \<and> length xs \<le> Suc (length ys) \<and> grown pd s xs t ys)
    \<or> xs = [] \<and> walkpgdir pd va True s = Ok 0 s"
proof (cases "odd (pde (memory s) pd (PDX va))")
  case True
  then show ?thesis using walk_present [OF True] ok by (intro disjI1 exI [of _ s] exI [of _ xs]) simp
next
  case even: False
  have fp: "free_pages s xs" using ok by (simp add: vm_ok_def)
  show ?thesis
  proof (cases xs)
    case Nil
    then show ?thesis using even kalloc_run [OF fp] by (simp add: walkpgdir_def ldw_def)
  next
    case (Cons x ys)
    have ok': "vm_ok s pd (x # ys)" using ok Cons by simp
    have x0: "x \<noteq> 0" "page_ok (kend s) x" using fp Cons page_ok_kfree by (auto simp: free_pages_def)
    let ?m = "st32 (pd + 4 * PDX va) (V2P x + 7) (memset x 0 PGSIZE (memory s))"
    let ?t = "s\<lparr>memory := ?m, freelist := ld32 (memory s) x\<rparr>"
    note n = new_table [OF ok' _ PDX_less, of va]
    have "walkpgdir pd va True s = Ok (x + 4 * PTX va) ?t"
      using even kalloc_run [OF fp] Cons x0 table_entry(1) [OF x0(2)]
      by (simp add: walkpgdir_def ldw_def zero_page_def stw_def)
    then show ?thesis using n even Cons grown_table [OF ok' PDX_less, of va]
      by (intro disjI1 exI [of _ ?t] exI [of _ ys]) auto
  qed
qed

lemma pte_nonzero:
  "vm_ok s pd xs \<Longrightarrow> odd (pde (memory s) pd (PDX va)) \<Longrightarrow> pgtab (memory s) pd (PDX va) + 4 * PTX va \<noteq> 0"
  using vm_okD(4) [of s pd xs "PDX va"] page_ok_kfree by fastforce

lemma div_page: "w div 4096 = k \<longleftrightarrow> 4096 * k \<le> w \<and> w < 4096 * k + (4096 :: nat)"
proof
  have m: "w mod 4096 < 4096" by simp
  assume "w div 4096 = k"
  then show "4096 * k \<le> w \<and> w < 4096 * k + 4096" using mult_div_mod_eq [of 4096 w] m by linarith
next
  assume "4096 * k \<le> w \<and> w < 4096 * k + 4096"
  then show "w div 4096 = k" by (intro div_nat_eqI) simp_all
qed

lemma page_div:
  assumes "(a :: nat) mod 4096 = 0"
  shows "w div 4096 = a div 4096 \<longleftrightarrow> a \<le> w \<and> w < a + 4096"
proof -
  have "4096 * (a div 4096) = a" using assms mult_div_mod_eq [of 4096 a] by linarith
  then show ?thesis unfolding div_page by simp
qed

text \<open>The entry that maps the page of \<open>w\<close> when the range from \<open>a\<close> is mapped to \<open>pa\<close>.\<close>

definition mapped_to :: "nat \<Rightarrow> nat \<Rightarrow> nat \<Rightarrow> nat \<Rightarrow> nat" where
  "mapped_to a pa perm w = pa + (w - a) div 4096 * 4096 + (perm OR PTE_P)"

lemma mapped_step:
  assumes "a + 4096 \<le> w"
  shows "mapped_to (a + 4096) (pa + 4096) perm w = mapped_to a pa perm w"
proof -
  have s: "(x + 4096) div 4096 = x div 4096 + 1" for x :: nat by simp
  have "w - (a + 4096) + 4096 = w - a" using assms by simp
  then have "(w - a) div 4096 = (w - (a + 4096)) div 4096 + 1" using s [of "w - (a + 4096)"] by (simp only:)
  then show ?thesis unfolding mapped_to_def by (simp only: distrib_right mult_1 add.assoc)
qed

lemma mapped_first: "a \<le> w \<Longrightarrow> w < a + 4096 \<Longrightarrow> mapped_to a pa perm w = pa + (perm OR PTE_P)"
  by (simp add: mapped_to_def)

text \<open>One pass of the loop of \<open>mappages\<close>.\<close>

lemma mappages_pass:
  assumes ok: "vm_ok s pd xs" and a: "a mod 4096 = 0" "a < 2 ^ 32" and e: "even (entry (memory s) pd a)"
    and pa: "pa mod 4096 = 0" "pa + 4096 \<le> 2 ^ 32" and perm: "perm < 4096"
  shows "(\<exists>t ys. mappages_loop (Suc k) pd a l pa perm s = (if a = l then Ok 0 t
          else mappages_loop k pd (n32 (a + PGSIZE)) l (n32 (pa + PGSIZE)) perm t)
      \<and> vm_ok t pd ys \<and> (\<forall>w < 2 ^ 32. entry (memory t) pd w =
           (if a \<le> w \<and> w < a + 4096 then mapped_to a pa perm w else entry (memory s) pd w))
      \<and> length xs \<le> Suc (length ys) \<and> grown pd s xs t ys)
    \<or> xs = [] \<and> mappages_loop (Suc k) pd a l pa perm s = Ok (- 1) s"
  using walk_alloc [OF ok, of a]
proof (elim disjE exE conjE)
  fix t ys assume t: "walkpgdir pd a True s = Ok (pgtab (memory t) pd (PDX a) + 4 * PTX a) t"
    "odd (pde (memory t) pd (PDX a))" "vm_ok t pd ys" "\<forall>w. entry (memory t) pd w = entry (memory s) pd w"
    "length xs \<le> Suc (length ys)" "grown pd s xs t ys"
  let ?pte = "pgtab (memory t) pd (PDX a) + 4 * PTX a" and ?v = "pa OR perm OR PTE_P"
  let ?u = "t\<lparr>memory := st32 ?pte ?v (memory t)\<rparr>"
  have f: "perm OR PTE_P < 4096" using flags_less [OF perm, of 1] by simp
  have v: "?v = pa + (perm OR PTE_P)" using or_flags [OF pa(1) f] .
  then have v32: "?v < 2 ^ 32" using pa(2) f by simp
  have "ld32 (memory t) ?pte = entry (memory t) pd a" using t(2) by (simp add: entry_def)
  then have ev: "even (ld32 (memory t) ?pte)" using e t(4) by simp
  have "mappages_loop (Suc k) pd a l pa perm s = (if a = l then Ok 0 ?u
      else mappages_loop k pd (n32 (a + PGSIZE)) l (n32 (pa + PGSIZE)) perm ?u)"
    if "walkpgdir pd a True s = Ok p t" "p \<noteq> 0" "even (ld32 (memory t) p)" "p = ?pte" for p
    using that(1-3) unfolding that(4) [symmetric] by (cases "a = l") (simp_all add: ldw_def stw_def)
  from this [OF t(1) pte_nonzero [OF t(3,2)] ev]
  have "mappages_loop (Suc k) pd a l pa perm s = (if a = l then Ok 0 ?u
      else mappages_loop k pd (n32 (a + PGSIZE)) l (n32 (pa + PGSIZE)) perm ?u)" by simp
  moreover note se = set_entry [OF t(3,2) v32 a(2)]
  moreover have "entry (memory ?u) pd w = (if a \<le> w \<and> w < a + 4096 then mapped_to a pa perm w else entry (memory s) pd w)"
    if "w < 2 ^ 32" for w
    using se(2) [OF that] t(4) v mapped_first [of a w] page_div [OF a(1), of w] by simp
  moreover have "grown pd s xs ?u ys" using grown_trans [OF t(6) grown_entry [OF t(3,2)]] .
  ultimately show ?thesis using t(5) by (intro disjI1 exI [of _ ?u] exI [of _ ys]) blast
next
  assume "xs = []" "walkpgdir pd a True s = Ok 0 s"
  then show ?thesis by simp
qed

text \<open>The whole range, for \<open>n + 1\<close> pages.\<close>

lemma mappages_loop_run:
  assumes "vm_ok s pd xs" "a mod 4096 = 0" "a + n * 4096 < 2 ^ 32" "n < k" "\<forall>i \<le> n. even (entry (memory s) pd (a + i * 4096))"
    and "pa mod 4096 = 0" "pa + Suc n * 4096 \<le> 2 ^ 32" and perm: "perm < 4096"
  shows "(\<exists>t ys. mappages_loop k pd a (a + n * 4096) pa perm s = Ok 0 t \<and> vm_ok t pd ys
      \<and> (\<forall>w < 2 ^ 32. entry (memory t) pd w =
           (if a \<le> w \<and> w < a + Suc n * 4096 then mapped_to a pa perm w else entry (memory s) pd w))
      \<and> grown pd s xs t ys \<and> length xs \<le> Suc n + length ys)
    \<or> length xs \<le> n \<and> (\<exists>t ys. mappages_loop k pd a (a + n * 4096) pa perm s = Ok (- 1) t \<and> vm_ok t pd ys
      \<and> (\<forall>w < 2 ^ 32. w < a \<or> a + Suc n * 4096 \<le> w \<longrightarrow> entry (memory t) pd w = entry (memory s) pd w)
      \<and> grown pd s xs t ys)"
  using assms
proof (induction n arbitrary: k a pa s xs)
  case 0
  then obtain j where k: "k = Suc j" by (cases k) auto
  have p: "even (entry (memory s) pd a)" "a < 2 ^ 32" "pa + 4096 \<le> 2 ^ 32" using 0 by simp_all
  have z: "a + 0 * 4096 = a" "a + Suc 0 * 4096 = a + 4096" by simp_all
  from mappages_pass [OF 0(1,2) p(2,1) 0(6) p(3) perm, of j a] show ?case unfolding z k
  proof (elim disjE exE conjE, goal_cases)
    case (1 t ys)
    then show ?case by (intro disjI1 exI [of _ t] exI [of _ ys]) (simp del: mappages_loop.simps)
  next
    case 2
    then show ?case using 0(1) by (intro disjI2 conjI exI [of _ s] exI [of _ xs]) (simp_all del: mappages_loop.simps)
  qed
next
  case (Suc n)
  then obtain j where k: "k = Suc j" "n < j" by (cases k) auto
  let ?l = "a + Suc n * 4096"
  have l: "a + 4096 + n * 4096 = ?l" by simp
  have e0: "even (entry (memory s) pd a)" using Suc.prems(5) [rule_format, of 0] by simp
  have w: "n32 (a + PGSIZE) = a + 4096" "n32 (pa + PGSIZE) = pa + 4096" "a \<noteq> ?l" "a < 2 ^ 32" "pa + 4096 \<le> 2 ^ 32"
    using Suc.prems(3,7) by (simp_all add: n32_def)
  show ?case using mappages_pass [OF Suc.prems(1,2) w(4) e0 Suc.prems(6) w(5) perm, of j ?l]
  proof (elim disjE exE conjE)
    fix t ys assume t: "mappages_loop (Suc j) pd a ?l pa perm s = (if a = ?l then Ok 0 t
          else mappages_loop j pd (n32 (a + PGSIZE)) ?l (n32 (pa + PGSIZE)) perm t)" "vm_ok t pd ys"
      "\<forall>w < 2 ^ 32. entry (memory t) pd w =
           (if a \<le> w \<and> w < a + 4096 then mapped_to a pa perm w else entry (memory s) pd w)"
      "length xs \<le> Suc (length ys)" "grown pd s xs t ys"
    have r: "mappages_loop k pd a ?l pa perm s = mappages_loop j pd (a + 4096) ?l (pa + 4096) perm t"
      using t(1) w(1-3) k(1) by simp
    have "even (entry (memory t) pd (a + 4096 + i * 4096))" if "i \<le> n" for i
    proof -
      have "a + 4096 + i * 4096 = a + Suc i * 4096" by simp
      moreover have "a + Suc i * 4096 < 2 ^ 32"
        using that Suc.prems(3) mult_le_mono1 [of "Suc i" "Suc n" 4096] by linarith
      ultimately show ?thesis
        using t(3) [rule_format, of "a + Suc i * 4096"] Suc.prems(5) [rule_format, of "Suc i"] that
        by (simp add: add.assoc)
    qed
    then have ev: "\<forall>i \<le> n. even (entry (memory t) pd (a + 4096 + i * 4096))" by blast
    have g: "(a + 4096) mod 4096 = 0" "a + 4096 + n * 4096 < 2 ^ 32" "(pa + 4096) mod 4096 = 0"
      "pa + 4096 + Suc n * 4096 \<le> 2 ^ 32" using Suc.prems by simp_all
    from Suc.IH [OF t(2) g(1,2) k(2) ev g(3,4) perm, unfolded l] show ?thesis
    proof (elim disjE exE conjE)
      fix u zs assume u: "mappages_loop j pd (a + 4096) ?l (pa + 4096) perm t = Ok 0 u" "vm_ok u pd zs"
        "\<forall>w < 2 ^ 32. entry (memory u) pd w = (if a + 4096 \<le> w \<and> w < a + 4096 + Suc n * 4096
           then mapped_to (a + 4096) (pa + 4096) perm w else entry (memory t) pd w)" "grown pd t ys u zs"
        "length ys \<le> Suc n + length zs"
      have "entry (memory u) pd w = (if a \<le> w \<and> w < a + Suc (Suc n) * 4096 then mapped_to a pa perm w
          else entry (memory s) pd w)" if "w < 2 ^ 32" for w
        using u(3) t(3) that mapped_step [of a w pa perm] by auto
      then show ?thesis using u r t(4) grown_trans [OF t(5) u(4)]
        by (intro disjI1 exI [of _ u] exI [of _ zs]) auto
    next
      fix u zs assume u: "length ys \<le> n" "mappages_loop j pd (a + 4096) ?l (pa + 4096) perm t = Ok (- 1) u" "vm_ok u pd zs"
        "\<forall>w < 2 ^ 32. w < a + 4096 \<or> a + 4096 + Suc n * 4096 \<le> w \<longrightarrow> entry (memory u) pd w = entry (memory t) pd w"
        "grown pd t ys u zs"
      have "entry (memory u) pd w = entry (memory s) pd w" if "w < 2 ^ 32" "w < a \<or> a + Suc (Suc n) * 4096 \<le> w" for w
        using u(4) t(3) that by auto
      then show ?thesis using u t(4) r grown_trans [OF t(5) u(5)]
        by (intro disjI2 conjI exI [of _ u] exI [of _ zs]) auto
    qed
  next
    assume "xs = []" "mappages_loop (Suc j) pd a ?l pa perm s = Ok (- 1) s"
    then show ?thesis using k(1) Suc.prems(1) by (intro disjI2) auto
  qed
qed

section \<open>User memory\<close>

definition frame :: "mem \<Rightarrow> nat \<Rightarrow> nat \<Rightarrow> nat" where
  "frame m pd va = P2V (PTE_ADDR (entry m pd va))"

text \<open>The byte a process reads at an address.\<close>

definition umem :: "mem \<Rightarrow> nat \<Rightarrow> nat \<Rightarrow> u8" where
  "umem m pd va = m (frame m pd va + va mod 4096)"

text \<open>The first \<open>n\<close> bytes are mapped for the user, every page to a page of its own.\<close>

definition uspace :: "'z kkmem_scheme \<Rightarrow> nat \<Rightarrow> nat list \<Rightarrow> nat \<Rightarrow> bool" where
  "uspace s pd xs n \<longleftrightarrow> vm_ok s pd xs \<and> n \<le> KERNBASE
     \<and> (\<forall>a < n. has_flag PTE_P (entry (memory s) pd a) \<and> has_flag PTE_U (entry (memory s) pd a)
          \<and> page_ok (kend s) (frame (memory s) pd a) \<and> frame (memory s) pd a \<notin> tabs (memory s) pd
          \<and> frame (memory s) pd a \<notin> set xs)
     \<and> (\<forall>a < n. \<forall>b < n. frame (memory s) pd a = frame (memory s) pd b \<longrightarrow> a div 4096 = b div 4096)"

definition all_writable :: "mem \<Rightarrow> nat \<Rightarrow> nat \<Rightarrow> bool" where
  "all_writable m pd n \<longleftrightarrow> (\<forall>a < n. has_flag PTE_W (entry m pd a))"

lemma uspaceD:
  assumes "uspace s pd xs n"
  shows "vm_ok s pd xs" "n \<le> KERNBASE"
    "a < n \<Longrightarrow> has_flag PTE_P (entry (memory s) pd a)" "a < n \<Longrightarrow> has_flag PTE_U (entry (memory s) pd a)"
    "a < n \<Longrightarrow> page_ok (kend s) (frame (memory s) pd a)" "a < n \<Longrightarrow> frame (memory s) pd a \<notin> tabs (memory s) pd"
    "a < n \<Longrightarrow> frame (memory s) pd a \<notin> set xs"
    "a < n \<Longrightarrow> b < n \<Longrightarrow> frame (memory s) pd a = frame (memory s) pd b \<Longrightarrow> a div 4096 = b div 4096"
  using assms unfolding uspace_def by blast+

lemma uspace_mono: "uspace s pd xs n \<Longrightarrow> m \<le> n \<Longrightarrow> uspace s pd xs m"
  unfolding uspace_def by (meson less_le_trans order_trans)

lemma entry_page: "a < 2 ^ 32 \<Longrightarrow> b < 2 ^ 32 \<Longrightarrow> a div 4096 = b div 4096 \<Longrightarrow> entry m pd a = entry m pd b"
  using same_page [of a b] by (simp add: entry_def)

text \<open>A store into a page that is neither a table nor free.\<close>

lemma store_page:
  assumes ok: "vm_ok s pd xs" and f: "page_ok (kend s) f" "f \<notin> tabs (memory s) pd" "f \<notin> set xs"
    and m: "\<forall>v i. page_ok (kend s) v \<and> v \<noteq> f \<and> i < 4096 \<longrightarrow> m (v + i) = memory s (v + i)"
  shows "vm_ok (s\<lparr>memory := m\<rparr>) pd xs" "entry m pd va = entry (memory s) pd va" "tabs m pd = tabs (memory s) pd"
proof -
  note d = vm_okD [OF ok]
  have word: "ld32 m (v + 4 * j) = ld32 (memory s) (v + 4 * j)" if "page_ok (kend s) v" "v \<noteq> f" "j < 1024" for v j
  proof (rule ld32_cong)
    fix i :: nat assume "i < 4"
    then have "4 * j + i < 4096" using that(3) by linarith
    then show "m (v + 4 * j + i) = memory s (v + 4 * j + i)" using m that(1,2) by (simp add: add.assoc)
  qed
  have "f \<noteq> pd" using f(2) by (auto simp: tabs_def)
  then have pdj: "pde m pd j = pde (memory s) pd j" if "j < 1024" for j using word [OF d(2)] that by auto
  then show "tabs m pd = tabs (memory s) pd" by (rule tabs_cong)
  have pt: "pgtab m pd j = pgtab (memory s) pd j" if "j < 1024" for j using pdj that by (simp add: pgtab_def)
  have "ld32 m x = ld32 (memory s) x" if "x \<in> set xs" for x
    using word [of x 0] that d(1) f(3) by (auto simp: free_pages_def)
  then have "linked m (freelist s) xs" using d(1) linked_cong [of xs m "memory s"] by (simp add: free_pages_def)
  then have "free_pages (s\<lparr>memory := m\<rparr>) xs" using d(1) by (simp add: free_pages_def)
  then show "vm_ok (s\<lparr>memory := m\<rparr>) pd xs" using d(2-7) pdj pt by (auto simp: vm_ok_def)
  have "ld32 m (pgtab (memory s) pd (PDX va) + 4 * PTX va) = ld32 (memory s) (pgtab (memory s) pd (PDX va) + 4 * PTX va)"
    if "odd (pde (memory s) pd (PDX va))"
    using d(4) [OF _ that] tabsI [OF _ that] f(2) by (intro word) auto
  then show "entry m pd va = entry (memory s) pd va" using pdj pt by (simp add: entry_def)
qed

lemma wr_other_page:
  assumes "page_ok e f" "page_ok e v" "v \<noteq> f" "i < 4096" "off + length b \<le> 4096"
  shows "wr (f + off) b m (v + i) = m (v + i)"
proof -
  have "f mod 4096 = 0" "v mod 4096 = 0" using assms(1,2) by (simp_all add: page_ok_def)
  from pages_disjoint [OF this assms(3) [symmetric]] show ?thesis using assms(4,5) by (auto simp: wr_def)
qed

text \<open>A store through the mapping of one page.\<close>

lemma user_store:
  assumes us: "uspace s pd xs n" and p: "p < n" "p mod 4096 = 0" and off: "off + length b \<le> 4096"
  defines "m \<equiv> wr (frame (memory s) pd p + off) b (memory s)"
  shows "uspace (s\<lparr>memory := m\<rparr>) pd xs n"
    "a < n \<Longrightarrow> umem m pd a = (if p + off \<le> a \<and> a < p + off + length b then b ! (a - (p + off)) else umem (memory s) pd a)"
proof -
  let ?f = "frame (memory s) pd p"
  note d = uspaceD [OF us]
  have f: "page_ok (kend s) ?f" "?f \<notin> tabs (memory s) pd" "?f \<notin> set xs" using d(5-7) p(1) by blast+
  have st: "\<forall>v i. page_ok (kend s) v \<and> v \<noteq> ?f \<and> i < 4096 \<longrightarrow> m (v + i) = memory s (v + i)"
    unfolding m_def using wr_other_page [OF f(1) _ _ _ off] by blast
  note sp = store_page [OF d(1) f st]
  have fr: "frame m pd a = frame (memory s) pd a" for a using sp(2) by (simp add: frame_def)
  have k: "memory (s\<lparr>memory := m\<rparr>) = m" "kend (s\<lparr>memory := m\<rparr>) = kend s" by simp_all
  show "uspace (s\<lparr>memory := m\<rparr>) pd xs n"
    using sp(1) us unfolding uspace_def k sp(2,3) fr by blast
  assume a: "a < n"
  have n: "n \<le> 2 ^ 31" using d(2) by simp
  show "umem m pd a = (if p + off \<le> a \<and> a < p + off + length b then b ! (a - (p + off)) else umem (memory s) pd a)"
  proof (cases "a div 4096 = p div 4096")
    case True
    then have e: "frame (memory s) pd a = ?f" using entry_page [of a p] a p n by (simp add: frame_def)
    have "p \<le> a" "a < p + 4096" using True page_div [OF p(2)] by blast+
    then have "a mod 4096 = a - p" using p(2) True mult_div_mod_eq [of 4096 a] mult_div_mod_eq [of 4096 p] by linarith
    then show ?thesis using e fr \<open>p \<le> a\<close> by (auto simp: umem_def m_def wr_def)
  next
    case False
    then have "frame (memory s) pd a \<noteq> ?f" using d(8) [OF a p(1)] by blast
    then have "umem m pd a = umem (memory s) pd a" using fr st d(5) [OF a] by (simp add: umem_def)
    moreover have no: "\<not> (p + off \<le> a \<and> a < p + off + length b)" using False off page_div [OF p(2), of a] by auto
    ultimately show ?thesis by (simp only: no if_False)
  qed
qed

lemma uva2ka_run:
  assumes us: "uspace s pd xs n" and a: "a < n"
  shows "uva2ka pd a s = Ok (frame (memory s) pd a) s" "frame (memory s) pd a \<noteq> 0"
proof -
  note d = uspaceD [OF us]
  have o: "odd (entry (memory s) pd a)" using d(3) [OF a] by simp
  then have p: "odd (pde (memory s) pd (PDX a))" by (auto simp: entry_def split: if_splits)
  then have e: "entry (memory s) pd a = ld32 (memory s) (pgtab (memory s) pd (PDX a) + 4 * PTX a)"
    by (simp add: entry_def)
  have "uva2ka pd a s = Ok (frame (memory s) pd a) s"
    if "walkpgdir pd a False s = Ok q s" "q \<noteq> 0" "entry (memory s) pd a = ld32 (memory s) q" for q
    using that o d(4) [OF a] by (simp add: uva2ka_def ldw_def frame_def)
  from this [OF walk_present [OF p] pte_nonzero [OF d(1) p] e]
  show "uva2ka pd a s = Ok (frame (memory s) pd a) s" .
  show "frame (memory s) pd a \<noteq> 0" using d(5) [OF a] page_ok_kfree by blast
qed

text \<open>\<open>copyout\<close> stores the bytes where the process will read them, and nowhere else.\<close>

lemma copyout_run:
  assumes "uspace s pd xs n" "va + length buf \<le> n"
  shows "\<exists>t. copyout pd va buf s = Ok 0 t \<and> uspace t pd xs n \<and> mframe s t
    \<and> (\<forall>a < n. umem (memory t) pd a = (if va \<le> a \<and> a < va + length buf then buf ! (a - va) else umem (memory s) pd a))"
  using assms
proof (induction pd va buf arbitrary: s rule: copyout.induct)
  case (1 pd va buf)
  show ?case
  proof (cases "buf = []")
    case True
    then show ?thesis using 1 by (subst copyout.simps) (auto intro!: exI [of _ s])
  next
    case False
    let ?p = "PGROUNDDOWN va"
    let ?k = "min (PGSIZE - (va - ?p)) (length buf)"
    have pr: "?p \<le> va" "va < ?p + PGSIZE" "?p mod 4096 = 0" using PGROUNDDOWN_le PGROUNDDOWN_aligned [of va] by simp_all
    have vn: "va < n" using 1(3) False by (cases buf) auto
    then have pn: "?p < n" using pr(1) by linarith
    have off: "(va - ?p) + length (take ?k buf) \<le> 4096" using pr by simp
    have pv: "?p + (va - ?p) = va" using pr(1) by simp
    let ?m = "wr (frame (memory s) pd ?p + (va - ?p)) (take ?k buf) (memory s)"
    let ?s = "s\<lparr>memory := ?m\<rparr>"
    note us = user_store [OF 1(2) pn pr(3) off]
    have st: "copyout pd va buf s = copyout pd (n32 (?p + PGSIZE)) (drop ?k buf) ?s"
      using uva2ka_run [OF 1(2) pn] False by (subst copyout.simps) (simp add: Let_def)
    have n31: "n \<le> 2 ^ 31" using uspaceD(2) [OF 1(2)] by simp
    show ?thesis
    proof (cases "length buf \<le> PGSIZE - (va - ?p)")
      case True
      then have "drop ?k buf = []" "take ?k buf = buf" by simp_all
      then have "copyout pd va buf s = Ok 0 ?s" using st by (simp add: copyout.simps)
      then show ?thesis using us [unfolded \<open>take ?k buf = buf\<close> pv] \<open>take ?k buf = buf\<close>
        by (intro exI [of _ ?s]) (simp add: pv)
    next
      case len: False
      then have k: "?k = PGSIZE - (va - ?p)" by simp
      then have vk: "va + ?k = ?p + PGSIZE" using pr by simp
      have w: "n32 (?p + PGSIZE) = va + ?k" using vk 1(3) len n31 by (simp add: n32_def)
      have "va + ?k + length (drop ?k buf) \<le> n" using 1(3) len k by simp
      then obtain t where t: "copyout pd (va + ?k) (drop ?k buf) ?s = Ok 0 t" "uspace t pd xs n" "mframe ?s t"
        "\<forall>a < n. umem (memory t) pd a = (if va + ?k \<le> a \<and> a < va + ?k + length (drop ?k buf)
           then drop ?k buf ! (a - (va + ?k)) else umem ?m pd a)"
        using 1(1) [OF False refl refl, of "frame (memory s) pd ?p" ?s, unfolded w] us(1) uva2ka_run(2) [OF 1(2) pn] by auto
      have "umem (memory t) pd a = (if va \<le> a \<and> a < va + length buf then buf ! (a - va) else umem (memory s) pd a)"
        if "a < n" for a
        using t(4) us(2) [OF that] that len k pv by (auto simp: nth_append)
      moreover have "mframe s t" using mframe_trans [OF mframe_simps(2) t(3)] .
      ultimately show ?thesis using t(1,2) st w by (intro exI [of _ t]) simp
    qed
  qed
qed

text \<open>Mapping a range of whole pages.\<close>

lemma mappages_run:
  assumes ok: "vm_ok s pd xs" and va: "va mod PGSIZE = 0" "0 < n" "va + n \<le> 2 ^ 32" and pa: "pa mod PGSIZE = 0"
    "pa + Suc ((n - 1) div PGSIZE) * PGSIZE \<le> 2 ^ 32" and perm: "perm < 4096"
    and e: "\<forall>w. va \<le> w \<and> w < va + n \<longrightarrow> even (entry (memory s) pd w)"
  defines "k \<equiv> (n - 1) div PGSIZE"
  shows "(\<exists>t ys. mappages pd va n pa perm s = Ok 0 t \<and> vm_ok t pd ys
      \<and> (\<forall>w < 2 ^ 32. entry (memory t) pd w =
           (if va \<le> w \<and> w < va + Suc k * PGSIZE then mapped_to va pa perm w else entry (memory s) pd w))
      \<and> grown pd s xs t ys \<and> length xs \<le> Suc k + length ys)
    \<or> length xs \<le> k \<and> (\<exists>t ys. mappages pd va n pa perm s = Ok (- 1) t \<and> vm_ok t pd ys
      \<and> (\<forall>w < 2 ^ 32. w < va \<or> va + Suc k * PGSIZE \<le> w \<longrightarrow> entry (memory t) pd w = entry (memory s) pd w)
      \<and> grown pd s xs t ys)"
proof -
  have kn: "k * 4096 \<le> n - 1" "n - 1 < Suc k * 4096"
    using dividend_less_div_times [of 4096 "n - 1"] by (simp_all add: k_def)
  have "va + n + (2 ^ 32 - 1) = (va + (n - 1)) + 2 ^ 32" using va(2) by simp
  then have "n32 (va + n + (2 ^ 32 - 1)) = (va + (n - 1)) mod 2 ^ 32" unfolding n32_def by (simp only: mod_add_self2)
  then have w: "n32 (va + n + (2 ^ 32 - 1)) = va + (n - 1)" using va(2,3) by simp
  have s: "va + (n - 1) = va + k * 4096 + (n - 1) mod 4096" by (simp add: k_def)
  then have "(va + (n - 1)) mod 4096 = (n - 1) mod 4096" using va(1) by (simp add: mod_add_eq [symmetric])
  then have l: "PGROUNDDOWN (n32 (va + n + (2 ^ 32 - 1))) = va + k * 4096"
    unfolding w PGROUNDDOWN_def PGSIZE_def using s by linarith
  have l': "PGROUNDDOWN va = va" using va(1) by (simp add: PGROUNDDOWN_def)
  have lim: "va + k * 4096 < 2 ^ 32" using kn va by linarith
  have "k * 4096 < 2 ^ 20 * 4096" using kn(1) va by simp
  then have k20: "k < 2 ^ 20" by simp
  have ev: "\<forall>i \<le> k. even (entry (memory s) pd (va + i * 4096))"
  proof (intro allI impI)
    fix i assume "i \<le> k"
    then have "i * 4096 \<le> k * 4096" by simp
    then have "va \<le> va + i * 4096 \<and> va + i * 4096 < va + n" using kn(1) va(2) by linarith
    then show "even (entry (memory s) pd (va + i * 4096))" using e by blast
  qed
  from mappages_loop_run [OF ok _ lim k20 ev _ _ perm, of pa] va(1) pa
  show ?thesis unfolding mappages_def l l' k_def PGSIZE_def by blast
qed

lemma perm_user: "(PTE_W OR PTE_U) OR PTE_P = (7 :: nat)" "PTE_W OR PTE_U = (6 :: nat)" "(6 :: nat) OR 1 = 7"
  by simp_all

text \<open>Growing by one page.\<close>

definition unmapped :: "mem \<Rightarrow> nat \<Rightarrow> nat \<Rightarrow> bool" where
  "unmapped m pd n \<longleftrightarrow> (\<forall>w. n \<le> w \<and> w < KERNBASE \<longrightarrow> even (entry m pd w))"

lemma mapped_user:
  assumes "page_ok e x" "a \<le> w" "w < a + 4096"
  shows "mapped_to a (V2P x) (PTE_W OR PTE_U) w = V2P x + 7" "PTE_ADDR (V2P x + 7) = V2P x"
    "has_flag PTE_U (V2P x + 7)" "P2V (V2P x) = x" "has_flag PTE_W (V2P x + 7)"
proof -
  note te = table_entry [OF assms(1)]
  show "mapped_to a (V2P x) (PTE_W OR PTE_U) w = V2P x + 7" using assms mapped_first [of a w] by simp
  show "PTE_ADDR (V2P x + 7) = V2P x" "P2V (V2P x) = x" using te by simp_all
  have "V2P x + 7 = V2P x OR 7" using or_flags [OF te(6), of 7] by simp
  moreover have "bit (7 :: nat) 2" "bit (7 :: nat) 1" by (simp_all add: bit_iff_odd)
  ultimately have "bit (V2P x + 7) 2" "bit (V2P x + 7) 1" by (simp_all only: bit_or_iff) simp_all
  then show "has_flag PTE_U (V2P x + 7)" "has_flag PTE_W (V2P x + 7)" by (simp_all add: has_flag_U has_flag_W)
qed

text \<open>The state after a page has been taken from the free list and cleared.\<close>

lemma take_page:
  assumes us: "uspace s pd (x # xs) n"
  defines "t \<equiv> s\<lparr>memory := memset x 0 PGSIZE (memory s), freelist := ld32 (memory s) x\<rparr>"
  shows "kalloc s = Ok x (s\<lparr>freelist := ld32 (memory s) x\<rparr>)" "x \<noteq> 0" "page_ok (kend s) x" "uspace t pd xs n"
    "x \<notin> tabs (memory t) pd" "x \<notin> set xs" "entry (memory t) pd w = entry (memory s) pd w"
    "a < n \<Longrightarrow> frame (memory s) pd a \<noteq> x" "a < n \<Longrightarrow> umem (memory t) pd a = umem (memory s) pd a"
proof -
  note d = uspaceD [OF us] and v = vm_okD [OF uspaceD(1) [OF us]]
  have fp: "free_pages s (x # xs)" using v(1) .
  show x: "page_ok (kend s) x" "x \<notin> set xs" "x \<noteq> 0" using fp page_ok_kfree by (auto simp: free_pages_def)
  show "kalloc s = Ok x (s\<lparr>freelist := ld32 (memory s) x\<rparr>)" using kalloc_run [OF fp] by simp
  have xt: "x \<notin> tabs (memory s) pd" using v(3,5) by (auto simp: tabs_def)
  let ?s = "s\<lparr>freelist := ld32 (memory s) x\<rparr>" and ?m = "memset x 0 PGSIZE (memory s)"
  have ok: "vm_ok ?s pd xs" using uspaceD(1) [OF us] kalloc_free [OF fp] by (auto simp: vm_ok_def)
  have mm: "\<forall>w i. page_ok (kend ?s) w \<and> w \<noteq> x \<and> i < 4096 \<longrightarrow> ?m (w + i) = memory ?s (w + i)"
  proof (intro allI impI, elim conjE)
    fix w i assume w: "page_ok (kend ?s) w" "w \<noteq> x" "i < (4096 :: nat)"
    have "x mod 4096 = 0" "w mod 4096 = 0" using x(1) w(1) by (simp_all add: page_ok_def)
    from pages_disjoint [OF this w(2) [symmetric]] show "?m (w + i) = memory ?s (w + i)"
      using w(3) by (auto simp: memset_at)
  qed
  note sp = store_page [of ?s pd xs x ?m, OF ok _ _ x(2) mm]
  have sp': "vm_ok (s\<lparr>memory := ?m, freelist := ld32 (memory s) x\<rparr>) pd xs" "tabs ?m pd = tabs (memory s) pd"
    and e: "entry ?m pd w = entry (memory s) pd w" for w
    using sp x(1) xt by simp_all
  have f: "frame ?m pd a = frame (memory s) pd a" for a using e by (simp add: frame_def)
  have k: "memory t = ?m" "kend t = kend s" by (simp_all add: t_def)
  have "frame (memory s) pd a \<notin> set xs" if "a < n" for a using d(7) [OF that] by auto
  then show "uspace t pd xs n" using sp'(1) [folded t_def] d(2-6,8) unfolding uspace_def k sp'(2) f e by blast
  show "x \<notin> tabs (memory t) pd" "entry (memory t) pd w = entry (memory s) pd w" using xt sp'(2) e k(1) by simp_all
  show fx: "frame (memory s) pd a \<noteq> x" if "a < n" for a using d(7) [OF that] by auto
  show "umem (memory t) pd a = umem (memory s) pd a" if "a < n"
    using mm fx [OF that] d(5) [OF that] f k by (simp add: umem_def)
qed

lemma grow_page:
  assumes us: "uspace s pd (x # xs) a" and a: "a mod 4096 = 0" "a + 4096 \<le> KERNBASE" and un: "unmapped (memory s) pd a"
    and xs: "xs \<noteq> []"
  shows "\<exists>t u ys. thenk kalloc (zero_page x) s = Ok () t \<and> mappages pd a PGSIZE (V2P x) (PTE_W OR PTE_U) t = Ok 0 u
    \<and> uspace u pd ys (a + 4096) \<and> unmapped (memory u) pd (a + 4096) \<and> length xs \<le> Suc (length ys) \<and> mframe s u
    \<and> (\<forall>b < a. umem (memory u) pd b = umem (memory s) pd b)
    \<and> (\<forall>b. a \<le> b \<and> b < a + 4096 \<longrightarrow> umem (memory u) pd b = 0)
    \<and> (all_writable (memory s) pd a \<longrightarrow> all_writable (memory u) pd (a + 4096))"
proof -
  let ?t = "s\<lparr>memory := memset x 0 PGSIZE (memory s), freelist := ld32 (memory s) x\<rparr>"
  note tp = take_page [OF us]
  note d = uspaceD [OF tp(4)]
  note mu = mapped_user [OF tp(3)]
  have kt: "kend ?t = kend s" by simp
  have run: "thenk kalloc (zero_page x) s = Ok () ?t" using tp(1) by (simp add: zero_page_def)
  have xk: "V2P x = x - KERNBASE" "x < KERNBASE + PHYSTOP" using V2P_kva [of x] tp(3) by (simp_all add: page_ok_def)
  have va: "a mod PGSIZE = 0" "0 < PGSIZE" "a + PGSIZE \<le> 2 ^ 32" "V2P x mod PGSIZE = 0" "PTE_W OR PTE_U < (4096 :: nat)"
    using a table_entry(6) [OF tp(3)] by simp_all
  have pa: "V2P x + Suc ((PGSIZE - 1) div PGSIZE) * PGSIZE \<le> 2 ^ 32" using xk by simp
  have ev: "\<forall>w. a \<le> w \<and> w < a + PGSIZE \<longrightarrow> even (entry (memory ?t) pd w)"
    using un a(2) tp(7) unfolding unmapped_def by auto
  from mappages_run [OF d(1) va(1-4) pa va(5) ev] xs obtain u ys where u:
    "mappages pd a PGSIZE (V2P x) (PTE_W OR PTE_U) ?t = Ok 0 u" "vm_ok u pd ys"
    "\<forall>w < 2 ^ 32. entry (memory u) pd w = (if a \<le> w \<and> w < a + 4096
       then mapped_to a (V2P x) (PTE_W OR PTE_U) w else entry (memory ?t) pd w)" "grown pd ?t xs u ys"
    "length xs \<le> Suc (length ys)" by auto
  have g: "mframe ?t u" "set ys \<subseteq> set xs" "tabs (memory u) pd \<subseteq> tabs (memory ?t) pd \<union> set xs"
    "\<forall>v i. page_ok (kend s) v \<and> v \<notin> tabs (memory ?t) pd \<and> v \<notin> set xs \<and> i < 4096 \<longrightarrow>
       memory u (v + i) = memory ?t (v + i)" using u(4) unfolding grown_def by auto
  have ku: "kend u = kend s" using mframe_kend [OF g(1)] by simp
  have new: "entry (memory u) pd b = V2P x + 7" "frame (memory u) pd b = x" if "a \<le> b" "b < a + 4096" for b
    using u(3) mu that a(2) by (auto simp: frame_def)
  have old: "entry (memory u) pd b = entry (memory ?t) pd b" "frame (memory u) pd b = frame (memory ?t) pd b" if "b < a" for b
    using u(3) that a(2) by (auto simp: frame_def)
  have fx: "frame (memory ?t) pd b \<noteq> x" if "b < a" for b using tp(8) [OF that] tp(7) by (simp add: frame_def)
  have "has_flag PTE_P (entry (memory u) pd b) \<and> has_flag PTE_U (entry (memory u) pd b)
      \<and> page_ok (kend u) (frame (memory u) pd b) \<and> frame (memory u) pd b \<notin> tabs (memory u) pd
      \<and> frame (memory u) pd b \<notin> set ys" if b: "b < a + 4096" for b
  proof (cases "b < a")
    case True
    then show ?thesis using d(3-7) [OF True] old [OF True] g(2,3) ku kt by auto
  next
    case False
    then show ?thesis using new [of b] b mu(3) [of b b] tp(3,5,6) g(2,3) ku table_entry(3) [OF tp(3)] by auto
  qed
  moreover have "b div 4096 = c div 4096" if b: "b < a + 4096" "c < a + 4096" "frame (memory u) pd b = frame (memory u) pd c" for b c
  proof -
    consider "b < a" "c < a" | "a \<le> b" "a \<le> c" | "b < a" "a \<le> c" | "a \<le> b" "c < a" by linarith
    then show ?thesis
    proof cases
      case 1
      then show ?thesis using d(8) [OF 1] b(3) old(2) [OF 1(1)] old(2) [OF 1(2)] by simp
    next
      case 2
      then show ?thesis using page_div [OF a(1), of b] page_div [OF a(1), of c] b(1,2) by auto
    next
      case 3
      then show ?thesis using b(2,3) old(2) [OF 3(1)] fx [OF 3(1)] new(2) [OF 3(2)] by simp
    next
      case 4
      then show ?thesis using b(1,3) old(2) [OF 4(2)] fx [OF 4(2)] new(2) [OF 4(1)] by simp
    qed
  qed
  ultimately have us': "uspace u pd ys (a + 4096)" using u(2) a(2) unfolding uspace_def by blast
  have un': "unmapped (memory u) pd (a + 4096)"
    using un u(3) tp(7) unfolding unmapped_def by auto
  have o: "umem (memory u) pd b = umem (memory s) pd b" if "b < a" for b
    using g(4) d(5-7) [OF that] old(2) [OF that] tp(9) [OF that] kt by (simp add: umem_def)
  have z: "umem (memory u) pd b = 0" if "a \<le> b" "b < a + 4096" for b
    using g(4) tp(3,5,6) new(2) [OF that] by (simp add: umem_def memset_at)
  have w: "all_writable (memory u) pd (a + 4096)" if "all_writable (memory s) pd a"
  proof -
    have "has_flag PTE_W (entry (memory u) pd b)" if "b < a + 4096" for b
    proof (cases "b < a")
      case True
      then show ?thesis using \<open>all_writable (memory s) pd a\<close> unfolding old(1) [OF True] tp(7) all_writable_def by blast
    next
      case False
      then show ?thesis using new(1) [of b] that mu(5) [of b b] by simp
    qed
    then show ?thesis unfolding all_writable_def by blast
  qed
  have fr: "mframe s u" using mframe_trans [OF mframeI g(1)] .
  show ?thesis
    by (rule exI [of _ ?t], rule exI [of _ u], rule exI [of _ ys], intro conjI allI impI run u(1,5) us' un' fr)
      (rule o, assumption, elim conjE, rule z, assumption+, rule w)
qed

text \<open>\<open>allocuvm\<close> with enough free pages: two for every new page, itself and perhaps a table.\<close>

lemma allocuvm_loop_run:
  assumes "uspace s pd xs a" "a mod 4096 = 0" "unmapped (memory s) pd a" "n * 4096 + a < newsz + 4096" "newsz \<le> n * 4096 + a"
    "newsz < KERNBASE" "2 * n \<le> length xs"
  shows "\<exists>t ys. allocuvm_loop pd a oldsz newsz s = Ok newsz t \<and> uspace t pd ys (a + n * 4096) \<and> mframe s t
    \<and> (\<forall>b < a. umem (memory t) pd b = umem (memory s) pd b)
    \<and> (\<forall>b. a \<le> b \<and> b < a + n * 4096 \<longrightarrow> umem (memory t) pd b = 0)
    \<and> (all_writable (memory s) pd a \<longrightarrow> all_writable (memory t) pd (a + n * 4096))"
  using assms
proof (induction n arbitrary: s xs a)
  case 0
  then have "allocuvm_loop pd a oldsz newsz s = Ok newsz s" by (simp add: allocuvm_loop.simps)
  then show ?case using 0 by auto
next
  case (Suc n)
  then obtain x y zs where xs: "xs = x # y # zs" by (cases xs; cases "tl xs") auto
  have a: "a < newsz" "a + 4096 \<le> KERNBASE" using Suc.prems(4,6) Suc.prems(2) by auto
  obtain t u ys where u: "thenk kalloc (zero_page x) s = Ok () t" "mappages pd a PGSIZE (V2P x) (PTE_W OR PTE_U) t = Ok 0 u"
    "uspace u pd ys (a + 4096)" "unmapped (memory u) pd (a + 4096)" "length (y # zs) \<le> Suc (length ys)" "mframe s u"
    "\<forall>b < a. umem (memory u) pd b = umem (memory s) pd b" "\<forall>b. a \<le> b \<and> b < a + 4096 \<longrightarrow> umem (memory u) pd b = 0"
    "all_writable (memory s) pd a \<longrightarrow> all_writable (memory u) pd (a + 4096)"
    using grow_page [of s pd x "y # zs" a] Suc.prems xs a(2) by blast
  obtain k where k: "kalloc s = Ok x k" "zero_page x k = Ok () t" "x \<noteq> 0"
    using u(1) take_page(1,2) [of s pd x "y # zs" a] Suc.prems(1) xs by (auto simp: thenk_eq_Ok)
  have step: "allocuvm_loop pd a oldsz newsz s = allocuvm_loop pd (a + 4096) oldsz newsz u"
    using k u(2) a(1) by (subst allocuvm_loop.simps) simp
  have e: "a + Suc n * 4096 = a + 4096 + n * 4096" by simp
  have "\<exists>t ys. allocuvm_loop pd (a + 4096) oldsz newsz u = Ok newsz t \<and> uspace t pd ys (a + 4096 + n * 4096) \<and> mframe u t
    \<and> (\<forall>b < a + 4096. umem (memory t) pd b = umem (memory u) pd b)
    \<and> (\<forall>b. a + 4096 \<le> b \<and> b < a + 4096 + n * 4096 \<longrightarrow> umem (memory t) pd b = 0)
    \<and> (all_writable (memory u) pd (a + 4096) \<longrightarrow> all_writable (memory t) pd (a + 4096 + n * 4096))"
    using Suc.prems(2,4-7) u(3-5) xs by (intro Suc.IH [of u ys]) simp_all
  then obtain v zs' where v: "allocuvm_loop pd (a + 4096) oldsz newsz u = Ok newsz v" "uspace v pd zs' (a + 4096 + n * 4096)"
    "mframe u v" "\<forall>b < a + 4096. umem (memory v) pd b = umem (memory u) pd b"
    "\<forall>b. a + 4096 \<le> b \<and> b < a + 4096 + n * 4096 \<longrightarrow> umem (memory v) pd b = 0"
    "all_writable (memory u) pd (a + 4096) \<longrightarrow> all_writable (memory v) pd (a + 4096 + n * 4096)" by blast
  have w: "all_writable (memory v) pd (a + 4096 + n * 4096)" if "all_writable (memory s) pd a" using u(9) v(6) that by blast
  have o: "umem (memory v) pd b = umem (memory s) pd b" if "b < a" for b using v(4) u(7) that by simp
  have z: "umem (memory v) pd b = 0" if "a \<le> b" "b < a + 4096 + n * 4096" for b
    using v(4,5) u(8) that by (cases "b < a + 4096") auto
  show ?case unfolding e step
    by (rule exI [of _ v], rule exI [of _ zs'], intro conjI allI impI v(1,2) mframe_trans [OF u(6) v(3)])
      (rule o, assumption, elim conjE, rule z, assumption+, rule w)
qed

lemma fresh_vm:
  assumes fp: "free_pages s (x # xs)"
  defines "t \<equiv> s\<lparr>memory := memset x 0 PGSIZE (memory s), freelist := ld32 (memory s) x\<rparr>"
  shows "thenk kalloc (zero_page x) s = Ok () t" "uspace t x xs 0" "unmapped (memory t) x 0"
proof -
  have x: "page_ok (kend s) x" "x \<notin> set xs" using fp by (auto simp: free_pages_def)
  have z: "pde (memory t) x i = 0" if "i < 1024" for i using ld32_zero_page [OF that] by (simp add: t_def)
  have "ld32 (memory t) y = ld32 (memory s) y" if "y \<in> set xs" for y
    using ld32_memset_other [of "kend s" x y 0] x that fp by (auto simp: t_def free_pages_def)
  then have "linked (memory t) (ld32 (memory s) x) xs"
    using fp linked_cong [of xs "memory t" "memory s"] by (simp add: free_pages_def)
  then have "free_pages t xs" using fp by (simp add: free_pages_def t_def)
  moreover have "kend t = kend s" by (simp add: t_def)
  ultimately show "uspace t x xs 0" using x z by (simp add: uspace_def vm_ok_def)
  show "unmapped (memory t) x 0" using z by (simp add: unmapped_def entry_def)
  show "thenk kalloc (zero_page x) s = Ok () t"
    using kalloc_run [OF fp] by (simp add: zero_page_def t_def)
qed

section \<open>Properties\<close>

text \<open>C34: mapping a range. For a page-aligned range none of whose pages is mapped, \<open>mappages\<close> either
  returns 0, and then every address of the range translates to its physical page with the given
  permissions, or it returns -1, which happens only when the allocator has run out of pages for page
  tables. In both cases no other translation changes, the page table stays well formed and only tables
  and free pages have been written.\<close>

theorem mappages_maps:
  assumes "vm_ok s pd xs" "va mod PGSIZE = 0" "0 < n" "va + n \<le> 2 ^ 32" "pa mod PGSIZE = 0"
    "pa + Suc ((n - 1) div PGSIZE) * PGSIZE \<le> 2 ^ 32" "perm < 4096"
    "\<forall>w. va \<le> w \<and> w < va + n \<longrightarrow> even (entry (memory s) pd w)"
  shows "(\<exists>t ys. mappages pd va n pa perm s = Ok 0 t \<and> vm_ok t pd ys
      \<and> (\<forall>w < 2 ^ 32. entry (memory t) pd w = (if va \<le> w \<and> w < va + Suc ((n - 1) div PGSIZE) * PGSIZE
           then pa + (w - va) div PGSIZE * PGSIZE + (perm OR PTE_P) else entry (memory s) pd w))
      \<and> grown pd s xs t ys)
    \<or> length xs \<le> (n - 1) div PGSIZE \<and> (\<exists>t ys. mappages pd va n pa perm s = Ok (- 1) t \<and> vm_ok t pd ys
      \<and> (\<forall>w < 2 ^ 32. w < va \<or> va + Suc ((n - 1) div PGSIZE) * PGSIZE \<le> w \<longrightarrow>
           entry (memory t) pd w = entry (memory s) pd w) \<and> grown pd s xs t ys)"
  using mappages_run [OF assms] unfolding mapped_to_def PGSIZE_def by fastforce

text \<open>C33: growing a process. With two free pages for each new page, \<open>allocuvm\<close> returns the new size;
  the old contents are unchanged, all new bytes read as zero, every page of the larger space is mapped
  for the user to a page of its own, writable if the old ones were, and these pages are disjoint from the page tables and from the
  free list.\<close>

theorem allocuvm_grows:
  assumes "uspace s pd xs (PGROUNDUP oldsz)" "unmapped (memory s) pd (PGROUNDUP oldsz)"
    "oldsz \<le> newsz" "PGROUNDUP oldsz < newsz" "newsz < KERNBASE" "2 * ((newsz - PGROUNDUP oldsz) div PGSIZE + 1) \<le> length xs"
  shows "\<exists>t ys. allocuvm pd oldsz newsz s = Ok newsz t \<and> uspace t pd ys newsz
    \<and> (\<forall>a < PGROUNDUP oldsz. umem (memory t) pd a = umem (memory s) pd a)
    \<and> (\<forall>a. PGROUNDUP oldsz \<le> a \<and> a < newsz \<longrightarrow> umem (memory t) pd a = 0)
    \<and> (all_writable (memory s) pd (PGROUNDUP oldsz) \<longrightarrow> all_writable (memory t) pd newsz)"
proof -
  let ?a = "PGROUNDUP oldsz"
  let ?k = "(newsz - ?a - 1) div 4096"
  have k: "?k * 4096 \<le> newsz - ?a - 1" "newsz - ?a - 1 < Suc ?k * 4096"
    using dividend_less_div_times [of 4096 "newsz - ?a - 1"] by simp_all
  have al: "?a mod 4096 = 0" using PGROUNDUP_aligned [of oldsz] by simp
  have b: "Suc ?k * 4096 + ?a < newsz + 4096" "newsz \<le> Suc ?k * 4096 + ?a" using k assms(4)
    by (simp_all only: mult_Suc, linarith+)
  have "?k \<le> (newsz - ?a) div 4096" by (intro div_le_mono) simp
  then have "2 * Suc ?k \<le> length xs" using assms(6) by simp
  from allocuvm_loop_run [OF assms(1) al assms(2) b assms(5) this, of oldsz]
  obtain t ys where t: "allocuvm_loop pd ?a oldsz newsz s = Ok newsz t" "uspace t pd ys (?a + Suc ?k * 4096)"
    "\<forall>c < ?a. umem (memory t) pd c = umem (memory s) pd c"
    "\<forall>c. ?a \<le> c \<and> c < ?a + Suc ?k * 4096 \<longrightarrow> umem (memory t) pd c = 0"
    "all_writable (memory s) pd ?a \<longrightarrow> all_writable (memory t) pd (?a + Suc ?k * 4096)" by blast
  have le: "newsz \<le> ?a + Suc ?k * 4096" using b(2) by linarith
  have "allocuvm pd oldsz newsz s = Ok newsz t" using t(1) assms(3,5) by (simp add: allocuvm_def)
  moreover have "uspace t pd ys newsz" using uspace_mono [OF t(2) le] .
  moreover have "\<forall>c. ?a \<le> c \<and> c < newsz \<longrightarrow> umem (memory t) pd c = 0" using t(4) le by (meson less_le_trans)
  moreover have "all_writable (memory s) pd ?a \<longrightarrow> all_writable (memory t) pd newsz"
    using t(5) le unfolding all_writable_def by (meson less_le_trans)
  ultimately show ?thesis using t(3) by blast
qed

text \<open>C35: copying out to a process. If the destination lies inside the user memory, \<open>copyout\<close> returns
  0; afterwards the process reads exactly the given bytes there, every other byte of its memory is as
  before, and the page table still maps the same pages.\<close>

theorem copyout_writes:
  assumes "uspace s pd xs n" "va + length buf \<le> n"
  shows "\<exists>t. copyout pd va buf s = Ok 0 t \<and> uspace t pd xs n
    \<and> (\<forall>a < n. umem (memory t) pd a = (if va \<le> a \<and> a < va + length buf then buf ! (a - va) else umem (memory s) pd a))"
  using copyout_run [OF assms] by blast

text \<open>An address space on a small pool of pages, for the witnesses.\<close>

lemma page_pool:
  assumes f: "free_pages r []" and k: "kend r \<le> KERNLINK + 4096"
  shows "\<exists>s x xs. freerange (KERNLINK + 4096) (KERNLINK + 40960) r = Ok () s \<and> free_pages s (x # xs) \<and> length xs = 8
    \<and> kend s = kend r"
proof -
  let ?a = "KERNLINK + 4096"
  have up: "PGROUNDUP ?a = ?a" by (intro PGROUNDUP_id) simp_all
  have "\<exists>s'. freerange ?a (KERNLINK + 40960) r = Ok () s'
    \<and> free_pages s' (rev (pages (PGROUNDUP ?a) (KERNLINK + 40960)) @ []) \<and> kend s' = kend r"
    by (rule freerange_run [OF f]) (use k in \<open>simp_all only: up\<close>, simp_all)
  then obtain s where "freerange ?a (KERNLINK + 40960) r = Ok () s"
    "free_pages s (rev (pages ?a (KERNLINK + 40960)))" "kend s = kend r" unfolding up append_Nil2 by blast
  moreover have "length (rev (pages (KERNLINK + 4096) (KERNLINK + 40960))) = 9" by (simp add: pages_def)
  then obtain x xs where "rev (pages (KERNLINK + 4096) (KERNLINK + 40960)) = x # xs" "length xs = 8"
    by (cases "rev (pages (KERNLINK + 4096) (KERNLINK + 40960))") auto
  ultimately show ?thesis by auto
qed

lemma demo_pool:
  "\<exists>s x xs. freerange (KERNLINK + 4096) (KERNLINK + 40960) boot_kkmem = Ok () s \<and> free_pages s (x # xs) \<and> length xs = 8"
proof -
  have "free_pages boot_kkmem []" "kend boot_kkmem \<le> KERNLINK + 4096"
    by (simp_all add: free_pages_def boot_kkmem_def ksched.defs lottery_boot_def kbase.defs boot_kbase_def)
  then show ?thesis using page_pool by blast
qed

theorem mappages_maps_witness:
  "\<exists>s x t. freerange (KERNLINK + 4096) (KERNLINK + 40960) boot_kkmem = Ok () s \<and>
     thenk (thenk kalloc (zero_page x)) (mappages x 8192 4096 12288 6) s = Ok 0 t \<and> entry (memory t) x 8200 = 12288 + 7"
proof -
  obtain s x xs where s: "freerange (KERNLINK + 4096) (KERNLINK + 40960) boot_kkmem = Ok () s"
    "free_pages s (x # xs)" "length xs = 8" using demo_pool by blast
  obtain t where t: "thenk kalloc (zero_page x) s = Ok () t" "uspace t x xs 0" "unmapped (memory t) x 0"
    using fresh_vm [OF s(2)] by blast
  have ev: "\<forall>w. 8192 \<le> w \<and> w < 8192 + 4096 \<longrightarrow> even (entry (memory t) x w)" using t(3) by (simp add: unmapped_def)
  obtain u where "mappages x 8192 4096 12288 6 t = Ok 0 u"
    "\<forall>w < 2 ^ 32. entry (memory u) x w = (if 8192 \<le> w \<and> w < 12288 then 12288 + (w - 8192) div 4096 * 4096 + 7 else entry (memory t) x w)"
    using mappages_maps [OF uspaceD(1) [OF t(2)], of 8192 4096 12288 6] ev s(3) by auto
  then show ?thesis using s(1) t(1) by (intro exI [of _ s] exI [of _ x] exI [of _ u]) simp
qed

theorem allocuvm_grows_witness:
  "\<exists>s x t. freerange (KERNLINK + 4096) (KERNLINK + 40960) boot_kkmem = Ok () s \<and>
     thenk (thenk kalloc (zero_page x)) (allocuvm x 0 5000) s = Ok 5000 t \<and> umem (memory t) x 4999 = 0"
proof -
  obtain s x xs where s: "freerange (KERNLINK + 4096) (KERNLINK + 40960) boot_kkmem = Ok () s"
    "free_pages s (x # xs)" "length xs = 8" using demo_pool by blast
  obtain t where t: "thenk kalloc (zero_page x) s = Ok () t" "uspace t x xs 0" "unmapped (memory t) x 0"
    using fresh_vm [OF s(2)] by blast
  have z: "PGROUNDUP 0 = 0" by (simp add: PGROUNDUP_id)
  obtain u where "allocuvm x 0 5000 t = Ok 5000 u" "\<forall>a. 0 \<le> a \<and> a < 5000 \<longrightarrow> umem (memory u) x a = 0"
    using allocuvm_grows [of t x xs 0 5000] t(2,3) s(3) by (auto simp: z)
  then show ?thesis using s(1) t(1) by (intro exI [of _ s] exI [of _ x] exI [of _ u]) simp
qed

theorem copyout_writes_witness:
  "\<exists>s x t. freerange (KERNLINK + 4096) (KERNLINK + 40960) boot_kkmem = Ok () s \<and>
     thenk (thenk kalloc (zero_page x)) (thenk (allocuvm x 0 5000) (copyout x 4095 [1, 2])) s = Ok 0 t
     \<and> umem (memory t) x 4095 = 1 \<and> umem (memory t) x 4096 = 2"
proof -
  obtain s x xs where s: "freerange (KERNLINK + 4096) (KERNLINK + 40960) boot_kkmem = Ok () s"
    "free_pages s (x # xs)" "length xs = 8" using demo_pool by blast
  obtain t where t: "thenk kalloc (zero_page x) s = Ok () t" "uspace t x xs 0" "unmapped (memory t) x 0"
    using fresh_vm [OF s(2)] by blast
  obtain u ys where u: "allocuvm_loop x 0 0 5000 t = Ok 5000 u" "uspace u x ys (0 + 2 * 4096)"
    using allocuvm_loop_run [of t x xs 0 2 5000 0] t(2,3) s(3) by auto
  have "allocuvm x 0 5000 t = Ok 5000 u" using u(1) by (simp add: allocuvm_def PGROUNDUP_id)
  moreover obtain v where "copyout x 4095 [1, 2] u = Ok 0 v"
    "\<forall>a < 8192. umem (memory v) x a = (if 4095 \<le> a \<and> a < 4097 then [1, 2] ! (a - 4095) else umem (memory u) x a)"
    using copyout_writes [of u x ys 8192 4095 "[1, 2]"] u(2) by auto
  ultimately show ?thesis using s(1) t(1) by (intro exI [of _ s] exI [of _ x] exI [of _ v]) simp
qed

end
