(* ===== verification/Umem.thy ===== *)
theory Umem
  imports Vm Disk_Layout
begin

text \<open>
  Kernel accesses to user memory. The kernel dereferences user pointers directly, so the processor
  translates them with the page table in \<open>cr3\<close>; from \<open>KERNBASE\<close> up the mapping is the kernel's own
  (\<open>P2V\<close>). An access to a page that is not mapped, or a store to a page that is not writeable
  (entry.S sets \<open>CR0_WP\<close>), is a page fault in kernel mode.
\<close>

definition mmu :: "'z kkmem_scheme \<Rightarrow> bool \<Rightarrow> nat \<Rightarrow> nat option" where
  "mmu s write va = (if KERNBASE \<le> va then Some va
     else let e = entry (memory s) (P2V (cr3 s)) va in
       if has_flag PTE_P e \<and> (write \<longrightarrow> has_flag PTE_W e) then Some (P2V (PTE_ADDR e) + va mod PGSIZE) else None)"

definition ldb :: "nat \<Rightarrow> ('z kkmem_scheme, u8) k" where
  "ldb va = bindk (kget (\<lambda>s. mmu s False va)) (\<lambda>a.
     case a of None \<Rightarrow> kfault ''page fault'' | Some a \<Rightarrow> kget (\<lambda>s. memory s a))"

definition stb :: "nat \<Rightarrow> u8 \<Rightarrow> ('z kkmem_scheme, unit) k" where
  "stb va b = bindk (kget (\<lambda>s. mmu s True va)) (\<lambda>a.
     case a of None \<Rightarrow> kfault ''page fault'' | Some a \<Rightarrow> kput (\<lambda>s. s\<lparr>memory := (memory s)(a := b)\<rparr>))"

primrec ldbs :: "nat \<Rightarrow> nat \<Rightarrow> ('z kkmem_scheme, u8 list) k" where
  "ldbs va 0 = kret []"
| "ldbs va (Suc n) = bindk (ldb va) (\<lambda>b. bindk (ldbs (n32 (va + 1)) n) (\<lambda>bs. kret (b # bs)))"

primrec stbs :: "nat \<Rightarrow> u8 list \<Rightarrow> ('z kkmem_scheme, unit) k" where
  "stbs va [] = kret ()"
| "stbs va (b # bs) = thenk (stb va b) (stbs (n32 (va + 1)) bs)"

text \<open>A 32-bit word.\<close>

definition ldu32 :: "nat \<Rightarrow> ('z kkmem_scheme, nat) k" where
  "ldu32 va = bindk (ldbs va 4) (\<lambda>bs. kret (le bs))"

definition stu32 :: "nat \<Rightarrow> nat \<Rightarrow> ('z kkmem_scheme, unit) k" where
  "stu32 va v = stbs va (unle 4 v)"

text \<open>The destination of a read and the source of a write: what happens to the bytes at an offset.\<close>

type_synonym 's sink = "nat \<Rightarrow> u8 list \<Rightarrow> ('s, unit) k"
type_synonym 's source = "nat \<Rightarrow> nat \<Rightarrow> ('s, u8 list) k"

definition to_user :: "nat \<Rightarrow> 'z kkmem_scheme sink" where
  "to_user dst off bs = stbs (n32 (dst + off)) bs"

definition from_user :: "nat \<Rightarrow> 'z kkmem_scheme source" where
  "from_user src off n = ldbs (n32 (src + off)) n"

section \<open>The user memory of the running process\<close>

text \<open>The first \<open>n\<close> bytes of the address space in \<open>cr3\<close> are user memory that may be written.\<close>

definition uactive :: "'z kkmem_scheme \<Rightarrow> nat \<Rightarrow> nat list \<Rightarrow> nat \<Rightarrow> bool" where
  "uactive s pd xs n \<longleftrightarrow> uspace s pd xs n \<and> cr3 s = V2P pd \<and> all_writable (memory s) pd n"

lemma uactive_unheld: "uactive s pd xs n \<Longrightarrow> KmemLk \<notin> set (held s)"
  using uspaceD(1) vm_okD(1) unfolding uactive_def free_pages_def by blast

lemma uspace_cong:
  assumes u: "uspace s pd xs n" and t: "memory t = memory s" "kend t = kend s" "freelist t = freelist s"
    and h: "KmemLk \<notin> set (held t)"
  shows "uspace t pd xs n"
proof -
  have f: "free_pages t xs" if "free_pages s xs" using that h unfolding free_pages_def t by blast
  have "vm_ok t pd xs" if "vm_ok s pd xs"
    using that f unfolding vm_ok_def t by (elim conjE, intro conjI) (blast | assumption)+
  then show ?thesis
    using u unfolding uspace_def t by (elim conjE, intro conjI) (blast | assumption)+
qed

lemma uactive_cong:
  assumes u: "uactive s pd xs n" and t: "memory t = memory s" "kend t = kend s" "freelist t = freelist s" "cr3 t = cr3 s"
    and h: "KmemLk \<notin> set (held t)"
  shows "uactive t pd xs n"
  using u uspace_cong [OF _ t(1-3) h] unfolding uactive_def t by blast

lemma uactive_mmu:
  assumes "uactive s pd xs n" "a < n"
  shows "mmu s w a = Some (frame (memory s) pd a + a mod 4096)"
proof -
  note u = uspaceD [OF assms(1) [unfolded uactive_def, THEN conjunct1]]
  have "KERNBASE < pd" "pd < 2 ^ 32" using vm_okD(2) [OF u(1)] by (auto simp: page_ok_def)
  then have "P2V (cr3 s) = pd" using assms(1) P2V_V2P [of pd] by (simp add: uactive_def)
  then show ?thesis
    using u(2) u(3) [OF assms(2)] assms by (auto simp: mmu_def Let_def frame_def uactive_def all_writable_def simp del: has_flag_P)
qed

lemma ldb_run: "uactive s pd xs n \<Longrightarrow> a < n \<Longrightarrow> ldb a s = Ok (umem (memory s) pd a) s"
  by (simp add: ldb_def uactive_mmu umem_def)

lemma stb_run:
  assumes u: "uactive s pd xs n" and a: "a < n"
  shows "\<exists>m. stb a b s = Ok () (s\<lparr>memory := m\<rparr>) \<and> uactive (s\<lparr>memory := m\<rparr>) pd xs n
    \<and> (\<forall>c < n. umem m pd c = (if c = a then b else umem (memory s) pd c))"
proof -
  let ?p = "a - a mod 4096"
  let ?m = "(memory s)(frame (memory s) pd a + a mod 4096 := b)"
  have us: "uspace s pd xs n" using u by (simp add: uactive_def)
  have p: "?p < n" "?p mod 4096 = 0" "?p div 4096 = a div 4096" "?p + a mod 4096 = a" "a mod 4096 + length [b] \<le> 4096"
    using a by (auto simp: minus_mod_eq_mult_div)
  have n: "n \<le> KERNBASE" using uspaceD(2) [OF us] .
  then have "frame (memory s) pd ?p = frame (memory s) pd a"
    using entry_page [of ?p a "memory s" pd] a p(1,3) by (simp add: frame_def)
  then have w: "wr (frame (memory s) pd ?p + a mod 4096) [b] (memory s) = ?m"
    by (auto simp: wr_def fun_eq_iff)
  note st = user_store [OF us p(1,2,5), unfolded w]
  have um: "umem ?m pd c = (if c = a then b else umem (memory s) pd c)" if "c < n" for c
    using st(2) [OF that] p(4) by (cases "c = a") auto
  have f: "page_ok (kend s) (frame (memory s) pd a)" "frame (memory s) pd a \<notin> tabs (memory s) pd"
    "frame (memory s) pd a \<notin> set xs" using uspaceD(5-7) [OF us] a by blast+
  have "\<forall>v i. page_ok (kend s) v \<and> v \<noteq> frame (memory s) pd a \<and> i < 4096 \<longrightarrow> ?m (v + i) = memory s (v + i)"
    using wr_other_page [OF f(1) _ _ _ p(5)] w \<open>frame (memory s) pd ?p = frame (memory s) pd a\<close> by metis
  note sp = store_page [OF uspaceD(1) [OF us] f this]
  have "uactive (s\<lparr>memory := ?m\<rparr>) pd xs n"
    using u st(1) by (simp add: uactive_def all_writable_def sp(2))
  moreover have "stb a b s = Ok () (s\<lparr>memory := ?m\<rparr>)" by (simp add: stb_def uactive_mmu [OF u a])
  ultimately show ?thesis using um by blast
qed

lemma ldbs_run:
  "uactive s pd xs n \<Longrightarrow> a + k \<le> n \<Longrightarrow> ldbs a k s = Ok (map (umem (memory s) pd) [a..<a + k]) s"
proof (induction k arbitrary: a)
  case (Suc k)
  have "n \<le> KERNBASE" using Suc.prems(1) uspaceD(2) unfolding uactive_def by blast
  then have a: "n32 (a + 1) = a + 1" using Suc.prems(2) by (intro n32_id) simp
  have "ldbs (a + 1) k s = Ok (map (umem (memory s) pd) [a + 1..<a + 1 + k]) s" using Suc by simp
  moreover have "[a..<a + Suc k] = a # [a + 1..<a + 1 + k]" by (simp add: upt_conv_Cons)
  ultimately show ?case using ldb_run [OF Suc.prems(1), of a] Suc.prems(2) a by simp
qed simp

text \<open>Memory from \<open>s\<close> to \<open>t\<close> with the bytes \<open>bs\<close> stored at user address \<open>a\<close>.\<close>

definition ustored :: "nat \<Rightarrow> nat \<Rightarrow> nat \<Rightarrow> u8 list \<Rightarrow> mem \<Rightarrow> mem \<Rightarrow> bool" where
  "ustored pd n a bs m m' \<longleftrightarrow>
     (\<forall>c < n. umem m' pd c = (if a \<le> c \<and> c < a + length bs then bs ! (c - a) else umem m pd c))"

lemma ustored_Nil: "ustored pd n a [] m m"
  by (auto simp: ustored_def)

lemma ustored_Cons:
  assumes "\<forall>c < n. umem m' pd c = (if c = a then b else umem m pd c)" "ustored pd n (a + 1) bs m' m''"
  shows "ustored pd n a (b # bs) m m''"
  using assms by (auto simp: ustored_def nth_Cons')

lemma stbs_run:
  "uactive s pd xs n \<Longrightarrow> a + length bs \<le> n \<Longrightarrow>
   \<exists>m. stbs a bs s = Ok () (s\<lparr>memory := m\<rparr>) \<and> uactive (s\<lparr>memory := m\<rparr>) pd xs n \<and> ustored pd n a bs (memory s) m"
proof (induction bs arbitrary: a s)
  case Nil then show ?case by (intro exI [of _ "memory s"]) (simp add: ustored_Nil)
next
  case (Cons b bs)
  have "n \<le> KERNBASE" using Cons.prems(1) uspaceD(2) unfolding uactive_def by blast
  then have a: "n32 (a + 1) = a + 1" using Cons.prems(2) by (intro n32_id) simp
  have an: "a < n" using Cons.prems(2) by simp
  obtain m where m: "stb a b s = Ok () (s\<lparr>memory := m\<rparr>)" "uactive (s\<lparr>memory := m\<rparr>) pd xs n"
    "\<forall>c < n. umem m pd c = (if c = a then b else umem (memory s) pd c)"
    using stb_run [OF Cons.prems(1) an] by blast
  have l: "a + 1 + length bs \<le> n" using Cons.prems(2) by simp
  obtain m' where m': "stbs (a + 1) bs (s\<lparr>memory := m\<rparr>) = Ok () (s\<lparr>memory := m'\<rparr>)"
    "uactive (s\<lparr>memory := m'\<rparr>) pd xs n" "ustored pd n (a + 1) bs m m'"
    using Cons.IH [OF m(2) l] by auto
  then have "stbs a (b # bs) s = Ok () (s\<lparr>memory := m'\<rparr>)" using m(1) a by simp
  then show ?case using m'(2) ustored_Cons [OF m(3) m'(3)] by blast
qed

text \<open>A process with one page of memory, on the pool of pages of an empty allocator.\<close>

lemma user_page:
  fixes r :: "'z kkmem_scheme"
  assumes "free_pages r []" "kend r \<le> KERNLINK + 4096"
  obtains m f x xs where "uactive (r\<lparr>memory := m, freelist := f, cr3 := V2P x\<rparr>) x xs 4096" "\<forall>a < 4096. umem m x a = 0"
proof -
  obtain s :: "'z kkmem_scheme" and x xs where s: "free_pages s (x # xs)" "length xs = 8" "kend s = kend r" using page_pool [OF assms] by blast
  obtain y ys where xs: "xs = y # ys" "ys \<noteq> []" using s(2) by (cases xs; cases "tl xs") auto
  let ?t = "s\<lparr>memory := memset x 0 PGSIZE (memory s), freelist := ld32 (memory s) x\<rparr>"
  note t = fresh_vm(2,3) [OF s(1), unfolded xs(1)]
  have "all_writable (memory ?t) x 0" by (simp add: all_writable_def)
  then obtain u zs where u: "uspace u x zs 4096" "\<forall>a < 4096. umem (memory u) x a = 0" "all_writable (memory u) x 4096" "mframe ?t u"
    using grow_page [OF t(1) _ _ t(2) xs(2)] by auto
  have "kend u = kend r" using mframe_kend [OF u(4)] s(3) by simp
  moreover have "KmemLk \<notin> set (held r)" using assms(1) by (simp add: free_pages_def)
  ultimately have "uactive (r\<lparr>memory := memory u, freelist := freelist u, cr3 := V2P x\<rparr>) x zs 4096"
    using u(3) unfolding uactive_def by (intro conjI uspace_cong [OF u(1)]) simp_all
  then show ?thesis using u(2) that by blast
qed

end
