(* ===== verification/Digits.thy ===== *)
theory Digits
  imports Prelude
begin

text \<open>
  Numbers as text, shared by the kernel's \<open>cprintf\<close> (console.c) and the user library (printf.c,
  ulib.c): the digit loop of \<open>printint\<close>, and the value a digit sequence stands for.
\<close>

lemma div_shrinks: "\<not> base < 2 \<Longrightarrow> x div base \<noteq> 0 \<Longrightarrow> x div base < (x :: nat)"
  by (cases "x = 0") auto

text \<open>The digits in the order the loop \<open>do ... while((x /= base) != 0)\<close> produces them, least
  significant first; the base is 10 or 16.\<close>

function digits_rev :: "nat \<Rightarrow> nat \<Rightarrow> nat list" where
  "digits_rev base x = (x mod base) # (if base < 2 \<or> x div base = 0 then [] else digits_rev base (x div base))"
  by pat_completeness auto
termination
  by (relation "measure snd") (auto intro: div_shrinks)

declare digits_rev.simps [simp del]

primrec digits_val :: "nat \<Rightarrow> nat list \<Rightarrow> nat" where
  "digits_val base [] = 0"
| "digits_val base (d # ds) = d + base * digits_val base ds"

lemma digits_val_rev:
  assumes "2 \<le> base"
  shows "digits_val base (digits_rev base x) = x"
  using assms
proof (induction base x rule: digits_rev.induct)
  case (1 base x)
  have "x mod base + base * (x div base) = x" by simp
  then show ?case using 1 by (subst digits_rev.simps) (cases "x div base = 0"; simp)
qed

lemma digits_less:
  assumes "2 \<le> base" "d \<in> set (digits_rev base x)"
  shows "d < base"
  using assms
proof (induction base x rule: digits_rev.induct)
  case (1 base x)
  from 1(3) show ?case by (subst (asm) digits_rev.simps) (use 1(1,2) in \<open>auto split: if_splits\<close>)
qed

lemma digits_length:
  assumes "2 \<le> base" "x < base ^ n" "0 < n"
  shows "length (digits_rev base x) \<le> n"
  using assms
proof (induction n arbitrary: x)
  case (Suc n)
  show ?case
  proof (cases "x div base = 0")
    case True then show ?thesis by (subst digits_rev.simps) simp
  next
    case False
    have "x div base < base ^ n" using Suc.prems by (simp add: less_mult_imp_div_less mult.commute)
    moreover from this False have "0 < n" by (cases n) auto
    ultimately show ?thesis using Suc.IH [of "x div base"] Suc.prems(1) False by (subst digits_rev.simps) simp
  qed
qed simp

abbreviation codes :: "string \<Rightarrow> nat list" where
  "codes s \<equiv> map of_char s"

end
