(* ===== verification/Kbd.thy ===== *)
theory Kbd
  imports Digits
begin

text \<open>
  The keyboard driver kbd.c with the scan code tables of kbd.h. The controller is a queue of the
  bytes that its data port will deliver; its status bit \<open>KBS_DIB\<close> is set while the queue is not
  empty. The static variable \<open>shift\<close> holds the modifier bits.
\<close>

unbundle bit_operations_syntax

section \<open>Tables\<close>

definition NO :: nat where [simp]: "NO = 0"
definition SHIFT :: u32 where [simp]: "SHIFT = 1"
definition CTL :: u32 where [simp]: "CTL = 2"
definition ALT :: u32 where [simp]: "ALT = 4"
definition CAPSLOCK :: u32 where [simp]: "CAPSLOCK = 8"
definition NUMLOCK :: u32 where [simp]: "NUMLOCK = 16"
definition SCROLLLOCK :: u32 where [simp]: "SCROLLLOCK = 32"
definition E0ESC :: u32 where [simp]: "E0ESC = 64"

definition shiftcode :: "nat \<Rightarrow> u32" where
  "shiftcode d = (if d = 0x1D then CTL else if d = 0x2A then SHIFT else if d = 0x36 then SHIFT
     else if d = 0x38 then ALT else if d = 0x9D then CTL else if d = 0xB8 then ALT else 0)"

definition togglecode :: "nat \<Rightarrow> u32" where
  "togglecode d = (if d = 0x3A then CAPSLOCK else if d = 0x45 then NUMLOCK else if d = 0x46 then SCROLLLOCK else 0)"

text \<open>The first rows of the tables, and the entries of the keys with an \<open>E0\<close> prefix, whose codes from
  \<open>KEY_HOME\<close> to \<open>KEY_DEL\<close> are \<open>0xE0\<close> to \<open>0xE9\<close>.\<close>

definition keypad :: "nat list" where
  "keypad = replicate 13 NO @ codes ''789-456+1230.'' @ replicate 4 NO"

definition normal_rows :: "nat list" where
  "normal_rows = [NO, 0x1B] @ codes ''1234567890-='' @ [8, 9] @ codes ''qwertyuiop[]'' @ [10, NO]
     @ codes ''asdfghjkl;'' @ [39, 96, NO, 92] @ codes ''zxcvbnm,./'' @ [NO, 42, NO, 32] @ keypad"

definition shift_rows :: "nat list" where
  "shift_rows = [NO, 27] @ codes ''!@#$%^&*()_+'' @ [8, 9] @ codes ''QWERTYUIOP{}'' @ [10, NO]
     @ codes ''ASDFGHJKL:'' @ [34, 126, NO, 124] @ codes ''ZXCVBNM<>?'' @ [NO, 42, NO, 32] @ keypad"

text \<open>\<open>C(x)\<close> is \<open>x - '@'\<close> in an unsigned byte.\<close>

definition ctl :: "char \<Rightarrow> nat" where
  "ctl c = (of_char c + 256 - 64) mod 256"

definition ctl_rows :: "nat list" where
  "ctl_rows = replicate 16 NO @ map ctl ''QWERTYUIOP'' @ [NO, NO, 13, NO] @ map ctl ''ASDFGHJKL'' @ replicate 4 NO
     @ [(92 + 256 - 64) mod 256] @ map ctl ''ZXCVBNM'' @ [NO, NO, ctl CHR ''/'', NO, NO]"

definition e0_keys :: "nat \<Rightarrow> nat" where
  "e0_keys d = (if d = 0xC8 then 0xE2 else if d = 0xD0 then 0xE3 else if d = 0xC9 then 0xE6
     else if d = 0xD1 then 0xE7 else if d = 0xCB then 0xE4 else if d = 0xCD then 0xE5
     else if d = 0x97 then 0xE0 else if d = 0xCF then 0xE1 else if d = 0xD2 then 0xE8
     else if d = 0xD3 then 0xE9 else NO)"

definition keymap :: "nat list \<Rightarrow> nat \<Rightarrow> nat \<Rightarrow> nat \<Rightarrow> nat" where
  "keymap rows enter div_key d = (if d < length rows then rows ! d else if d = 0x9C then enter
     else if d = 0xB5 then div_key else e0_keys d)"

definition normalmap :: "nat \<Rightarrow> nat" where
  "normalmap = keymap normal_rows 10 47"

definition shiftmap :: "nat \<Rightarrow> nat" where
  "shiftmap = keymap shift_rows 10 47"

definition ctlmap :: "nat \<Rightarrow> nat" where
  "ctlmap = keymap ctl_rows 13 (ctl CHR ''/'')"

definition charcode :: "u32 \<Rightarrow> nat \<Rightarrow> nat" where
  "charcode m = (if m = 0 then normalmap else if m = 1 then shiftmap else ctlmap)"

section \<open>The driver\<close>

record kbd =
  kbd_shift :: u32
  kbd_port :: "u8 list"

definition kbdgetc :: "kbd \<Rightarrow> int \<times> kbd" where
  "kbdgetc k = (case kbd_port k of [] \<Rightarrow> (- 1, k) | b # bs \<Rightarrow>
     let data = unat b; shift = kbd_shift k; k = k\<lparr>kbd_port := bs\<rparr> in
     if data = 0xE0 then (0, k\<lparr>kbd_shift := shift OR E0ESC\<rparr>)
     else if 0x80 \<le> data then
       (let data = (if shift AND E0ESC \<noteq> 0 then data else data mod 0x80) in
        (0, k\<lparr>kbd_shift := shift AND NOT (shiftcode data OR E0ESC)\<rparr>))
     else
       (let esc = shift AND E0ESC \<noteq> 0;
            data = (if esc then data + 0x80 else data);
            shift = (if esc then shift AND NOT E0ESC else shift);
            shift = (shift OR shiftcode data) XOR togglecode data;
            c = charcode (shift AND (CTL OR SHIFT)) data;
            c = (if shift AND CAPSLOCK \<noteq> 0 then
                   if 97 \<le> c \<and> c \<le> 122 then c - 32 else if 65 \<le> c \<and> c \<le> 90 then c + 32 else c
                 else c)
        in (int c, k\<lparr>kbd_shift := shift\<rparr>)))"

text \<open>What \<open>consoleintr\<close> gets by calling \<open>kbdgetc\<close> until it returns a negative value.\<close>

lemma kbdgetc_port: "0 \<le> fst (kbdgetc k) \<Longrightarrow> length (kbd_port (snd (kbdgetc k))) < length (kbd_port k)"
  by (auto simp: kbdgetc_def Let_def split: list.splits)

function kbd_drain :: "kbd \<Rightarrow> int list \<times> kbd" where
  "kbd_drain k = (case kbdgetc k of (c, k') \<Rightarrow>
     if 0 \<le> c then (case kbd_drain k' of (cs, k'') \<Rightarrow> (c # cs, k'')) else ([], k'))"
  by pat_completeness auto
termination
  by (relation "measure (\<lambda>k. length (kbd_port k))") (simp, metis fst_conv snd_conv kbdgetc_port in_measure)

declare kbd_drain.simps [simp del]

section \<open>Properties\<close>

lemma charcode_bound: "charcode m d < 256"
proof -
  have of_char: "of_char c < (256 :: nat)" for c using of_char_of [where ?'a = nat] nat_of_char_less_256 [of c] by simp
  have "c < 256" if "c \<in> set rows" "rows \<in> {normal_rows, shift_rows, ctl_rows}" for c rows
    using that by (auto simp: normal_rows_def shift_rows_def ctl_rows_def keypad_def ctl_def of_char)
  then have row: "rows ! d < 256" if "rows \<in> {normal_rows, shift_rows, ctl_rows}" "d < length rows" for rows
    using that nth_mem by blast
  have "e0_keys d < 256" by (simp add: e0_keys_def)
  then have "keymap rows e v d < 256" if "rows \<in> {normal_rows, shift_rows, ctl_rows}" "e < 256" "v < 256" for rows e v
    using that row by (simp add: keymap_def del: insert_iff)
  then show ?thesis by (auto simp: charcode_def normalmap_def shiftmap_def ctlmap_def ctl_def)
qed

lemma kbdgetc_step:
  assumes "kbd_port k = b # bs"
  shows "fst (kbdgetc k) \<in> {0..255} \<and> kbd_port (snd (kbdgetc k)) = bs"
proof -
  have "charcode m d < 256" for m d by (rule charcode_bound)
  then have *: "charcode m d \<le> 255" for m d by (simp add: less_Suc_eq_le [symmetric])
  show ?thesis using assms * by (auto simp: kbdgetc_def Let_def)
qed


end
