(* ===== verification/Console.thy ===== *)
theory Console
  imports Inode Umem Kbd Digits
begin

text \<open>
  The console: console.c over the screen memory and the serial port of uart.c. Output goes to both;
  input arrives in interrupts, is edited in the ring \<open>input\<close> and is handed to readers line by line.
  \<open>consoleintr\<close> takes the list of values that its argument \<open>getc\<close> returns before a negative one.
  The wait in \<open>uartputc\<close> for an idle transmitter is bounded by the code and \<open>microdelay\<close> is empty, so
  that sending a byte is appending it to the bytes sent.
\<close>

unbundle bit_operations_syntax

section \<open>State\<close>

definition INPUT_BUF :: nat where [simp]: "INPUT_BUF = 128"
definition BACKSPACE :: nat where [simp]: "BACKSPACE = 256"
definition CONSOLE :: nat where [simp]: "CONSOLE = 1"

text \<open>The functions that ever stand in \<open>devsw\<close>.\<close>

datatype devfn = Consoleread | Consolewrite

record devsw =
  dev_read :: "devfn option"
  dev_write :: "devfn option"

record kcons = kfs +
  panicked :: bool
  cons_locking :: bool
  crt :: "nat \<Rightarrow> u16"
  crt_pos :: nat
  uart :: bool
  uart_out :: "u8 list"
  uart_in :: "u8 list"
  in_buf :: "u8 list"
  in_r :: u32
  in_w :: u32
  in_e :: u32
  devsw_tab :: "devsw list"
  kbd_dev :: kbd

section \<open>Output\<close>

definition uartputc :: "nat \<Rightarrow> ('z kcons_scheme, unit) k" where
  "uartputc c = bindk (kget uart) (\<lambda>u. whenk u (kput (\<lambda>s. s\<lparr>uart_out := uart_out s @ [of_nat c]\<rparr>)))"

definition uartinit :: "bool \<Rightarrow> ('z kcons_scheme, unit) k" where
  "uartinit present = whenk present
     (thenk (kput (\<lambda>s. s\<lparr>uart := True\<rparr>)) (eachk (\<lambda>c. uartputc (of_char c)) (''xv6...'' @ [char_of (10 :: nat)])))"

text \<open>The cursor position after the character itself, before scrolling; the cell that is written.\<close>

definition cgaputc :: "nat \<Rightarrow> ('z kcons_scheme, unit) k" where
  "cgaputc c = (bindk (kget crt_pos) (\<lambda>pos.
     thenk (whenk (c \<noteq> 10 \<and> c \<noteq> BACKSPACE) (kput (\<lambda>s. s\<lparr>crt := (crt s)(pos := of_nat (c mod 256) OR 0x0700)\<rparr>)))
     ((let pos = (if c = 10 then pos + (80 - pos mod 80) else if c = BACKSPACE then pos - 1 else pos + 1) in
     if 25 * 80 < pos then kpanic ''pos under/overflow'' else ((let scroll = (24 \<le> pos div 80) in
       thenk (whenk scroll (kput (\<lambda>s. s\<lparr>crt := (\<lambda>i. if i < 23 * 80 then crt s (i + 80) else crt s i)\<rparr>)))
       ((let pos = (if scroll then pos - 80 else pos) in
       thenk (whenk scroll (kput (\<lambda>s. s\<lparr>crt := (\<lambda>i. if pos \<le> i \<and> i < 24 * 80 then 0 else crt s i)\<rparr>)))
       (thenk (kput (\<lambda>s. s\<lparr>crt_pos := pos\<rparr>))
       (kput (\<lambda>s. s\<lparr>crt := (crt s)(pos := 0x20 OR 0x0700)\<rparr>)))))))))))"

definition consputc :: "nat \<Rightarrow> ('z kcons_scheme, unit) k" where
  "consputc c = (bindk (kget panicked) (\<lambda>p.
     if p then (\<lambda>_. Hang) else (thenk (if c = BACKSPACE then (thenk (uartputc 8) (thenk (uartputc 32) (uartputc 8))) else uartputc c)
       (cgaputc c))))"

definition digit_char :: "nat \<Rightarrow> nat" where
  "digit_char i = codes ''0123456789abcdef'' ! i"

definition int_text :: "int \<Rightarrow> nat \<Rightarrow> bool \<Rightarrow> nat list" where
  "int_text xx base sign = (let neg = (sign \<and> xx < 0); x = nat ((if neg then - xx else xx) mod 2 ^ 32) in
     rev (map digit_char (digits_rev base x) @ (if neg then [45] else [])))"

definition printint :: "int \<Rightarrow> nat \<Rightarrow> bool \<Rightarrow> ('z kcons_scheme, unit) k" where
  "printint xx base sign = eachk consputc (int_text xx base sign)"

text \<open>The arguments after the format: integers and strings, a null string pointer being \<open>None\<close>.\<close>

datatype parg = AInt int | AStr "nat list option"

fun cprintf_loop :: "string \<Rightarrow> parg list \<Rightarrow> ('z kcons_scheme, unit) k" where
  "cprintf_loop [] args = kret ()"
| "cprintf_loop (c # cs) args =
     (if c \<noteq> CHR ''%'' then thenk (consputc (of_char c)) (cprintf_loop cs args)
      else case cs of [] \<Rightarrow> kret () | d # ds \<Rightarrow>
        if d = CHR ''d'' \<or> d = CHR ''x'' \<or> d = CHR ''p'' then
          (case args of AInt n # args' \<Rightarrow>
             thenk (if d = CHR ''d'' then printint n 10 True else printint n 16 False) (cprintf_loop ds args')
           | _ \<Rightarrow> kfault ''argument'')
        else if d = CHR ''s'' then
          (case args of AStr x # args' \<Rightarrow>
             thenk (eachk consputc (case x of None \<Rightarrow> codes ''(null)'' | Some t \<Rightarrow> t)) (cprintf_loop ds args')
           | _ \<Rightarrow> kfault ''argument'')
        else if d = CHR ''%'' then thenk (consputc 37) (cprintf_loop ds args)
        else thenk (consputc 37) (thenk (consputc (of_char d)) (cprintf_loop ds args)))"

definition cprintf :: "string \<Rightarrow> parg list \<Rightarrow> ('z kcons_scheme, unit) k" where
  "cprintf fmt args = (bindk (kget cons_locking) (\<lambda>locking.
     thenk (whenk locking (lock ConsLk))
     (thenk (cprintf_loop fmt args)
     (whenk locking (unlock ConsLk)))))"

section \<open>Process listing\<close>

text \<open>\<open>pcs i\<close> is what \<open>getcallerpcs\<close> finds on the stack of process \<open>i\<close>.\<close>

definition procdump_proc :: "(nat \<Rightarrow> u32 list) \<Rightarrow> nat \<Rightarrow> ('z kcons_scheme, unit) k" where
  "procdump_proc pcs i = bindk (kget (\<lambda>s. proc_at s i)) (\<lambda>p. whenk (state p \<noteq> UNUSED) (thenk (cprintf ''%d %s %s'' [AInt (pid p), AStr (Some (codes (states_name (state p)))), AStr (Some (codes (pname p)))])
     (thenk (whenk (state p = SLEEPING)
       (eachk (\<lambda>pc. cprintf '' %p'' [AInt (sint pc)]) (takeWhile (\<lambda>pc. pc \<noteq> 0) (take 10 (pcs i)))))
     (cprintf [char_of (10 :: nat)] []))))"

definition procdump :: "(nat \<Rightarrow> u32 list) \<Rightarrow> ('z kcons_scheme, unit) k" where
  "procdump pcs = eachk (procdump_proc pcs) [0..<NPROC]"

section \<open>Input\<close>

definition input_at :: "u32 \<Rightarrow> 'z kcons_scheme \<Rightarrow> u8" where
  "input_at i s = in_buf s ! (unat i mod INPUT_BUF)"

text \<open>\<open>Control-U\<close>: erase back to the last newline or the write index. The argument is the distance to
  the write index, at which the loop ends.\<close>

primrec kill_line :: "nat \<Rightarrow> ('z kcons_scheme, unit) k" where
  "kill_line 0 = kret ()"
| "kill_line (Suc n) = bindk (kget (\<lambda>s. in_e s \<noteq> in_w s \<and> input_at (in_e s - 1) s \<noteq> 10)) (\<lambda>b.
     whenk b (thenk (kput (\<lambda>s. s\<lparr>in_e := in_e s - 1\<rparr>)) (thenk (consputc BACKSPACE) (kill_line n))))"

text \<open>One turn of the loop of \<open>consoleintr\<close>.\<close>

definition console_char :: "int \<Rightarrow> ('z kcons_scheme, unit) k" where
  "console_char c =
     (if c = 21 then bindk (kget (\<lambda>s. unat (in_e s - in_w s))) kill_line
      else if c = 8 \<or> c = 127 then bindk (kget (\<lambda>s. in_e s \<noteq> in_w s)) (\<lambda>b. whenk b (thenk (kput (\<lambda>s. s\<lparr>in_e := in_e s - 1\<rparr>)) (consputc BACKSPACE)))
      else bindk (kget (\<lambda>s. c \<noteq> 0 \<and> in_e s - in_r s < of_nat INPUT_BUF)) (\<lambda>b. whenk b ((let c = (if c = 13 then 10 else nat (c mod 256)) in
        thenk (kput (\<lambda>s. s\<lparr>in_buf := (in_buf s)[unat (in_e s) mod INPUT_BUF := of_nat c]\<rparr>))
        (thenk (kput (\<lambda>s. s\<lparr>in_e := in_e s + 1\<rparr>))
        (thenk (consputc c)
        (bindk (kget (\<lambda>s. c = 10 \<or> c = 4 \<or> in_e s = in_r s + of_nat INPUT_BUF)) (\<lambda>full.
        whenk full (thenk (kput (\<lambda>s. s\<lparr>in_w := in_e s\<rparr>)) (wakeup ChInput))))))))))"

definition consoleintr :: "(nat \<Rightarrow> u32 list) \<Rightarrow> int list \<Rightarrow> ('z kcons_scheme, unit) k" where
  "consoleintr pcs cs = (thenk (lock ConsLk)
     (thenk (eachk (\<lambda>c. if c = 16 then kret () else console_char c) cs)
     (thenk (unlock ConsLk)
     (whenk (16 \<in> set cs) (procdump pcs)))))"

definition kbdintr :: "(nat \<Rightarrow> u32 list) \<Rightarrow> ('z kcons_scheme, unit) k" where
  "kbdintr pcs = (bindk (kget (\<lambda>s. fst (kbd_drain (kbd_dev s)))) (\<lambda>cs.
     thenk (kput (\<lambda>s. s\<lparr>kbd_dev := snd (kbd_drain (kbd_dev s))\<rparr>))
     (consoleintr pcs cs)))"

text \<open>\<open>uartgetc\<close> delivers the received bytes one by one.\<close>

definition uartintr :: "(nat \<Rightarrow> u32 list) \<Rightarrow> ('z kcons_scheme, unit) k" where
  "uartintr pcs = (bindk (kget (\<lambda>s. if uart s then map (\<lambda>b. int (unat b)) (uart_in s) else [])) (\<lambda>cs.
     thenk (kput (\<lambda>s. if uart s then s\<lparr>uart_in := []\<rparr> else s))
     (consoleintr pcs cs)))"

section \<open>The device\<close>

definition console_done :: "nat \<Rightarrow> int \<Rightarrow> ('z kcons_scheme, int \<times> u8 list) k" where
  "console_done ip r = (thenk (unlock ConsLk) (thenk (ilock (Some ip)) (kret (r, []))))"

text \<open>The loop of \<open>consoleread\<close> with \<open>n\<close> bytes still to read of \<open>target\<close>; it sleeps on an empty ring.
  The result carries the bytes stored, for callers whose destination is a local variable.\<close>

primrec consoleread_loop :: "nat \<Rightarrow> 'z kcons_scheme sink \<Rightarrow> nat \<Rightarrow> nat \<Rightarrow> ('z kcons_scheme, int \<times> u8 list) k" where
  "consoleread_loop ip dst target 0 = console_done ip (int target)"
| "consoleread_loop ip dst target (Suc n) = bindk (kget (\<lambda>s. in_r s = in_w s)) (\<lambda>empty.
     if empty then bindk curproc (\<lambda>p. bindk (kget (\<lambda>s. killed (proc_at s p))) (\<lambda>k.
       if k then console_done ip (- 1) else thenk (sleep ChInput (Some ConsLk)) kblock))
     else (bindk (kget (\<lambda>s. input_at (in_r s) s)) (\<lambda>c.
       thenk (kput (\<lambda>s. s\<lparr>in_r := in_r s + 1\<rparr>))
       (if c = 4 then (thenk (whenk (Suc n < target) (kput (\<lambda>s. s\<lparr>in_r := in_r s - 1\<rparr>)))
         (console_done ip (int target - int (Suc n))))
       else (thenk (dst (target - Suc n) [c])
         (bindk (if c = 10 then console_done ip (int target - int n) else consoleread_loop ip dst target n) (\<lambda>r.
         kret (fst r, c # snd r))))))))"

definition consoleread :: "nat \<Rightarrow> 'z kcons_scheme sink \<Rightarrow> int \<Rightarrow> ('z kcons_scheme, int \<times> u8 list) k" where
  "consoleread ip dst n = (thenk (iunlock (Some ip)) (thenk (lock ConsLk)
     (if n \<le> 0 then console_done ip 0 else consoleread_loop ip dst (nat n) (nat n))))"

definition consoleread_resume :: "nat \<Rightarrow> 'z kcons_scheme sink \<Rightarrow> nat \<Rightarrow> nat \<Rightarrow> ('z kcons_scheme, int \<times> u8 list) k" where
  "consoleread_resume ip dst target n = thenk (sleep_resume ConsLk) (consoleread_loop ip dst target n)"

definition consolewrite :: "nat \<Rightarrow> 'z kcons_scheme source \<Rightarrow> int \<Rightarrow> ('z kcons_scheme, int) k" where
  "consolewrite ip src n = (thenk (iunlock (Some ip)) (thenk (lock ConsLk)
     (thenk (eachk (\<lambda>i. bindk (src i 1) (\<lambda>bs. consputc (unat (hd bs)))) [0..<nat n])
     (thenk (unlock ConsLk) (thenk (ilock (Some ip)) (kret n))))))"

definition consoleinit :: "('z kcons_scheme, unit) k" where
  "consoleinit = (thenk (kput (\<lambda>s. s\<lparr>devsw_tab := upd CONSOLE (\<lambda>d. d\<lparr>dev_write := Some Consolewrite\<rparr>) (devsw_tab s)\<rparr>))
     (thenk (kput (\<lambda>s. s\<lparr>devsw_tab := upd CONSOLE (\<lambda>d. d\<lparr>dev_read := Some Consoleread\<rparr>) (devsw_tab s)\<rparr>))
     (kput (\<lambda>s. s\<lparr>cons_locking := True\<rparr>))))"

section \<open>A machine that has booted\<close>

definition boot_kcons :: "(nat \<Rightarrow> block) \<Rightarrow> kcons" where
  "boot_kcons d = kfs.extend (boot_kfs d) \<lparr>panicked = False, cons_locking = True, crt = \<lambda>_. 0, crt_pos = 0,
     uart = True, uart_out = [], uart_in = [], in_buf = replicate INPUT_BUF 0, in_r = 0, in_w = 0, in_e = 0,
     devsw_tab = (replicate NDEV \<lparr>dev_read = None, dev_write = None\<rparr>)
       [CONSOLE := \<lparr>dev_read = Some Consoleread, dev_write = Some Consolewrite\<rparr>],
     kbd_dev = \<lparr>kbd_shift = 0, kbd_port = []\<rparr>\<rparr>"

end
