(* ===== verification/Fs.thy ===== *)
theory Fs
  imports Console
begin

text \<open>
  File contents, directories and path names (the rest of fs.c). \<open>readi\<close> hands the bytes of each block
  to its destination and also returns them, for callers that read into a local variable. Paths and
  names are the bytes of C strings without the terminator; a name buffer of \<open>DIRSIZ\<close> bytes is the
  list of its bytes up to the first zero.
\<close>

section \<open>Reading and writing\<close>

lemma chunk_pos: "tot < n \<Longrightarrow> n - (tot + min (n - tot) (BSIZE - off mod BSIZE)) < n - tot"
  using mod_less_divisor [of BSIZE off] by simp

function readi_loop :: "nat \<Rightarrow> 'z kcons_scheme sink \<Rightarrow> nat \<Rightarrow> nat \<Rightarrow> nat \<Rightarrow> ('z kcons_scheme, u8 list) k" where
  "readi_loop ip dst tot off n =
     (if tot < n then (bindk (iget_f ip i_dev) (\<lambda>dev. bindk (bmap ip (off div BSIZE)) (\<lambda>bn. bindk (bread dev bn) (\<lambda>bp.
        (let m = min (n - tot) (BSIZE - off mod BSIZE) in
        bindk (bdata_get bp) (\<lambda>d.
        thenk (dst tot (get_at (off mod BSIZE) m d))
        (thenk (brelse bp)
        (bindk (readi_loop ip dst (tot + min (n - tot) (BSIZE - off mod BSIZE)) (off + min (n - tot) (BSIZE - off mod BSIZE)) n) (\<lambda>bs.
        kret (get_at (off mod BSIZE) m d @ bs))))))))))
      else kret [])"
  by pat_completeness auto
termination by (relation "measure (\<lambda>(ip, dst, tot, off, n). n - tot)") (simp, simp only: in_measure prod.case chunk_pos)

declare readi_loop.simps [simp del]

definition readi :: "nat \<Rightarrow> 'z kcons_scheme sink \<Rightarrow> nat \<Rightarrow> nat \<Rightarrow> ('z kcons_scheme, int \<times> u8 list) k" where
  "readi ip dst off n = bindk (iget_f ip id) (\<lambda>i.
     if i_type i = T_DEV then
       (if i_major i < 0 \<or> int NDEV \<le> i_major i then kret (- 1, [])
        else bindk (kget (\<lambda>s. dev_read (devsw_tab s ! nat (i_major i)))) (\<lambda>f.
          case f of None \<Rightarrow> kret (- 1, []) | Some _ \<Rightarrow> consoleread ip dst (s32 (int n))))
     else if i_size i < off \<or> n32 (off + n) < off then kret (- 1, [])
     else let n = (if i_size i < off + n then i_size i - off else n) in
       bindk (readi_loop ip dst 0 off n) (\<lambda>bs. kret (int n, bs)))"

function writei_loop :: "nat \<Rightarrow> 'z kcons_scheme source \<Rightarrow> nat \<Rightarrow> nat \<Rightarrow> nat \<Rightarrow> ('z kcons_scheme, unit) k" where
  "writei_loop ip src tot off n =
     (if tot < n then (bindk (iget_f ip i_dev) (\<lambda>dev. bindk (bmap ip (off div BSIZE)) (\<lambda>bn. bindk (bread dev bn) (\<lambda>bp.
        (let m = min (n - tot) (BSIZE - off mod BSIZE) in
        bindk (src tot m) (\<lambda>bs.
        thenk (bdata_put bp (put_at (off mod BSIZE) bs))
        (thenk (log_write bp)
        (thenk (brelse bp)
        (writei_loop ip src (tot + min (n - tot) (BSIZE - off mod BSIZE)) (off + min (n - tot) (BSIZE - off mod BSIZE)) n)))))))))
      else kret ())"
  by pat_completeness auto
termination by (relation "measure (\<lambda>(ip, src, tot, off, n). n - tot)") (simp, simp only: in_measure prod.case chunk_pos)

declare writei_loop.simps [simp del]

definition writei :: "nat \<Rightarrow> 'z kcons_scheme source \<Rightarrow> nat \<Rightarrow> nat \<Rightarrow> ('z kcons_scheme, int) k" where
  "writei ip src off n = bindk (iget_f ip id) (\<lambda>i.
     if i_type i = T_DEV then
       (if i_major i < 0 \<or> int NDEV \<le> i_major i then kret (- 1)
        else bindk (kget (\<lambda>s. dev_write (devsw_tab s ! nat (i_major i)))) (\<lambda>f.
          case f of None \<Rightarrow> kret (- 1) | Some _ \<Rightarrow> consolewrite ip src (s32 (int n))))
     else if i_size i < off \<or> n32 (off + n) < off then kret (- 1)
     else if MAXFILE * BSIZE < off + n then kret (- 1)
     else (thenk (writei_loop ip src 0 off n)
       (bindk (iget_f ip i_size) (\<lambda>sz.
       thenk (whenk (0 < n \<and> sz < off + n) (thenk (iset ip (\<lambda>i. i\<lparr>i_size := off + n\<rparr>)) (iupdate ip)))
       (kret (int n))))))"

text \<open>A local variable as destination, and local bytes as source.\<close>

definition to_local :: "'s sink" where
  "to_local off bs = kret ()"

definition from_local :: "u8 list \<Rightarrow> 's source" where
  "from_local bs off n = kret (get_at off n bs)"

section \<open>Directories\<close>

text \<open>\<open>strncmp\<close> and \<open>strncpy\<close> of string.c on strings given by their bytes.\<close>

fun strncmp_bytes :: "nat \<Rightarrow> u8 list \<Rightarrow> u8 list \<Rightarrow> int" where
  "strncmp_bytes 0 p q = 0"
| "strncmp_bytes (Suc n) [] q = - int (unat (case q of [] \<Rightarrow> 0 | y # _ \<Rightarrow> y))"
| "strncmp_bytes (Suc n) (x # p) q = (let y = (case q of [] \<Rightarrow> 0 | y # _ \<Rightarrow> y) in
     if x \<noteq> 0 \<and> x = y then strncmp_bytes n p (tl q) else int (unat x) - int (unat y))"

definition strncpy_bytes :: "nat \<Rightarrow> u8 list \<Rightarrow> u8 list" where
  "strncpy_bytes n t = take n (takeWhile (\<lambda>b. b \<noteq> 0) t @ replicate n 0)"

definition namecmp :: "u8 list \<Rightarrow> u8 list \<Rightarrow> int" where
  "namecmp p q = strncmp_bytes DIRSIZ p q"

definition DIRENT :: nat where [simp]: "DIRENT = 16"

text \<open>The loop of \<open>dirlookup\<close> over the offsets of the entries; the size is read again at every turn.\<close>

primrec dirlookup_loop :: "nat \<Rightarrow> u8 list \<Rightarrow> nat list \<Rightarrow> ('z kcons_scheme, (nat \<times> nat) option) k" where
  "dirlookup_loop dp name [] = kret None"
| "dirlookup_loop dp name (off # offs) = (bindk (readi dp to_local off DIRENT) (\<lambda>r.
     if fst r \<noteq> int DIRENT then kpanic ''dirlookup read'' else ((let de = get_dirent (snd r) in
       if de_inum de \<noteq> 0 \<and> namecmp name (de_name de) = 0 then (bindk (iget_f dp i_dev) (\<lambda>dev. bindk (iget dev (de_inum de)) (\<lambda>ip. kret (Some (ip, off)))))
       else dirlookup_loop dp name offs))))"

definition dir_offs :: "nat \<Rightarrow> nat list" where
  "dir_offs n = map (\<lambda>j. j * DIRENT) [0..<(n + DIRENT - 1) div DIRENT]"

definition dirlookup :: "nat \<Rightarrow> u8 list \<Rightarrow> ('z kcons_scheme, (nat \<times> nat) option) k" where
  "dirlookup dp name = bindk (iget_f dp i_type) (\<lambda>t. if t \<noteq> T_DIR then kpanic ''dirlookup not DIR''
     else bindk (iget_f dp i_size) (\<lambda>n. dirlookup_loop dp name (dir_offs n)))"

text \<open>The search of \<open>dirlink\<close> for an empty entry: its offset, or the end of the directory.\<close>

primrec dirlink_loop :: "nat \<Rightarrow> nat list \<Rightarrow> nat \<Rightarrow> ('z kcons_scheme, nat) k" where
  "dirlink_loop dp [] end = kret end"
| "dirlink_loop dp (off # offs) end = (bindk (readi dp to_local off DIRENT) (\<lambda>r.
     if fst r \<noteq> int DIRENT then kpanic ''dirlink read''
     else if de_inum (get_dirent (snd r)) = 0 then kret off else dirlink_loop dp offs end))"

definition dirlink :: "nat \<Rightarrow> u8 list \<Rightarrow> nat \<Rightarrow> ('z kcons_scheme, int) k" where
  "dirlink dp name inum = (bindk (dirlookup dp name) (\<lambda>r.
     case r of Some (ip, _) \<Rightarrow> thenk (iput ip) (kret (- 1))
     | None \<Rightarrow> (bindk (iget_f dp i_size) (\<lambda>n.
         bindk (dirlink_loop dp (dir_offs n) (DIRENT * ((n + DIRENT - 1) div DIRENT))) (\<lambda>off.
         (let de = \<lparr>de_inum = inum mod 2 ^ 16, de_name = strncpy_bytes DIRSIZ name\<rparr> in
         bindk (writei dp (from_local (put_dirent de)) off DIRENT) (\<lambda>w.
         if w \<noteq> int DIRENT then kpanic ''dirlink'' else kret 0)))))))"

section \<open>Paths\<close>

abbreviation slash :: u8 where
  "slash \<equiv> 0x2F"

definition skipelem :: "u8 list \<Rightarrow> (u8 list \<times> u8 list) option" where
  "skipelem path = (let path = dropWhile (\<lambda>c. c = slash) path in
     if path = [] then None
     else Some (dropWhile (\<lambda>c. c = slash) (dropWhile (\<lambda>c. c \<noteq> slash) path),
                take DIRSIZ (takeWhile (\<lambda>c. c \<noteq> slash) path)))"

lemma skipelem_shorter:
  assumes "skipelem path = Some (rest, name)"
  shows "length rest < length path"
proof -
  obtain x p where p: "dropWhile (\<lambda>c. c = slash) path = x # p"
    "rest = dropWhile (\<lambda>c. c = slash) (dropWhile (\<lambda>c. c \<noteq> slash) (x # p))"
    using assms by (cases "dropWhile (\<lambda>c. c = slash) path") (simp_all add: skipelem_def)
  have "x \<noteq> slash" using hd_dropWhile [of "\<lambda>c. c = slash" path] unfolding p(1) list.sel by blast
  then have r: "rest = dropWhile (\<lambda>c. c = slash) (dropWhile (\<lambda>c. c \<noteq> slash) p)" using p(2) by simp
  have "length rest \<le> length (dropWhile (\<lambda>c. c \<noteq> slash) p)" unfolding r by (rule length_dropWhile_le)
  moreover have "length (dropWhile (\<lambda>c. c \<noteq> slash) p) \<le> length p" by (rule length_dropWhile_le)
  moreover have "length (x # p) \<le> length path" unfolding p(1) [symmetric] by (rule length_dropWhile_le)
  ultimately show ?thesis by simp
qed

function namex_loop :: "u8 list \<Rightarrow> bool \<Rightarrow> nat \<Rightarrow> ('z kcons_scheme, (nat \<times> u8 list) option) k" where
  "namex_loop path par ip = (case skipelem path of
       None \<Rightarrow> if par then thenk (iput ip) (kret None) else kret (Some (ip, []))
     | Some (rest, name) \<Rightarrow> (thenk (ilock (Some ip))
         (bindk (iget_f ip i_type) (\<lambda>t.
         if t \<noteq> T_DIR then thenk (iunlockput ip) (kret None)
         else if par \<and> rest = [] then thenk (iunlock (Some ip)) (kret (Some (ip, name)))
         else (bindk (dirlookup ip name) (\<lambda>r.
           case r of None \<Rightarrow> thenk (iunlockput ip) (kret None)
           | Some (nxt, _) \<Rightarrow> thenk (iunlockput ip) (namex_loop rest par nxt)))))))"
  by pat_completeness auto
termination
  by (relation "measure (\<lambda>(path, par, ip). length path)")
    (simp, metis in_measure prod.case skipelem_shorter)

declare namex_loop.simps [simp del]

definition namex :: "u8 list \<Rightarrow> bool \<Rightarrow> ('z kcons_scheme, (nat \<times> u8 list) option) k" where
  "namex path par = (bindk (if path \<noteq> [] \<and> hd path = slash then iget ROOTDEV ROOTINO
       else bindk curproc (\<lambda>p. bindk (kget (\<lambda>s. cwd (proc_at s p))) (\<lambda>d.
         case d of None \<Rightarrow> kfault ''null inode'' | Some d \<Rightarrow> idup d))) (\<lambda>ip.
     namex_loop path par ip))"

definition namei :: "u8 list \<Rightarrow> ('z kcons_scheme, nat option) k" where
  "namei path = bindk (namex path False) (\<lambda>r. kret (map_option fst r))"

definition nameiparent :: "u8 list \<Rightarrow> ('z kcons_scheme, (nat \<times> u8 list) option) k" where
  "nameiparent path = namex path True"

end
