(* ===== verification/Ring.thy ===== *)
theory Ring
  imports Prelude
begin

text \<open>
  Ring buffers indexed by counters that run freely and wrap around at \<open>2 ^ 32\<close>, as pipe.c and console.c
  use them: \<open>data[i % N]\<close> with a read counter and a write counter. That \<open>N\<close> divides \<open>2 ^ 32\<close> makes the
  positions continuous across the wrap.
\<close>

definition ring_contents :: "nat \<Rightarrow> 'a list \<Rightarrow> u32 \<Rightarrow> u32 \<Rightarrow> 'a list" where
  "ring_contents N d r w = map (\<lambda>i. d ! ((unat r + i) mod N)) [0..<unat (w - r)]"

lemma ring_contents_empty [simp]: "ring_contents N d r r = []"
  by (simp add: ring_contents_def)

lemma length_ring_contents [simp]: "length (ring_contents N d r w) = unat (w - r)"
  by (simp add: ring_contents_def)

lemma same_distance: "unat (w - r) = unat (e - r) \<longleftrightarrow> w = (e :: u32)"
  by (metis diff_add_cancel word_unat_eq_iff)

locale ring =
  fixes N :: nat
  assumes N_pos: "0 < N" and N_dvd: "N dvd 2 ^ 32" and N_less: "N < 2 ^ 32"
begin

lemma unat_mod: "unat (x + y :: u32) mod N = (unat x + unat y) mod N"
  using N_dvd by (simp add: unat_word_ariths mod_mod_cancel)

lemma unat_add_small: "unat (x :: u32) < N \<Longrightarrow> unat (x + 1) = Suc (unat x)"
  using N_less by (simp add: unat_word_ariths)

lemma unat_sub_small:
  assumes "x \<noteq> (0 :: u32)"
  shows "unat (x - 1) = unat x - 1"
  using assms unat_minus_one by blast

lemma pos_neq:
  assumes "i < n" "n < N"
  shows "(k + i) mod N \<noteq> (k + n) mod N"
proof
  assume "(k + i) mod N = (k + n) mod N"
  then have "N dvd (k + n) - (k + i)" using assms by (intro mod_eq_dvd_iff_nat [THEN iffD1]) simp_all
  then show False using assms by (auto dest: dvd_imp_le)
qed

lemma put:
  assumes "length d = N" "unat (w - r) < N"
  shows "unat (w + 1 - r) = Suc (unat (w - r))"
    "ring_contents N (d[unat w mod N := b]) r (w + 1) = ring_contents N d r w @ [b]"
proof -
  let ?n = "unat (w - r)"
  have e: "w + 1 - r = (w - r) + 1" by simp
  show n: "unat (w + 1 - r) = Suc ?n" unfolding e by (rule unat_add_small [OF assms(2)])
  have w: "unat w mod N = (unat r + ?n) mod N" using unat_mod [of r "w - r"] by simp
  have "d[unat w mod N := b] ! ((unat r + i) mod N) = d ! ((unat r + i) mod N)" if "i < ?n" for i
    using pos_neq [OF that assms(2), of "unat r"] by (simp add: w)
  moreover have "d[unat w mod N := b] ! ((unat r + ?n) mod N) = b" using assms(1) N_pos by (simp add: w)
  ultimately show "ring_contents N (d[unat w mod N := b]) r (w + 1) = ring_contents N d r w @ [b]"
    unfolding ring_contents_def n by simp
qed

lemma get:
  assumes "r \<noteq> w"
  shows "unat (w - (r + 1)) = unat (w - r) - 1"
    "ring_contents N d r w = d ! (unat r mod N) # ring_contents N d (r + 1) w"
proof -
  have e: "w - (r + 1) = (w - r) - 1" "w - r \<noteq> 0" using assms by simp_all
  show n: "unat (w - (r + 1)) = unat (w - r) - 1" unfolding e(1) by (rule unat_sub_small [OF e(2)])
  have "0 < unat (w - r)" using \<open>w - r \<noteq> 0\<close> by (simp add: unat_gt_0)
  then have "[0..<unat (w - r)] = 0 # map Suc [0..<unat (w - r) - 1]"
    by (simp add: map_Suc_upt upt_conv_Cons)
  moreover have "(unat r + Suc i) mod N = (unat (r + 1) + i) mod N" for i
    using unat_mod [of r 1] mod_add_left_eq [of "unat (r + 1)" N i] mod_add_left_eq [of "unat r + 1" N i] by simp
  ultimately show "ring_contents N d r w = d ! (unat r mod N) # ring_contents N d (r + 1) w"
    unfolding ring_contents_def n by simp
qed

text \<open>A position between the counters splits the contents.\<close>

lemma split_at:
  assumes "unat (w - r) \<le> unat (e - r)"
  shows "ring_contents N d r w = take (unat (w - r)) (ring_contents N d r e)"
    "ring_contents N d w e = drop (unat (w - r)) (ring_contents N d r e)"
proof -
  show "ring_contents N d r w = take (unat (w - r)) (ring_contents N d r e)"
    using assms by (simp add: ring_contents_def take_map take_upt)
  have n: "unat (e - w) = unat (e - r) - unat (w - r)"
    using unat_sub [of "w - r" "e - r"] assms by (simp add: word_le_nat_alt)
  have "(unat w + i) mod N = (unat r + (unat (w - r) + i)) mod N" for i
    using unat_mod [of r "w - r"] mod_add_left_eq [of "unat w" N i] mod_add_left_eq [of "unat r + unat (w - r)" N i]
    by (simp add: add.assoc)
  then show "ring_contents N d w e = drop (unat (w - r)) (ring_contents N d r e)"
    by (intro nth_equalityI) (simp_all add: ring_contents_def n less_diff_conv add.commute)
qed

text \<open>Taking back the last element.\<close>

lemma unput:
  assumes "r \<noteq> w"
  shows "unat (w - 1 - r) = unat (w - r) - 1" "ring_contents N d r (w - 1) = butlast (ring_contents N d r w)"
proof -
  have e: "w - 1 - r = (w - r) - 1" "w - r \<noteq> 0" using assms by simp_all
  show n: "unat (w - 1 - r) = unat (w - r) - 1" unfolding e(1) by (rule unat_sub_small [OF e(2)])
  show "ring_contents N d r (w - 1) = butlast (ring_contents N d r w)"
    unfolding ring_contents_def n map_butlast [symmetric]
    by (cases "unat (w - r)") simp_all
qed

lemma last_at:
  assumes "r \<noteq> w"
  shows "ring_contents N d r w \<noteq> []" "last (ring_contents N d r w) = d ! (unat (w - 1) mod N)"
proof -
  have n: "unat (w - 1 - r) = unat (w - r) - 1" using unput(1) [OF assms] .
  have "w - r \<noteq> 0" using assms by simp
  then have p: "0 < unat (w - r)" by (simp add: unat_gt_0)
  then show "ring_contents N d r w \<noteq> []" by (simp flip: length_greater_0_conv)
  have "(unat r + (unat (w - r) - 1)) mod N = unat (w - 1) mod N" using unat_mod [of r "w - 1 - r"] n by simp
  then show "last (ring_contents N d r w) = d ! (unat (w - 1) mod N)"
    using p by (simp add: ring_contents_def last_map)
qed

end

end
