(* ===== verification/Pipe.thy ===== *)
theory Pipe
  imports Fs Ring
begin

text \<open>
  Pipes (pipe.c) and the table of open files that pipe.c and file.c share. A pipe lives in a page
  taken from the page allocator; \<open>pipes\<close> gives the fields of the \<open>struct pipe\<close> at each such address.
  A pipe is a queue of at most \<open>PIPESIZE\<close> bytes: the abstraction \<open>pipe_queue\<close> and the lemmas about it
  are in the second half.
\<close>

section \<open>State\<close>

definition PIPESIZE :: nat where [simp]: "PIPESIZE = 512"

record pipe =
  p_data :: "u8 list"
  p_nread :: u32
  p_nwrite :: u32
  p_readopen :: bool
  p_writeopen :: bool

datatype fdtype = FD_NONE | FD_PIPE | FD_INODE

record struct_file =
  f_type :: fdtype
  f_ref :: int
  f_readable :: bool
  f_writable :: bool
  f_pipe :: nat
  f_ip :: nat
  f_off :: nat

record kfile = kcons +
  ftable :: "struct_file list"
  pipes :: "nat \<Rightarrow> pipe"

abbreviation file_at :: "'z kfile_scheme \<Rightarrow> nat \<Rightarrow> struct_file" where
  "file_at s f \<equiv> ftable s ! f"

definition fget :: "nat \<Rightarrow> (struct_file \<Rightarrow> 'a) \<Rightarrow> ('z kfile_scheme, 'a) k" where
  "fget f g = kget (\<lambda>s. g (file_at s f))"

definition fset :: "nat \<Rightarrow> (struct_file \<Rightarrow> struct_file) \<Rightarrow> ('z kfile_scheme, unit) k" where
  "fset f g = kput (\<lambda>s. s\<lparr>ftable := upd f g (ftable s)\<rparr>)"

definition pget :: "nat \<Rightarrow> (pipe \<Rightarrow> 'a) \<Rightarrow> ('z kfile_scheme, 'a) k" where
  "pget p g = kget (\<lambda>s. g (pipes s p))"

definition pset :: "nat \<Rightarrow> (pipe \<Rightarrow> pipe) \<Rightarrow> ('z kfile_scheme, unit) k" where
  "pset p g = kput (\<lambda>s. s\<lparr>pipes := (pipes s)(p := g (pipes s p))\<rparr>)"

section \<open>Operations\<close>

definition pipeclose :: "nat \<Rightarrow> bool \<Rightarrow> ('z kfile_scheme, unit) k" where
  "pipeclose p writable = (thenk (lock (PipeLk p))
     (thenk (if writable then (thenk (pset p (\<lambda>x. x\<lparr>p_writeopen := False\<rparr>)) (wakeup (ChNread p)))
      else (thenk (pset p (\<lambda>x. x\<lparr>p_readopen := False\<rparr>)) (wakeup (ChNwrite p))))
     (bindk (pget p (\<lambda>x. \<not> p_readopen x \<and> \<not> p_writeopen x)) (\<lambda>dead.
     if dead then (thenk (unlock (PipeLk p)) (kfree p)) else unlock (PipeLk p)))))"

text \<open>The loop of \<open>pipewrite\<close> with \<open>k\<close> of \<open>n\<close> bytes left; it sleeps while the pipe is full.\<close>

primrec pipewrite_loop :: "nat \<Rightarrow> 'z kfile_scheme source \<Rightarrow> nat \<Rightarrow> nat \<Rightarrow> ('z kfile_scheme, int) k" where
  "pipewrite_loop p src n 0 = (thenk (wakeup (ChNread p)) (thenk (unlock (PipeLk p)) (kret (int n))))"
| "pipewrite_loop p src n (Suc k) = (bindk (pget p (\<lambda>x. p_nwrite x = p_nread x + of_nat PIPESIZE)) (\<lambda>full.
     if full then (bindk (bindk curproc (\<lambda>c. kget (\<lambda>s. \<not> p_readopen (pipes s p) \<or> killed (proc_at s c)))) (\<lambda>stop.
       if stop then (thenk (unlock (PipeLk p)) (kret (- 1)))
       else (thenk (wakeup (ChNread p)) (thenk (sleep (ChNwrite p) (Some (PipeLk p))) kblock))))
     else (bindk (src (n - Suc k) 1) (\<lambda>bs.
       thenk (pset p (\<lambda>x. x\<lparr>p_data := (p_data x)[unat (p_nwrite x) mod PIPESIZE := hd bs], p_nwrite := p_nwrite x + 1\<rparr>))
       (pipewrite_loop p src n k)))))"

definition pipewrite :: "nat \<Rightarrow> 'z kfile_scheme source \<Rightarrow> int \<Rightarrow> ('z kfile_scheme, int) k" where
  "pipewrite p src n = (thenk (lock (PipeLk p))
     (bindk (pipewrite_loop p src (nat n) (nat n)) (\<lambda>r.
     kret (if r < 0 then r else n))))"

definition pipewrite_resume :: "nat \<Rightarrow> 'z kfile_scheme source \<Rightarrow> nat \<Rightarrow> nat \<Rightarrow> ('z kfile_scheme, int) k" where
  "pipewrite_resume p src n k = thenk (sleep_resume (PipeLk p)) (pipewrite_loop p src n k)"

text \<open>The copy loop of \<open>piperead\<close> with \<open>k\<close> of \<open>n\<close> bytes left; the result is the number of bytes copied.\<close>

primrec piperead_copy :: "nat \<Rightarrow> 'z kfile_scheme sink \<Rightarrow> nat \<Rightarrow> nat \<Rightarrow> ('z kfile_scheme, nat) k" where
  "piperead_copy p dst n 0 = kret n"
| "piperead_copy p dst n (Suc k) = (bindk (pget p (\<lambda>x. p_nread x = p_nwrite x)) (\<lambda>empty.
     if empty then kret (n - Suc k)
     else (bindk (pget p (\<lambda>x. p_data x ! (unat (p_nread x) mod PIPESIZE))) (\<lambda>c.
       thenk (pset p (\<lambda>x. x\<lparr>p_nread := p_nread x + 1\<rparr>))
       (thenk (dst (n - Suc k) [c])
       (piperead_copy p dst n k))))))"

text \<open>\<open>piperead\<close> from its loop head, entered with the lock held.\<close>

definition piperead_loop :: "nat \<Rightarrow> 'z kfile_scheme sink \<Rightarrow> int \<Rightarrow> ('z kfile_scheme, int) k" where
  "piperead_loop p dst n = (bindk (pget p (\<lambda>x. p_nread x = p_nwrite x \<and> p_writeopen x)) (\<lambda>wait.
     if wait then (bindk (bindk curproc (\<lambda>c. kget (\<lambda>s. killed (proc_at s c)))) (\<lambda>dead.
       if dead then (thenk (unlock (PipeLk p)) (kret (- 1)))
       else (thenk (sleep (ChNread p) (Some (PipeLk p))) kblock)))
     else (bindk (piperead_copy p dst (nat n) (nat n)) (\<lambda>i.
       thenk (wakeup (ChNwrite p))
       (thenk (unlock (PipeLk p))
       (kret (int i)))))))"

definition piperead :: "nat \<Rightarrow> 'z kfile_scheme sink \<Rightarrow> int \<Rightarrow> ('z kfile_scheme, int) k" where
  "piperead p dst n = thenk (lock (PipeLk p)) (piperead_loop p dst n)"

definition piperead_resume :: "nat \<Rightarrow> 'z kfile_scheme sink \<Rightarrow> int \<Rightarrow> ('z kfile_scheme, int) k" where
  "piperead_resume p dst n = thenk (sleep_resume (PipeLk p)) (piperead_loop p dst n)"

section \<open>A machine that has booted\<close>

definition zero_file :: struct_file where
  "zero_file = \<lparr>f_type = FD_NONE, f_ref = 0, f_readable = False, f_writable = False, f_pipe = 0, f_ip = 0, f_off = 0\<rparr>"

definition boot_kfile :: "(nat \<Rightarrow> block) \<Rightarrow> kfile" where
  "boot_kfile d = kcons.extend (boot_kcons d) \<lparr>ftable = replicate NFILE zero_file,
     pipes = \<lambda>_. \<lparr>p_data = replicate PIPESIZE 0, p_nread = 0, p_nwrite = 0, p_readopen = False, p_writeopen = False\<rparr>\<rparr>"

lemmas boot_defs = boot_kfile_def boot_kcons_def boot_kfs_def boot_klog_def boot_kbio_def boot_kkmem_def lottery_boot_def
  boot_kbase_def kbase.defs ksched.defs kkmem.defs kslk.defs kbio.defs klog.defs kfs.defs kcons.defs

section \<open>A pipe is a queue\<close>

definition pipe_queue :: "pipe \<Rightarrow> u8 list" where
  "pipe_queue x = ring_contents PIPESIZE (p_data x) (p_nread x) (p_nwrite x)"

definition pipe_ok :: "pipe \<Rightarrow> bool" where
  "pipe_ok x \<longleftrightarrow> length (p_data x) = PIPESIZE \<and> length (pipe_queue x) \<le> PIPESIZE"

interpretation pr: ring PIPESIZE
  by unfold_locales auto

definition pipe_put :: "u8 \<Rightarrow> pipe \<Rightarrow> pipe" where
  "pipe_put b x = x\<lparr>p_data := (p_data x)[unat (p_nwrite x) mod PIPESIZE := b], p_nwrite := p_nwrite x + 1\<rparr>"

definition pipe_take :: "pipe \<Rightarrow> pipe" where
  "pipe_take x = x\<lparr>p_nread := p_nread x + 1\<rparr>"

lemma pipe_put:
  assumes "pipe_ok x" "length (pipe_queue x) < PIPESIZE"
  shows "pipe_ok (pipe_put b x)" "pipe_queue (pipe_put b x) = pipe_queue x @ [b]"
    "p_nwrite x \<noteq> p_nread x + of_nat PIPESIZE"
proof -
  have l: "length (p_data x) = PIPESIZE" "unat (p_nwrite x - p_nread x) < PIPESIZE"
    using assms by (simp_all add: pipe_ok_def pipe_queue_def)
  note p = pr.put(2) [OF l, of b]
  show q: "pipe_queue (pipe_put b x) = pipe_queue x @ [b]" using p by (simp add: pipe_queue_def pipe_put_def)
  show "pipe_ok (pipe_put b x)" using assms l(1) unfolding pipe_ok_def q by (simp add: pipe_put_def)
  show "p_nwrite x \<noteq> p_nread x + of_nat PIPESIZE" using l(2) by auto
qed

lemma pipe_take:
  assumes "pipe_ok x" "pipe_queue x = c # q"
  shows "pipe_ok (pipe_take x)" "pipe_queue (pipe_take x) = q" "p_nread x \<noteq> p_nwrite x"
    "p_data x ! (unat (p_nread x) mod PIPESIZE) = c"
proof -
  show r: "p_nread x \<noteq> p_nwrite x" using assms(2) by (auto simp: pipe_queue_def)
  note g = pr.get(2) [OF r, of "p_data x"]
  show q: "pipe_queue (pipe_take x) = q" and "p_data x ! (unat (p_nread x) mod PIPESIZE) = c"
    using g assms(2) by (simp_all add: pipe_queue_def pipe_take_def)
  show "pipe_ok (pipe_take x)" using assms unfolding pipe_ok_def q by (simp add: pipe_take_def)
qed

lemma pipe_empty: "pipe_queue x = [] \<longleftrightarrow> p_nread x = p_nwrite x"
proof (cases "p_nread x = p_nwrite x")
  case False
  then show ?thesis using pr.get(2) [OF False, of "p_data x"] by (simp add: pipe_queue_def del: PIPESIZE_def)
qed (simp add: pipe_queue_def)

section \<open>Running the operations\<close>

lemma kfile_commute [simp]:
  fixes s :: "'z kfile_scheme"
  shows "s\<lparr>pipes := x, held := h\<rparr> = s\<lparr>held := h, pipes := x\<rparr>" "s\<lparr>pipes := x, procs := ps\<rparr> = s\<lparr>procs := ps, pipes := x\<rparr>"
    "s\<lparr>pipes := x, memory := m\<rparr> = s\<lparr>memory := m, pipes := x\<rparr>" "s\<lparr>memory := m, procs := ps\<rparr> = s\<lparr>procs := ps, memory := m\<rparr>"
  by (cases s, simp)+

lemma uactive_frame:
  fixes s :: "'z kfile_scheme"
  assumes "uactive s pd xs n"
  shows "uactive (s\<lparr>pipes := P\<rparr>) pd xs n" "uactive (s\<lparr>procs := ps\<rparr>) pd xs n"
    "KmemLk \<notin> set h \<Longrightarrow> uactive (s\<lparr>held := h\<rparr>) pd xs n"
proof -
  have "KmemLk \<notin> set (held s)" using uactive_unheld [OF assms] .
  then show "uactive (s\<lparr>pipes := P\<rparr>) pd xs n" "uactive (s\<lparr>procs := ps\<rparr>) pd xs n"
    "KmemLk \<notin> set h \<Longrightarrow> uactive (s\<lparr>held := h\<rparr>) pd xs n"
    by (auto intro: uactive_cong [OF assms])
qed

lemma pset_run: "pset p g s = Ok () (s\<lparr>pipes := (pipes s)(p := g (pipes s p))\<rparr>)"
  by (simp add: pset_def)

lemma pipewrite_loop_run:
  fixes s :: "'z kfile_scheme"
  assumes "uactive s pd xs N" "addr + n \<le> N" "k \<le> n" "pipe_ok (pipes s p)"
    "length (pipe_queue (pipes s p)) + k \<le> PIPESIZE" "held s = [PipeLk p]"
  shows "\<exists>ps x. pipewrite_loop p (from_user addr) n k s = Ok (int n) (s\<lparr>held := [], procs := ps, pipes := (pipes s)(p := x)\<rparr>)
    \<and> pipe_ok x \<and> pipe_queue x = pipe_queue (pipes s p) @ map (umem (memory s) pd) [addr + (n - k)..<addr + n]
    \<and> p_readopen x = p_readopen (pipes s p) \<and> p_writeopen x = p_writeopen (pipes s p)"
  using assms
proof (induction k arbitrary: s)
  case 0
  then show ?case by (intro exI [of _ "map (wakeup_proc (Some (ChNread p))) (procs s)"] exI [of _ "pipes s p"]) simp
next
  case (Suc k)
  let ?x = "pipes s p" and ?j = "n - Suc k"
  let ?b = "umem (memory s) pd (addr + ?j)" and ?t = "s\<lparr>pipes := (pipes s)(p := pipe_put (umem (memory s) pd (addr + ?j)) ?x)\<rparr>"
  have nf: "length (pipe_queue ?x) < PIPESIZE" using Suc.prems(5) by linarith
  note pp = pipe_put [OF Suc.prems(4) nf]
  have "N \<le> KERNBASE" using Suc.prems(1) uspaceD(2) unfolding uactive_def by blast
  then have a: "n32 (addr + ?j) = addr + ?j" "addr + ?j + 1 \<le> N" using Suc.prems(2,3) by (auto intro!: n32_id)
  have src: "from_user addr ?j 1 s = Ok [?b] s"
    using ldbs_run [OF Suc.prems(1) a(2)] by (simp add: from_user_def a(1))
  have "pipewrite_loop p (from_user addr) n (Suc k) s = pipewrite_loop p (from_user addr) n k ?t"
    using pp(3) src by (simp add: pget_def pset_run pipe_put_def del: One_nat_def)
  moreover have "\<exists>ps x. pipewrite_loop p (from_user addr) n k ?t = Ok (int n) (?t\<lparr>held := [], procs := ps, pipes := (pipes ?t)(p := x)\<rparr>)
    \<and> pipe_ok x \<and> pipe_queue x = pipe_queue (pipes ?t p) @ map (umem (memory ?t) pd) [addr + (n - k)..<addr + n]
    \<and> p_readopen x = p_readopen (pipes ?t p) \<and> p_writeopen x = p_writeopen (pipes ?t p)"
    by (rule Suc.IH) (use Suc.prems pp uactive_frame(1) [OF Suc.prems(1)] in simp_all)
  then obtain ps x where x: "pipewrite_loop p (from_user addr) n k ?t = Ok (int n) (s\<lparr>held := [], procs := ps, pipes := (pipes s)(p := x)\<rparr>)"
    "pipe_ok x" "pipe_queue x = pipe_queue (pipe_put ?b ?x) @ map (umem (memory s) pd) [addr + (n - k)..<addr + n]"
    "p_readopen x = p_readopen (pipe_put ?b ?x)" "p_writeopen x = p_writeopen (pipe_put ?b ?x)"
    by (simp only: kfile.simps kfile_commute fun_upd_same fun_upd_upd) auto
  moreover have "[addr + ?j..<addr + n] = (addr + ?j) # [addr + (n - k)..<addr + n]"
    using Suc.prems(3) upt_conv_Cons [of "addr + ?j" "addr + n"] by (simp add: Suc_diff_Suc)
  moreover have "p_readopen (pipe_put ?b ?x) = p_readopen ?x" "p_writeopen (pipe_put ?b ?x) = p_writeopen ?x"
    by (simp_all add: pipe_put_def)
  ultimately show ?case using pp(2) by (intro exI [of _ ps] exI [of _ x]) (simp add: fun_upd_def del: pipewrite_loop.simps)
qed

lemma piperead_copy_run:
  fixes s :: "'z kfile_scheme"
  assumes "uactive s pd xs N" "addr + n \<le> N" "k \<le> n" "pipe_ok (pipes s p)"
  shows "\<exists>m x. piperead_copy p (to_user addr) n k s = Ok (n - k + length (take k (pipe_queue (pipes s p))))
      (s\<lparr>memory := m, pipes := (pipes s)(p := x)\<rparr>)
    \<and> pipe_ok x \<and> pipe_queue x = drop k (pipe_queue (pipes s p)) \<and> p_readopen x = p_readopen (pipes s p)
    \<and> p_writeopen x = p_writeopen (pipes s p) \<and> uactive (s\<lparr>memory := m\<rparr>) pd xs N
    \<and> ustored pd N (addr + (n - k)) (take k (pipe_queue (pipes s p))) (memory s) m"
  using assms
proof (induction k arbitrary: s)
  case 0
  then show ?case by (intro exI [of _ "memory s"] exI [of _ "pipes s p"]) (simp add: ustored_Nil)
next
  case (Suc k)
  let ?x = "pipes s p" and ?j = "n - Suc k"
  show ?case
  proof (cases "pipe_queue ?x")
    case Nil
    then have "piperead_copy p (to_user addr) n (Suc k) s = Ok (n - Suc k) s" by (simp add: pget_def pipe_empty)
    then show ?thesis using Suc.prems Nil
      by (intro exI [of _ "memory s"] exI [of _ "pipes s p"]) (simp add: ustored_Nil del: piperead_copy.simps)
  next
    case (Cons c q)
    note pt = pipe_take [OF Suc.prems(4) Cons]
    let ?t = "s\<lparr>pipes := (pipes s)(p := pipe_take ?x)\<rparr>"
    have u: "uactive ?t pd xs N" using uactive_frame(1) [OF Suc.prems(1)] .
    have "N \<le> KERNBASE" using Suc.prems(1) uspaceD(2) unfolding uactive_def by blast
    then have a: "n32 (addr + ?j) = addr + ?j" "addr + ?j + length [c] \<le> N" using Suc.prems(2,3) by (auto intro!: n32_id)
    obtain m where m: "to_user addr ?j [c] ?t = Ok () (?t\<lparr>memory := m\<rparr>)" "uactive (?t\<lparr>memory := m\<rparr>) pd xs N"
      "ustored pd N (addr + ?j) [c] (memory s) m"
      using stbs_run [OF u a(2)] by (auto simp: to_user_def a(1) simp del: kfile_commute)
    let ?v = "?t\<lparr>memory := m\<rparr>"
    have run: "piperead_copy p (to_user addr) n (Suc k) s = piperead_copy p (to_user addr) n k ?v"
      using pt(3,4) m(1) by (simp add: pget_def pset_run pipe_take_def)
    have pv: "pipes ?v p = pipe_take ?x" "memory ?v = m" by simp_all
    have nk: "n - k = Suc ?j" "k \<le> n" using Suc.prems(3) by simp_all
    obtain m' x where x: "piperead_copy p (to_user addr) n k ?v = Ok (Suc ?j + length (take k q))
        (?v\<lparr>memory := m', pipes := (pipes ?v)(p := x)\<rparr>)"
      "pipe_ok x" "pipe_queue x = drop k q" "p_readopen x = p_readopen (pipe_take ?x)" "p_writeopen x = p_writeopen (pipe_take ?x)"
      "uactive (?v\<lparr>memory := m'\<rparr>) pd xs N" "ustored pd N (addr + Suc ?j) (take k q) m m'"
      using Suc.IH [OF m(2) Suc.prems(2) nk(2), unfolded pv pt(2) nk(1), OF pt(1)] by blast
    have st: "?v\<lparr>memory := m', pipes := (pipes ?v)(p := x)\<rparr> = s\<lparr>memory := m', pipes := (pipes s)(p := x)\<rparr>" by simp
    have fl: "p_readopen (pipe_take ?x) = p_readopen ?x" "p_writeopen (pipe_take ?x) = p_writeopen ?x"
      by (simp_all add: pipe_take_def)
    have ua: "uactive (s\<lparr>memory := m'\<rparr>) pd xs N"
      using uactive_unheld [OF Suc.prems(1)] by (intro uactive_cong [OF x(6)]) simp_all
    have us: "ustored pd N (addr + ?j) (c # take k q) (memory s) m'"
      using m(3) x(7) by (intro ustored_Cons [of N m]) (auto simp: ustored_def simp del: Nat.add_diff_assoc)
    show ?thesis unfolding run x(1) st Cons using x(2-5) ua us
      by (intro exI [of _ m'] exI [of _ x]) (simp add: fl fun_upd_def)
  qed
qed

lemma pipewrite_run:
  fixes s :: "'z kfile_scheme"
  assumes "uactive s pd xs N" "a + n \<le> N" "pipe_ok (pipes s p)" "length (pipe_queue (pipes s p)) + n \<le> PIPESIZE" "held s = []"
  obtains ps x where "pipewrite p (from_user a) (int n) s = Ok (int n) (s\<lparr>procs := ps, pipes := (pipes s)(p := x)\<rparr>)" "pipe_ok x"
    "pipe_queue x = pipe_queue (pipes s p) @ map (umem (memory s) pd) [a..<a + n]"
proof -
  let ?t = "s\<lparr>held := [PipeLk p]\<rparr>"
  have u: "uactive ?t pd xs N" using uactive_frame(3) [OF assms(1)] by simp
  obtain ps x where x: "pipewrite_loop p (from_user a) n n ?t = Ok (int n) (?t\<lparr>held := [], procs := ps, pipes := (pipes s)(p := x)\<rparr>)"
    "pipe_ok x" "pipe_queue x = pipe_queue (pipes s p) @ map (umem (memory s) pd) [a..<a + n]"
    using pipewrite_loop_run [OF u assms(2) order_refl, of p] assms(3,4) by auto
  show ?thesis
    by (rule that [where ps = ps and x = x])
      (use assms(5) x in \<open>simp_all add: pipewrite_def del: pipewrite_loop.simps\<close>)
qed

lemma piperead_run:
  fixes s :: "'z kfile_scheme"
  assumes "uactive s pd xs N" "b + r \<le> N" "pipe_ok (pipes s p)" "pipe_queue (pipes s p) \<noteq> []" "held s = []"
  obtains ps x m where "piperead p (to_user b) (int r) s = Ok (int (length (take r (pipe_queue (pipes s p)))))
      (s\<lparr>procs := ps, memory := m, pipes := (pipes s)(p := x)\<rparr>)" "pipe_ok x"
    "pipe_queue x = drop r (pipe_queue (pipes s p))" "ustored pd N b (take r (pipe_queue (pipes s p))) (memory s) m"
proof -
  let ?t = "s\<lparr>held := [PipeLk p]\<rparr>"
  have u: "uactive ?t pd xs N" using uactive_frame(3) [OF assms(1)] by simp
  have ne: "p_nread (pipes s p) \<noteq> p_nwrite (pipes s p)" using assms(4) by (simp add: pipe_empty)
  obtain m x where x: "piperead_copy p (to_user b) r r ?t = Ok (length (take r (pipe_queue (pipes s p))))
      (?t\<lparr>memory := m, pipes := (pipes s)(p := x)\<rparr>)" "pipe_ok x" "pipe_queue x = drop r (pipe_queue (pipes s p))"
    "ustored pd N b (take r (pipe_queue (pipes s p))) (memory s) m"
    using piperead_copy_run [OF u assms(2) order_refl, of p] assms(3) by auto
  show ?thesis
    by (rule that [where ps = "map (wakeup_proc (Some (ChNwrite p))) (procs s)" and m = m and x = x])
      (use assms(5) ne x in \<open>simp_all add: piperead_def piperead_loop_def pget_def del: piperead_copy.simps\<close>)
qed

section \<open>Property\<close>

text \<open>C4: a pipe is a bounded first-in first-out queue. Writing \<open>n\<close> bytes from user memory into a pipe
  with room for them returns \<open>n\<close> and appends these bytes to the queue; a read of up to \<open>r\<close> bytes that
  follows returns as many bytes as there are, stores the oldest bytes of the queue in order at the
  reader's buffer, changes no other byte of user memory, and leaves the rest in the pipe. The indices
  \<open>nread\<close> and \<open>nwrite\<close> may have wrapped around 2^32 any number of times, and no lock stays held.\<close>

theorem pipe_is_fifo:
  fixes s :: "'z kfile_scheme" and p pd a n :: nat
  defines "q \<equiv> pipe_queue (pipes s p) @ map (umem (memory s) pd) [a..<a + n]"
  assumes "uactive s pd xs N" "a + n \<le> N" "b + r \<le> N" "pipe_ok (pipes s p)" "length (pipe_queue (pipes s p)) + n \<le> PIPESIZE"
    "0 < n" "held s = []"
  shows "\<exists>t u. pipewrite p (from_user a) (int n) s = Ok (int n) t \<and> pipe_queue (pipes t p) = q
    \<and> piperead p (to_user b) (int r) t = Ok (int (min r (length (q)))) u
    \<and> ustored pd N b (take r (q)) (memory s) (memory u)
    \<and> pipe_queue (pipes u p) = drop r (q) \<and> pipe_ok (pipes u p) \<and> held u = []"
proof -
  obtain ps x where x: "pipewrite p (from_user a) (int n) s = Ok (int n) (s\<lparr>procs := ps, pipes := (pipes s)(p := x)\<rparr>)" "pipe_ok x"
    "pipe_queue x = q" using pipewrite_run [OF assms(2,3,5,6,8)] unfolding q_def by blast
  let ?t = "s\<lparr>procs := ps, pipes := (pipes s)(p := x)\<rparr>"
  have t: "uactive ?t pd xs N" "pipe_ok (pipes ?t p)" "pipe_queue (pipes ?t p) \<noteq> []" "held ?t = []"
    using uactive_frame(1) [OF uactive_frame(2) [OF assms(2)]] x(2,3) assms(7,8) by (simp_all add: q_def)
  have q: "pipe_queue (pipes ?t p) = q" "memory ?t = memory s" using x(3) by simp_all
  obtain ps' y m where
    y: "piperead p (to_user b) (int r) ?t = Ok (int (length (take r (q)))) (?t\<lparr>procs := ps', memory := m, pipes := (pipes ?t)(p := y)\<rparr>)"
    "pipe_ok y" "pipe_queue y = drop r (q)" "ustored pd N b (take r (q)) (memory s) m"
    using piperead_run [OF t(1) assms(4) t(2-4)] unfolding q by blast
  show ?thesis
    by (intro exI [of _ ?t] exI [of _ "?t\<lparr>procs := ps', memory := m, pipes := (pipes ?t)(p := y)\<rparr>"])
      (use x y assms(8) in \<open>simp add: min.commute\<close>)
qed

theorem pipe_is_fifo_witness:
  "\<exists>s t u. pipewrite 0 (from_user 8) 3 (s :: kfile) = Ok 3 t \<and> piperead 0 (to_user 100) 512 t = Ok 3 u
     \<and> pipe_queue (pipes u 0) = []"
proof -
  have b: "free_pages (boot_kfile demo_disk) []" "kend (boot_kfile demo_disk) \<le> KERNLINK + 4096"
    by (simp_all add: free_pages_def boot_defs)
  obtain m f x xs where u: "uactive ((boot_kfile demo_disk)\<lparr>memory := m, freelist := f, cr3 := V2P x\<rparr>) x xs 4096"
    using user_page [OF b] by metis
  let ?s = "(boot_kfile demo_disk)\<lparr>memory := m, freelist := f, cr3 := V2P x\<rparr>"
  have "pipe_queue (pipes ?s 0) = []" "pipe_ok (pipes ?s 0)" "held ?s = []"
    by (simp_all add: boot_defs pipe_ok_def pipe_queue_def)
  then obtain t v where "pipewrite 0 (from_user 8) 3 ?s = Ok 3 t" "piperead 0 (to_user 100) 512 t = Ok 3 v" "pipe_queue (pipes v 0) = []"
    using pipe_is_fifo [OF u, of 8 3 100 512 0] by auto
  then show ?thesis by blast
qed

end
