(* ===== verification/File.thy ===== *)
theory File
  imports Pipe
begin

text \<open>
  Open files (file.c) and \<open>pipealloc\<close> of pipe.c, which needs the file table. A \<open>struct file *\<close> is an
  index of \<open>ftable.file\<close>.
\<close>

definition filealloc :: "('z kfile_scheme, nat option) k" where
  "filealloc = (thenk (lock FtableLk)
     (bindk (kget ftable) (\<lambda>t.
     case scan (\<lambda>f. f_ref f = 0) t of
       Some f \<Rightarrow> (thenk (fset f (\<lambda>x. x\<lparr>f_ref := 1\<rparr>)) (thenk (unlock FtableLk) (kret (Some f))))
     | None \<Rightarrow> (thenk (unlock FtableLk) (kret None)))))"

definition filedup :: "nat \<Rightarrow> ('z kfile_scheme, nat) k" where
  "filedup f = (thenk (lock FtableLk)
     (bindk (fget f f_ref) (\<lambda>r.
     if r < 1 then kpanic ''filedup''
     else (thenk (fset f (\<lambda>x. x\<lparr>f_ref := s32 (f_ref x + 1)\<rparr>)) (thenk (unlock FtableLk) (kret f))))))"

definition fileclose :: "nat \<Rightarrow> ('z kfile_scheme, unit) k" where
  "fileclose f = (thenk (lock FtableLk)
     (bindk (fget f f_ref) (\<lambda>r.
     if r < 1 then kpanic ''fileclose''
     else (thenk (fset f (\<lambda>x. x\<lparr>f_ref := f_ref x - 1\<rparr>))
       (if 0 < r - 1 then unlock FtableLk
       else (bindk (fget f id) (\<lambda>ff.
         thenk (fset f (\<lambda>x. x\<lparr>f_ref := 0, f_type := FD_NONE\<rparr>))
         (thenk (unlock FtableLk)
         (if f_type ff = FD_PIPE then pipeclose (f_pipe ff) (f_writable ff)
         else whenk (f_type ff = FD_INODE) (thenk begin_op (thenk (iput (f_ip ff)) end_op)))))))))))"

text \<open>\<open>filestat\<close> with the \<open>struct stat\<close> it fills in.\<close>

definition filestat :: "nat \<Rightarrow> ('z kfile_scheme, stat option) k" where
  "filestat f = (bindk (fget f id) (\<lambda>ff.
     if f_type ff = FD_INODE then (thenk (ilock (Some (f_ip ff))) (bindk (stati (f_ip ff)) (\<lambda>st. thenk (iunlock (Some (f_ip ff))) (kret (Some st)))))
     else kret None))"

definition fileread :: "nat \<Rightarrow> nat \<Rightarrow> int \<Rightarrow> ('z kfile_scheme, int) k" where
  "fileread f addr n = (bindk (fget f id) (\<lambda>ff.
     if \<not> f_readable ff then kret (- 1)
     else if f_type ff = FD_PIPE then piperead (f_pipe ff) (to_user addr) n
     else if f_type ff = FD_INODE then (thenk (ilock (Some (f_ip ff)))
       (bindk (readi (f_ip ff) (to_user addr) (f_off ff) (nat (n mod 2 ^ 32))) (\<lambda>r.
       thenk (whenk (0 < fst r) (fset f (\<lambda>x. x\<lparr>f_off := n32 (f_off x + nat (fst r))\<rparr>)))
       (thenk (iunlock (Some (f_ip ff)))
       (kret (fst r))))))
     else kpanic ''fileread''))"

definition max_chunk :: nat where
  "max_chunk = ((MAXOPBLOCKS - 1 - 1 - 2) div 2) * 512"

lemma max_chunk_pos [simp]: "max_chunk = 1536"
  by (simp add: max_chunk_def)

text \<open>One turn of the loop of \<open>filewrite\<close>: a chunk of \<open>n1\<close> bytes in a transaction of its own.\<close>

definition filewrite_chunk :: "nat \<Rightarrow> nat \<Rightarrow> nat \<Rightarrow> nat \<Rightarrow> nat \<Rightarrow> ('z kfile_scheme, int) k" where
  "filewrite_chunk f ip addr i n1 = (thenk begin_op
     (thenk (ilock (Some ip))
     (bindk (fget f f_off) (\<lambda>off.
     bindk (writei ip (from_user (n32 (addr + i))) off n1) (\<lambda>r.
     thenk (whenk (0 < r) (fset f (\<lambda>x. x\<lparr>f_off := n32 (f_off x + nat r)\<rparr>)))
     (thenk (iunlock (Some ip))
     (thenk end_op
     (kret r))))))))"

function filewrite_loop :: "nat \<Rightarrow> nat \<Rightarrow> nat \<Rightarrow> nat \<Rightarrow> nat \<Rightarrow> ('z kfile_scheme, int) k" where
  "filewrite_loop f ip addr i n =
     (if i < n then (bindk (filewrite_chunk f ip addr i (min (n - i) max_chunk)) (\<lambda>r.
        if r < 0 then kret (- 1)
        else if r \<noteq> int (min (n - i) max_chunk) then kpanic ''short filewrite''
        else filewrite_loop f ip addr (i + min (n - i) max_chunk) n))
      else kret (int n))"
  by pat_completeness auto
termination by (relation "measure (\<lambda>(f, ip, addr, i, n). n - i)") auto

declare filewrite_loop.simps [simp del]

definition filewrite :: "nat \<Rightarrow> nat \<Rightarrow> int \<Rightarrow> ('z kfile_scheme, int) k" where
  "filewrite f addr n = (bindk (fget f id) (\<lambda>ff.
     if \<not> f_writable ff then kret (- 1)
     else if f_type ff = FD_PIPE then pipewrite (f_pipe ff) (from_user addr) n
     else if f_type ff = FD_INODE then
       (if n < 0 then kret (- 1) else filewrite_loop f (f_ip ff) addr 0 (nat n))
     else kpanic ''filewrite''))"

section \<open>Creating a pipe\<close>

definition pipe_end :: "nat \<Rightarrow> bool \<Rightarrow> struct_file \<Rightarrow> struct_file" where
  "pipe_end p w x = x\<lparr>f_type := FD_PIPE, f_readable := \<not> w, f_writable := w, f_pipe := p\<rparr>"

definition close_opt :: "nat option \<Rightarrow> ('z kfile_scheme, unit) k" where
  "close_opt fo = (case fo of None \<Rightarrow> kret () | Some f \<Rightarrow> fileclose f)"

definition pipealloc :: "('z kfile_scheme, (nat \<times> nat) option) k" where
  "pipealloc = (bindk filealloc (\<lambda>f0.
     bindk (case f0 of None \<Rightarrow> kret None | Some _ \<Rightarrow> filealloc) (\<lambda>f1.
     case (f0, f1) of
       (Some a, Some b) \<Rightarrow> (bindk kalloc (\<lambda>p.
         if p = 0 then (thenk (fileclose a) (thenk (fileclose b) (kret None)))
         else (thenk (pset p (\<lambda>x. x\<lparr>p_readopen := True, p_writeopen := True, p_nwrite := 0, p_nread := 0\<rparr>))
           (thenk (fset a (pipe_end p False))
           (thenk (fset b (pipe_end p True))
           (kret (Some (a, b))))))))
     | _ \<Rightarrow> (thenk (close_opt f0) (thenk (close_opt f1) (kret None))))))"

end
