(* ===== verification/Proc_Life.thy ===== *)
theory Proc_Life
  imports File Scheduler
begin

text \<open>
  Creation and end of processes (proc.c): \<open>allocproc\<close>, \<open>userinit\<close>, \<open>growproc\<close>, \<open>fork\<close>, \<open>exit\<close>,
  \<open>wait\<close>, \<open>wait2\<close>, \<open>forkret\<close>. The preprocessor symbols \<open>LOTTERY\<close> and \<open>PRIORITY\<close> are the argument
  \<open>build\<close>. The trap frame and the context at the top of a fresh kernel stack are fields of the process,
  so that reserving room for them leaves no trace.
\<close>

datatype build = LOTTERY | PRIORITY

record kproc = kfile +
  fork_first :: bool

definition allocproc :: "build \<Rightarrow> ('z kfile_scheme, nat option) k" where
  "allocproc b = (thenk (lock PtableLk)
     (bindk (kget procs) (\<lambda>ps.
     case scan (\<lambda>p. state p = UNUSED) ps of
       None \<Rightarrow> (thenk (unlock PtableLk) (kret None))
     | Some p \<Rightarrow> (thenk (whenk (b = LOTTERY) (set_proc p (\<lambda>q. q\<lparr>tickets := 10\<rparr>)))
         (thenk (set_proc p (\<lambda>q. q\<lparr>state := EMBRYO\<rparr>))
         (bindk (kget nextpid) (\<lambda>n.
         thenk (set_proc p (\<lambda>q. q\<lparr>pid := n\<rparr>))
         (thenk (kput (\<lambda>s. s\<lparr>nextpid := s32 (n + 1)\<rparr>))
         (thenk (whenk (b = PRIORITY) (thenk (set_proc p (\<lambda>q. q\<lparr>priority := 1\<rparr>))
           (bindk curr_time (\<lambda>t.
           set_proc p (\<lambda>q. q\<lparr>init_time := t\<rparr>)))))
         (thenk (unlock PtableLk)
         (bindk kalloc (\<lambda>stk.
         thenk (set_proc p (\<lambda>q. q\<lparr>kstack := stk\<rparr>))
         (if stk = 0 then (thenk (set_proc p (\<lambda>q. q\<lparr>state := UNUSED\<rparr>)) (kret None))
         else (thenk (set_proc p (\<lambda>q. q\<lparr>context_eip := Forkret\<rparr>))
           (bindk (kget (\<lambda>s. sint (ticks s))) (\<lambda>t.
           thenk (set_proc p (\<lambda>q. q\<lparr>ctime := t, stime := 0, retime := 0, rutime := 0\<rparr>))
           (kret (Some p))))))))))))))))))"

definition SEG_UCODE :: nat where [simp]: "SEG_UCODE = 3"
definition SEG_UDATA :: nat where [simp]: "SEG_UDATA = 4"
definition DPL_USER :: nat where [simp]: "DPL_USER = 3"
definition FL_IF :: nat where [simp]: "FL_IF = 0x200"

text \<open>\<open>initcode\<close> is the text of initcode.S that the linker puts into the kernel image.\<close>

definition userinit :: "build \<Rightarrow> u8 list \<Rightarrow> ('z kfile_scheme, unit) k" where
  "userinit b initcode = (bindk (allocproc b) (\<lambda>po.
     thenk (kput (\<lambda>s. s\<lparr>initproc := po\<rparr>))
     (case po of None \<Rightarrow> kfault ''null process'' | Some p \<Rightarrow> (bindk setupkvm (\<lambda>pd.
       thenk (set_proc p (\<lambda>q. q\<lparr>pgdir := pd\<rparr>))
       (if pd = 0 then kpanic ''userinit: out of memory?''
       else (thenk (inituvm pd initcode)
         (thenk (set_proc p (\<lambda>q. q\<lparr>sz := PGSIZE\<rparr>))
         (bindk (kget (\<lambda>s. sint (ticks s))) (\<lambda>t.
         thenk (set_proc p (\<lambda>q. q\<lparr>ctime := t\<rparr>))
         ((let ds = of_nat (SEG_UDATA * 8 + DPL_USER) in
         thenk (set_proc p (\<lambda>q. q\<lparr>tf := zero_tf\<lparr>tf_cs := of_nat (SEG_UCODE * 8 + DPL_USER), tf_ds := ds, tf_es := ds,
           tf_ss := ds, tf_eflags := of_nat FL_IF, tf_esp := of_nat PGSIZE, tf_eip := 0\<rparr>\<rparr>))
         (thenk (set_proc p (\<lambda>q. q\<lparr>pname := ''initcode''\<rparr>))
         (bindk (namei [slash]) (\<lambda>d.
         thenk (set_proc p (\<lambda>q. q\<lparr>cwd := d\<rparr>))
         (thenk (lock PtableLk)
         (thenk (set_proc p (\<lambda>q. q\<lparr>state := RUNNABLE\<rparr>))
         (unlock PtableLk))))))))))))))))))"

definition growproc :: "int \<Rightarrow> ('z kfile_scheme, int) k" where
  "growproc n = (bindk curproc (\<lambda>p.
     bindk (kget (\<lambda>s. proc_at s p)) (\<lambda>q.
     (let target = nat ((int (sz q) + n) mod 2 ^ 32) in
     bindk (if 0 < n then allocuvm (pgdir q) (sz q) target
               else if n < 0 then deallocuvm (pgdir q) (sz q) target else kret (sz q)) (\<lambda>newsz.
     if n \<noteq> 0 \<and> newsz = 0 then kret (- 1)
     else (thenk (set_proc p (\<lambda>q. q\<lparr>sz := newsz\<rparr>))
       (thenk (switchuvm (Some p))
       (kret 0))))))))"

definition fork_files :: "nat \<Rightarrow> nat \<Rightarrow> ('z kfile_scheme, unit) k" where
  "fork_files p np = eachk (\<lambda>i. bindk (kget (\<lambda>s. ofile (proc_at s p) ! i)) (\<lambda>fo.
     case fo of None \<Rightarrow> kret () | Some f \<Rightarrow> (bindk (filedup f) (\<lambda>g.
       set_proc np (\<lambda>q. q\<lparr>ofile := (ofile q)[i := Some g]\<rparr>))))) [0..<NOFILE]"

definition fork :: "build \<Rightarrow> ('z kfile_scheme, int) k" where
  "fork b = (bindk curproc (\<lambda>p.
     bindk (allocproc b) (\<lambda>npo.
     case npo of None \<Rightarrow> kret (- 1) | Some np \<Rightarrow> (bindk (kget (\<lambda>s. proc_at s p)) (\<lambda>q.
       bindk (copyuvm (pgdir q) (sz q)) (\<lambda>pd.
       thenk (set_proc np (\<lambda>r. r\<lparr>pgdir := pd\<rparr>))
       (if pd = 0 then (bindk (kget (\<lambda>s. kstack (proc_at s np))) (\<lambda>stk.
         thenk (kfree stk)
         (thenk (set_proc np (\<lambda>r. r\<lparr>kstack := 0, state := UNUSED\<rparr>))
         (kret (- 1)))))
       else (thenk (set_proc np (\<lambda>r. r\<lparr>sz := sz q, parent := Some p, tf := tf q, traceflag := traceflag q\<rparr>))
         (thenk (set_proc np (\<lambda>r. r\<lparr>tf := (tf r)\<lparr>tf_eax := 0\<rparr>\<rparr>))
         (thenk (fork_files p np)
         (case cwd q of None \<Rightarrow> kfault ''null inode'' | Some d \<Rightarrow> (bindk (idup d) (\<lambda>e.
           thenk (set_proc np (\<lambda>r. r\<lparr>cwd := Some e\<rparr>))
           (thenk (set_proc np (\<lambda>r. r\<lparr>pname := pname q\<rparr>))
           (bindk (kget (\<lambda>s. pid (proc_at s np))) (\<lambda>n.
           thenk (lock PtableLk)
           (thenk (set_proc np (\<lambda>r. r\<lparr>state := RUNNABLE\<rparr>))
           (thenk (unlock PtableLk)
           (kret n)))))))))))))))))))"

definition exit_files :: "nat \<Rightarrow> ('z kfile_scheme, unit) k" where
  "exit_files p = eachk (\<lambda>fd. bindk (kget (\<lambda>s. ofile (proc_at s p) ! fd)) (\<lambda>fo.
     case fo of None \<Rightarrow> kret () | Some f \<Rightarrow> (thenk (fileclose f)
       (set_proc p (\<lambda>q. q\<lparr>ofile := (ofile q)[fd := None]\<rparr>))))) [0..<NOFILE]"

text \<open>The loop that passes the children of \<open>p\<close> to init.\<close>

definition reparent :: "nat \<Rightarrow> ('z kfile_scheme, unit) k" where
  "reparent p = eachk (\<lambda>i. bindk (kget (\<lambda>s. proc_at s i)) (\<lambda>q. whenk (parent q = Some p) (bindk (kget initproc) (\<lambda>ini.
     thenk (set_proc i (\<lambda>q. q\<lparr>parent := ini\<rparr>))
     (whenk (state q = ZOMBIE) (wakeup1 (map_option ChProc ini))))))) [0..<NPROC]"

definition exit :: "('z kfile_scheme, unit) k" where
  "exit = (bindk curproc (\<lambda>p.
     bindk (kget initproc) (\<lambda>ini.
     if ini = Some p then kpanic ''init exiting''
     else (thenk (exit_files p)
       (thenk begin_op
       (bindk (kget (\<lambda>s. cwd (proc_at s p))) (\<lambda>d.
       thenk (case d of None \<Rightarrow> kfault ''null inode'' | Some d \<Rightarrow> iput d)
       (thenk end_op
       (thenk (set_proc p (\<lambda>q. q\<lparr>cwd := None\<rparr>))
       (thenk (lock PtableLk)
       (bindk (kget (\<lambda>s. parent (proc_at s p))) (\<lambda>par.
       thenk (wakeup1 (map_option ChProc par))
       (thenk (reparent p)
       (thenk (set_proc p (\<lambda>q. q\<lparr>state := ZOMBIE\<rparr>))
       (thenk sched
       (kpanic ''zombie exit''))))))))))))))))"

text \<open>What \<open>wait\<close> does with the zombie it finds; \<open>wait2\<close> also clears the counters.\<close>

definition reap :: "nat \<Rightarrow> ('z kfile_scheme, int) k" where
  "reap i = (bindk (kget (\<lambda>s. proc_at s i)) (\<lambda>q.
     thenk (kfree (kstack q))
     (thenk (set_proc i (\<lambda>q. q\<lparr>kstack := 0\<rparr>))
     (thenk (freevm (pgdir q))
     (thenk (set_proc i (\<lambda>q. q\<lparr>pid := 0, parent := None, pname := [], killed := False, ctime := 0, state := UNUSED\<rparr>))
     (kret (pid q)))))))"

text \<open>The body of the loop of \<open>wait\<close>, entered with the table lock held; it ends in \<open>sleep\<close> when there are
  children and none has exited.\<close>

definition wait_loop :: "(nat \<Rightarrow> ('z kfile_scheme, int) k) \<Rightarrow> ('z kfile_scheme, int) k" where
  "wait_loop take_zombie = (bindk curproc (\<lambda>p.
     bindk (kget procs) (\<lambda>ps.
     case scan (\<lambda>q. parent q = Some p \<and> state q = ZOMBIE) ps of
       Some i \<Rightarrow> (bindk (take_zombie i) (\<lambda>n. thenk (unlock PtableLk) (kret n)))
     | None \<Rightarrow> ((let havekids = (scan (\<lambda>q. parent q = Some p) ps \<noteq> None) in
         bindk (kget (\<lambda>s. killed (proc_at s p))) (\<lambda>dead.
         if \<not> havekids \<or> dead then (thenk (unlock PtableLk) (kret (- 1)))
         else (thenk (sleep (ChProc p) (Some PtableLk)) kblock)))))))"

definition wait :: "('z kfile_scheme, int) k" where
  "wait = thenk (lock PtableLk) (wait_loop reap)"

definition wait_resume :: "('z kfile_scheme, int) k" where
  "wait_resume = thenk (sleep_resume PtableLk) (wait_loop reap)"

definition reap2 :: "nat \<Rightarrow> nat \<Rightarrow> nat \<Rightarrow> nat \<Rightarrow> ('z kfile_scheme, int) k" where
  "reap2 are aru ast i = (bindk (kget (\<lambda>s. proc_at s i)) (\<lambda>q.
     thenk (stu32 are (nat (retime q mod 2 ^ 32)))
     (thenk (stu32 aru (nat (rutime q mod 2 ^ 32)))
     (thenk (stu32 ast (nat (stime q mod 2 ^ 32)))
     (bindk (reap i) (\<lambda>n.
     thenk (set_proc i (\<lambda>q. q\<lparr>retime := 0, rutime := 0, stime := 0\<rparr>))
     (kret n)))))))"

definition wait2 :: "nat \<Rightarrow> nat \<Rightarrow> nat \<Rightarrow> ('z kfile_scheme, int) k" where
  "wait2 are aru ast = thenk (lock PtableLk) (wait_loop (reap2 are aru ast))"

definition wait2_resume :: "nat \<Rightarrow> nat \<Rightarrow> nat \<Rightarrow> ('z kfile_scheme, int) k" where
  "wait2_resume are aru ast = thenk (sleep_resume PtableLk) (wait_loop (reap2 are aru ast))"

definition forkret :: "('z kproc_scheme, unit) k" where
  "forkret = (thenk (unlock PtableLk)
     (bindk (kget fork_first) (\<lambda>first.
     whenk first (thenk (kput (\<lambda>s. s\<lparr>fork_first := False\<rparr>))
       (thenk (iinit ROOTDEV)
       (initlog ROOTDEV))))))"

end
