(* ===== verification/Exec.thy ===== *)
theory Exec
  imports Proc_Life
begin

text \<open>
  Loading a program: \<open>loaduvm\<close> of vm.c and \<open>exec\<close> of exec.c with the ELF headers of elf.h. The path and
  the argument strings are given by their bytes; they lie in the memory of the calling process, which
  \<open>exec\<close> leaves untouched until it commits.
\<close>

section \<open>ELF headers\<close>

definition ELF_MAGIC :: nat where [simp]: "ELF_MAGIC = 0x464C457F"
definition ELF_PROG_LOAD :: nat where [simp]: "ELF_PROG_LOAD = 1"

text \<open>\<open>struct elfhdr\<close> has 52 bytes and \<open>struct proghdr\<close> 32; only the fields that \<open>exec\<close> reads are kept.\<close>

record elfhdr =
  e_magic :: nat
  e_entry :: nat
  e_phoff :: nat
  e_phnum :: nat

definition get_elfhdr :: "u8 list \<Rightarrow> elfhdr" where
  "get_elfhdr b = \<lparr>e_magic = get32 0 b, e_entry = get32 24 b, e_phoff = get32 28 b, e_phnum = get16 44 b\<rparr>"

record proghdr =
  ph_type :: nat
  ph_off :: nat
  ph_vaddr :: nat
  ph_filesz :: nat
  ph_memsz :: nat

definition get_proghdr :: "u8 list \<Rightarrow> proghdr" where
  "get_proghdr b = \<lparr>ph_type = get32 0 b, ph_off = get32 4 b, ph_vaddr = get32 8 b, ph_filesz = get32 16 b,
     ph_memsz = get32 20 b\<rparr>"

section \<open>Loading\<close>

function loaduvm_loop :: "nat \<Rightarrow> nat \<Rightarrow> nat \<Rightarrow> nat \<Rightarrow> nat \<Rightarrow> nat \<Rightarrow> ('z kfile_scheme, int) k" where
  "loaduvm_loop pd addr ip off n i =
     (if i < n then (bindk (walkpgdir pd (n32 (addr + i)) False) (\<lambda>pte.
        if pte = 0 then kpanic ''loaduvm: address should exist''
        else (bindk (ldw pte) (\<lambda>e.
          bindk (readi ip (to_user (P2V (PTE_ADDR e))) (n32 (off + i)) (min (n - i) PGSIZE)) (\<lambda>r.
          if fst r \<noteq> int (min (n - i) PGSIZE) then kret (- 1)
          else loaduvm_loop pd addr ip off n (i + PGSIZE))))))
      else kret 0)"
  by pat_completeness auto
termination by (relation "measure (\<lambda>(pd, addr, ip, off, n, i). n - i)") auto

declare loaduvm_loop.simps [simp del]

definition loaduvm :: "nat \<Rightarrow> nat \<Rightarrow> nat \<Rightarrow> nat \<Rightarrow> nat \<Rightarrow> ('z kfile_scheme, int) k" where
  "loaduvm pd addr ip off n = (if addr mod PGSIZE \<noteq> 0 then kpanic ''loaduvm: addr must be page aligned''
     else loaduvm_loop pd addr ip off n 0)"

text \<open>One turn of the loop over the program headers: the new size, or \<open>None\<close> for \<open>goto bad\<close>.\<close>

definition exec_segment :: "nat \<Rightarrow> nat \<Rightarrow> nat \<Rightarrow> nat \<Rightarrow> ('z kfile_scheme, nat option) k" where
  "exec_segment pd ip off usz = (bindk (readi ip to_local off 32) (\<lambda>r.
     (let ph = get_proghdr (snd r) in
     if fst r \<noteq> 32 then kret None
     else if ph_type ph \<noteq> ELF_PROG_LOAD then kret (Some usz)
     else if ph_memsz ph < ph_filesz ph then kret None
     else if n32 (ph_vaddr ph + ph_memsz ph) < ph_vaddr ph then kret None
     else (bindk (allocuvm pd usz (ph_vaddr ph + ph_memsz ph)) (\<lambda>usz.
       if usz = 0 then kret None
       else if ph_vaddr ph mod PGSIZE \<noteq> 0 then kret None
       else (bindk (loaduvm pd (ph_vaddr ph) ip (ph_off ph) (ph_filesz ph)) (\<lambda>l.
         kret (if l < 0 then None else Some usz))))))))"

primrec exec_segments :: "nat \<Rightarrow> nat \<Rightarrow> nat list \<Rightarrow> nat \<Rightarrow> ('z kfile_scheme, nat option) k" where
  "exec_segments pd ip [] usz = kret (Some usz)"
| "exec_segments pd ip (off # offs) usz = bindk (exec_segment pd ip off usz) (\<lambda>r.
     case r of None \<Rightarrow> kret None | Some usz \<Rightarrow> exec_segments pd ip offs usz)"

section \<open>The stack of the new program\<close>

text \<open>Push the argument strings; the result has the final stack pointer and the addresses of the strings.\<close>

primrec exec_args :: "nat \<Rightarrow> nat \<Rightarrow> nat \<Rightarrow> u8 list list \<Rightarrow> ('z kfile_scheme, (nat \<times> nat list) option) k" where
  "exec_args pd argc sp [] = kret (Some (sp, []))"
| "exec_args pd argc sp (arg # args) =
     (if MAXARG \<le> argc then kret None
      else ((let sp = n32 (sp + (2 ^ 32 - (length arg + 1))) div 4 * 4 in
        bindk (copyout pd sp (arg @ [0])) (\<lambda>c.
        if c < 0 then kret None
        else (bindk (exec_args pd (argc + 1) sp args) (\<lambda>r.
          kret (map_option (\<lambda>(sp', ptrs). (sp', sp # ptrs)) r)))))))"

definition ustack :: "nat \<Rightarrow> nat list \<Rightarrow> u8 list" where
  "ustack sp ptrs = (let argc = length ptrs in
     concat (map (unle 4) ([0xffffffff, argc, n32 (sp + (2 ^ 32 - (argc + 1) * 4))] @ ptrs @ [0])))"

text \<open>The part of the path after its last slash.\<close>

definition last_elem :: "u8 list \<Rightarrow> u8 list" where
  "last_elem path = rev (takeWhile (\<lambda>c. c \<noteq> slash) (rev path))"

definition safe_name :: "u8 list \<Rightarrow> string" where
  "safe_name b = map (\<lambda>x. char_of (unat x)) (take 15 b)"

text \<open>The label \<open>bad\<close>.\<close>

definition exec_bad :: "nat \<Rightarrow> nat option \<Rightarrow> ('z kfile_scheme, int) k" where
  "exec_bad pd ipo = (thenk (whenk (pd \<noteq> 0) (freevm pd))
     (thenk (case ipo of None \<Rightarrow> kret () | Some ip \<Rightarrow> (thenk (iunlockput ip) end_op))
     (kret (- 1))))"

text \<open>From the allocation of the stack pages to the commit.\<close>

definition exec_stack :: "nat \<Rightarrow> nat \<Rightarrow> nat \<Rightarrow> u8 list \<Rightarrow> u8 list list \<Rightarrow> ('z kfile_scheme, int) k" where
  "exec_stack pd entry_pc usz path argv = (bindk curproc (\<lambda>p.
     (let base = PGROUNDUP usz in
     bindk (allocuvm pd base (n32 (base + 2 * PGSIZE))) (\<lambda>usz.
     if usz = 0 then exec_bad pd None
     else (thenk (clearpteu pd (usz - 2 * PGSIZE))
       (bindk (exec_args pd 0 usz argv) (\<lambda>r.
       case r of None \<Rightarrow> exec_bad pd None
       | Some (sp, ptrs) \<Rightarrow> ((let argc = length ptrs in
           (let sp' = n32 (sp + (2 ^ 32 - (3 + argc + 1) * 4)) in
           bindk (copyout pd sp' (ustack sp ptrs)) (\<lambda>c.
           if c < 0 then exec_bad pd None
           else (thenk (set_proc p (\<lambda>q. q\<lparr>pname := safe_name (last_elem path)\<rparr>))
             (bindk (kget (\<lambda>s. pgdir (proc_at s p))) (\<lambda>oldpd.
             thenk (set_proc p (\<lambda>q. q\<lparr>pgdir := pd, sz := usz,
               tf := (tf q)\<lparr>tf_eip := of_nat entry_pc, tf_esp := of_nat sp'\<rparr>\<rparr>))
             (thenk (switchuvm (Some p))
             (thenk (freevm oldpd)
             (kret 0)))))))))))))))))"

definition exec :: "u8 list \<Rightarrow> u8 list list \<Rightarrow> ('z kfile_scheme, int) k" where
  "exec path argv = (thenk begin_op
     (bindk (namei path) (\<lambda>ipo.
     case ipo of
       None \<Rightarrow> (thenk end_op (thenk (cprintf (''exec: fail'' @ [char_of (10 :: nat)]) []) (kret (- 1))))
     | Some ip \<Rightarrow> (thenk (ilock (Some ip))
         (bindk (readi ip to_local 0 52) (\<lambda>r.
         (let elf = get_elfhdr (snd r) in
         if fst r \<noteq> 52 then exec_bad 0 (Some ip)
         else if e_magic elf \<noteq> ELF_MAGIC then exec_bad 0 (Some ip)
         else (bindk setupkvm (\<lambda>pd.
           if pd = 0 then exec_bad 0 (Some ip)
           else (bindk (exec_segments pd ip (map (\<lambda>i. n32 (e_phoff elf + 32 * i)) [0..<e_phnum elf]) 0) (\<lambda>l.
             case l of None \<Rightarrow> exec_bad pd (Some ip)
             | Some usz \<Rightarrow> (thenk (iunlockput ip)
                 (thenk end_op
                 (exec_stack pd (e_entry elf) usz path argv))))))))))))))"

end
