(* ===== verification/Sysargs.thy ===== *)
theory Sysargs
  imports Exec
begin

text \<open>
  Arguments of system calls (first half of syscall.c). The saved user stack pointer points to the
  return address, then the arguments. \<open>None\<close> is the result -1. \<open>fetchstr\<close> delivers the bytes of the
  string instead of a pointer to it: the memory of a process does not change while it is in the kernel.
\<close>

definition fetchint :: "nat \<Rightarrow> ('z kfile_scheme, int option) k" where
  "fetchint addr = (bindk curproc (\<lambda>p.
     bindk (kget (\<lambda>s. sz (proc_at s p))) (\<lambda>n.
     if n \<le> addr \<or> n < n32 (addr + 4) then kret None
     else (bindk (ldu32 addr) (\<lambda>v. kret (Some (s32 (int v))))))))"

function fetchstr_loop :: "nat \<Rightarrow> nat \<Rightarrow> ('z kfile_scheme, u8 list option) k" where
  "fetchstr_loop a ep =
     (if a < ep then (bindk (ldb a) (\<lambda>c.
        if c = 0 then kret (Some [])
        else (bindk (fetchstr_loop (a + 1) ep) (\<lambda>r. kret (map_option ((#) c) r)))))
      else kret None)"
  by pat_completeness auto
termination by (relation "measure (\<lambda>(a, ep). ep - a)") auto

declare fetchstr_loop.simps [simp del]

definition fetchstr :: "nat \<Rightarrow> ('z kfile_scheme, u8 list option) k" where
  "fetchstr addr = (bindk curproc (\<lambda>p.
     bindk (kget (\<lambda>s. sz (proc_at s p))) (\<lambda>n.
     if n \<le> addr then kret None else fetchstr_loop addr n)))"

definition argint :: "nat \<Rightarrow> ('z kfile_scheme, int option) k" where
  "argint n = (bindk curproc (\<lambda>p.
     bindk (kget (\<lambda>s. unat (tf_esp (tf (proc_at s p))))) (\<lambda>esp.
     fetchint (n32 (esp + 4 + 4 * n)))))"

text \<open>An \<open>int\<close> read as an address.\<close>

definition addr_of :: "int \<Rightarrow> nat" where
  "addr_of i = nat (i mod 2 ^ 32)"

definition argptr :: "nat \<Rightarrow> int \<Rightarrow> ('z kfile_scheme, nat option) k" where
  "argptr n len = (bindk curproc (\<lambda>p.
     bindk (argint n) (\<lambda>io.
     case io of None \<Rightarrow> kret None | Some i \<Rightarrow> (bindk (kget (\<lambda>s. sz (proc_at s p))) (\<lambda>m.
       if len < 0 \<or> m \<le> addr_of i \<or> m < n32 (addr_of i + nat len) then kret None
       else kret (Some (addr_of i)))))))"

definition argstr :: "nat \<Rightarrow> ('z kfile_scheme, u8 list option) k" where
  "argstr n = (bindk (argint n) (\<lambda>io.
     case io of None \<Rightarrow> kret None | Some a \<Rightarrow> fetchstr (addr_of a)))"

text \<open>Continue with an argument, or return -1.\<close>

definition with_arg :: "('s, 'a option) k \<Rightarrow> ('a \<Rightarrow> ('s, int) k) \<Rightarrow> ('s, int) k" where
  "with_arg f g = bindk f (\<lambda>x. case x of None \<Rightarrow> kret (- 1) | Some v \<Rightarrow> g v)"

end
