(* ===== verification/Sysproc.thy ===== *)
theory Sysproc
  imports Sysargs
begin

text \<open>System calls about processes (sysproc.c).\<close>

definition sys_fork :: "build \<Rightarrow> ('z kfile_scheme, int) k" where
  "sys_fork b = fork b"

definition sys_exit :: "('z kfile_scheme, int) k" where
  "sys_exit = thenk exit (kret 0)"

definition sys_wait :: "('z kfile_scheme, int) k" where
  "sys_wait = wait"

definition sys_kill :: "('z kfile_scheme, int) k" where
  "sys_kill = with_arg (argint 0) kill"

definition sys_wait2 :: "('z kfile_scheme, int) k" where
  "sys_wait2 = with_arg (argptr 0 4) (\<lambda>are. with_arg (argptr 1 4) (\<lambda>aru. with_arg (argptr 2 4) (\<lambda>ast.
     wait2 are aru ast)))"

definition sys_getpid :: "('z kfile_scheme, int) k" where
  "sys_getpid = bindk curproc (\<lambda>p. kget (\<lambda>s. pid (proc_at s p)))"

definition sys_sbrk :: "('z kfile_scheme, int) k" where
  "sys_sbrk = with_arg (argint 0) (\<lambda>n. (bindk (bindk curproc (\<lambda>p. kget (\<lambda>s. s32 (int (sz (proc_at s p)))))) (\<lambda>addr.
     bindk (growproc n) (\<lambda>r.
     kret (if r < 0 then - 1 else addr)))))"

text \<open>The loop of \<open>sys_sleep\<close>, entered with \<open>tickslock\<close> held; the comparison is unsigned.\<close>

definition sys_sleep_loop :: "u32 \<Rightarrow> int \<Rightarrow> ('z kfile_scheme, int) k" where
  "sys_sleep_loop ticks0 n = (bindk (kget ticks) (\<lambda>t.
     if t - ticks0 < of_int n then (bindk (bindk curproc (\<lambda>p. kget (\<lambda>s. killed (proc_at s p)))) (\<lambda>dead.
       if dead then (thenk (unlock TicksLk) (kret (- 1)))
       else (thenk (sleep ChTicks (Some TicksLk)) kblock)))
     else (thenk (unlock TicksLk) (kret 0))))"

definition sys_sleep :: "('z kfile_scheme, int) k" where
  "sys_sleep = with_arg (argint 0) (\<lambda>n. (thenk (lock TicksLk)
     (bindk (kget ticks) (\<lambda>t0.
     sys_sleep_loop t0 n))))"

definition sys_sleep_resume :: "u32 \<Rightarrow> int \<Rightarrow> ('z kfile_scheme, int) k" where
  "sys_sleep_resume ticks0 n = thenk (sleep_resume TicksLk) (sys_sleep_loop ticks0 n)"

definition sys_uptime :: "('z kfile_scheme, int) k" where
  "sys_uptime = (thenk (lock TicksLk) (bindk (kget ticks) (\<lambda>t. thenk (unlock TicksLk) (kret (sint t)))))"

text \<open>\<open>argint\<close> stores into \<open>traceflag\<close> directly.\<close>

definition sys_trace :: "('z kfile_scheme, int) k" where
  "sys_trace = with_arg (argint 0) (\<lambda>v. (bindk curproc (\<lambda>p. thenk (set_proc p (\<lambda>q. q\<lparr>traceflag := v\<rparr>)) (kret 0))))"

definition sys_cs :: "('z kfile_scheme, int) k" where
  "sys_cs = bindk curproc (\<lambda>p. kget (\<lambda>s. counter (proc_at s p)))"

definition sys_set_tickets :: "('z kfile_scheme, int) k" where
  "sys_set_tickets = with_arg (argint 0) (\<lambda>n. (bindk curproc (\<lambda>p. thenk (set_proc p (\<lambda>q. q\<lparr>tickets := n\<rparr>)) (kret n))))"

definition sys_set_priority :: "('z kfile_scheme, int) k" where
  "sys_set_priority = with_arg (argint 0) (\<lambda>n. with_arg (argint 1) (\<lambda>pr. set_priority n pr))"

end
