(* ===== verification/Sysfile.thy ===== *)
theory Sysfile
  imports Sysargs
begin

text \<open>System calls about files (sysfile.c).\<close>

unbundle bit_operations_syntax

definition O_RDONLY :: nat where [simp]: "O_RDONLY = 0"
definition O_WRONLY :: nat where [simp]: "O_WRONLY = 1"
definition O_RDWR :: nat where [simp]: "O_RDWR = 2"
definition O_CREATE :: nat where [simp]: "O_CREATE = 0x200"

section \<open>Descriptors\<close>

definition argfd :: "nat \<Rightarrow> ('z kfile_scheme, (nat \<times> nat) option) k" where
  "argfd n = (bindk (argint n) (\<lambda>io.
     case io of None \<Rightarrow> kret None | Some fd \<Rightarrow>
       if fd < 0 \<or> int NOFILE \<le> fd then kret None
       else (bindk curproc (\<lambda>p.
         bindk (kget (\<lambda>s. ofile (proc_at s p) ! nat fd)) (\<lambda>fo.
         kret (map_option (\<lambda>f. (nat fd, f)) fo))))))"

definition fdalloc :: "nat \<Rightarrow> ('z kfile_scheme, nat option) k" where
  "fdalloc f = (bindk curproc (\<lambda>p.
     bindk (kget (\<lambda>s. ofile (proc_at s p))) (\<lambda>fs.
     case scan (\<lambda>x. x = None) fs of
       None \<Rightarrow> kret None
     | Some fd \<Rightarrow> (thenk (set_proc p (\<lambda>q. q\<lparr>ofile := (ofile q)[fd := Some f]\<rparr>)) (kret (Some fd))))))"

definition set_ofile :: "nat \<Rightarrow> nat option \<Rightarrow> ('z kfile_scheme, unit) k" where
  "set_ofile fd fo = bindk curproc (\<lambda>p. set_proc p (\<lambda>q. q\<lparr>ofile := (ofile q)[fd := fo]\<rparr>))"

definition sys_dup :: "('z kfile_scheme, int) k" where
  "sys_dup = with_arg (argfd 0) (\<lambda>(_, f). with_arg (fdalloc f) (\<lambda>fd. (thenk (filedup f) (kret (int fd)))))"

definition sys_read :: "('z kfile_scheme, int) k" where
  "sys_read = with_arg (argfd 0) (\<lambda>(_, f). with_arg (argint 2) (\<lambda>n. with_arg (argptr 1 n) (\<lambda>p. fileread f p n)))"

definition sys_write :: "('z kfile_scheme, int) k" where
  "sys_write = with_arg (argfd 0) (\<lambda>(_, f). with_arg (argint 2) (\<lambda>n. with_arg (argptr 1 n) (\<lambda>p. filewrite f p n)))"

definition sys_close :: "('z kfile_scheme, int) k" where
  "sys_close = with_arg (argfd 0) (\<lambda>(fd, f). (thenk (set_ofile fd None) (thenk (fileclose f) (kret 0))))"

text \<open>\<open>struct stat\<close> in user memory: \<open>type\<close> and \<open>nlink\<close> are followed by two bytes of padding.\<close>

definition store_stat :: "nat \<Rightarrow> stat \<Rightarrow> ('z kfile_scheme, unit) k" where
  "store_stat a st = (thenk (stbs (n32 (a + 4)) (unle 4 (st_dev st)))
     (thenk (stbs (n32 (a + 8)) (unle 4 (st_ino st)))
     (thenk (stbs a (unle 2 (u16 (st_type st))))
     (thenk (stbs (n32 (a + 12)) (unle 2 (u16 (st_nlink st))))
     (stbs (n32 (a + 16)) (unle 4 (st_size st)))))))"

definition sys_fstat :: "('z kfile_scheme, int) k" where
  "sys_fstat = with_arg (argfd 0) (\<lambda>(_, f). with_arg (argptr 1 20) (\<lambda>a. (bindk (filestat f) (\<lambda>r.
     case r of None \<Rightarrow> kret (- 1) | Some st \<Rightarrow> (thenk (store_stat a st) (kret 0))))))"

section \<open>Links\<close>

text \<open>The label \<open>bad\<close> of \<open>sys_link\<close>.\<close>

definition link_bad :: "nat \<Rightarrow> ('z kfile_scheme, int) k" where
  "link_bad ip = (thenk (ilock (Some ip))
     (thenk (iset ip (\<lambda>i. i\<lparr>i_nlink := s16 (i_nlink i - 1)\<rparr>))
     (thenk (iupdate ip)
     (thenk (iunlockput ip)
     (thenk end_op
     (kret (- 1)))))))"

definition sys_link :: "('z kfile_scheme, int) k" where
  "sys_link = with_arg (argstr 0) (\<lambda>old. with_arg (argstr 1) (\<lambda>new. (thenk begin_op
     (bindk (namei old) (\<lambda>ipo.
     case ipo of None \<Rightarrow> (thenk end_op (kret (- 1))) | Some ip \<Rightarrow> (thenk (ilock (Some ip))
       (bindk (iget_f ip i_type) (\<lambda>t.
       if t = T_DIR then (thenk (iunlockput ip) (thenk end_op (kret (- 1))))
       else (thenk (iset ip (\<lambda>i. i\<lparr>i_nlink := s16 (i_nlink i + 1)\<rparr>))
         (thenk (iupdate ip)
         (thenk (iunlock (Some ip))
         (bindk (nameiparent new) (\<lambda>dpo.
         case dpo of None \<Rightarrow> link_bad ip | Some (dp, name) \<Rightarrow> (thenk (ilock (Some dp))
           (bindk (kget (\<lambda>s. i_dev (inode_at s dp) = i_dev (inode_at s ip))) (\<lambda>same.
           bindk (iget_f ip i_inum) (\<lambda>inum.
           bindk (if same then dirlink dp name inum else kret (- 1)) (\<lambda>r.
           if r < 0 then (thenk (iunlockput dp) (link_bad ip))
           else (thenk (iunlockput dp) (thenk (iput ip) (thenk end_op (kret 0))))))))))))))))))))))"

primrec isdirempty_loop :: "nat \<Rightarrow> nat list \<Rightarrow> ('z kfile_scheme, bool) k" where
  "isdirempty_loop dp [] = kret True"
| "isdirempty_loop dp (off # offs) = (bindk (readi dp to_local off DIRENT) (\<lambda>r.
     if fst r \<noteq> int DIRENT then kpanic ''isdirempty: readi''
     else if de_inum (get_dirent (snd r)) \<noteq> 0 then kret False else isdirempty_loop dp offs))"

definition isdirempty :: "nat \<Rightarrow> ('z kfile_scheme, bool) k" where
  "isdirempty dp = bindk (iget_f dp i_size) (\<lambda>n. isdirempty_loop dp (drop 2 (dir_offs n)))"

abbreviation dot :: "u8 list" where
  "dot \<equiv> [0x2E]"

text \<open>\<open>sys_unlink\<close> after the checks: clear the entry and drop the links.\<close>

definition unlink_entry :: "nat \<Rightarrow> nat \<Rightarrow> nat \<Rightarrow> ('z kfile_scheme, int) k" where
  "unlink_entry dp ip off = (bindk (writei dp (from_local (replicate DIRENT 0)) off DIRENT) (\<lambda>w.
     if w \<noteq> int DIRENT then kpanic ''unlink: writei''
     else (bindk (iget_f ip i_type) (\<lambda>t.
       thenk (whenk (t = T_DIR) (thenk (iset dp (\<lambda>i. i\<lparr>i_nlink := s16 (i_nlink i - 1)\<rparr>)) (iupdate dp)))
       (thenk (iunlockput dp)
       (thenk (iset ip (\<lambda>i. i\<lparr>i_nlink := s16 (i_nlink i - 1)\<rparr>))
       (thenk (iupdate ip)
       (thenk (iunlockput ip)
       (thenk end_op
       (kret 0))))))))))"

definition sys_unlink :: "('z kfile_scheme, int) k" where
  "sys_unlink = with_arg (argstr 0) (\<lambda>path. (thenk begin_op
     (bindk (nameiparent path) (\<lambda>dpo.
     case dpo of None \<Rightarrow> (thenk end_op (kret (- 1))) | Some (dp, name) \<Rightarrow> (thenk (ilock (Some dp))
       (if namecmp name dot = 0 \<or> namecmp name (dot @ dot) = 0 then (thenk (iunlockput dp) (thenk end_op (kret (- 1))))
       else (bindk (dirlookup dp name) (\<lambda>r.
         case r of None \<Rightarrow> (thenk (iunlockput dp) (thenk end_op (kret (- 1)))) | Some (ip, off) \<Rightarrow> (thenk (ilock (Some ip))
           (bindk (iget_f ip id) (\<lambda>i.
           if i_nlink i < 1 then kpanic ''unlink: nlink < 1''
           else (bindk (if i_type i = T_DIR then isdirempty ip else kret True) (\<lambda>empty.
             if \<not> empty then (thenk (iunlockput ip) (thenk (iunlockput dp) (thenk end_op (kret (- 1)))))
             else unlink_entry dp ip off)))))))))))))"

section \<open>Creating and opening\<close>

definition create :: "u8 list \<Rightarrow> int \<Rightarrow> int \<Rightarrow> int \<Rightarrow> ('z kfile_scheme, nat option) k" where
  "create path type major minor = (bindk (nameiparent path) (\<lambda>dpo.
     case dpo of None \<Rightarrow> kret None | Some (dp, name) \<Rightarrow> (thenk (ilock (Some dp))
       (bindk (dirlookup dp name) (\<lambda>r.
       case r of Some (ip, _) \<Rightarrow> (thenk (iunlockput dp)
           (thenk (ilock (Some ip))
           (bindk (iget_f ip i_type) (\<lambda>t.
           if type = T_FILE \<and> t = T_FILE then kret (Some ip)
           else (thenk (iunlockput ip) (kret None))))))
       | None \<Rightarrow> (bindk (iget_f dp i_dev) (\<lambda>dev.
           bindk (ialloc dev type) (\<lambda>ip.
           thenk (ilock (Some ip))
           (thenk (iset ip (\<lambda>i. i\<lparr>i_major := major, i_minor := minor, i_nlink := 1\<rparr>))
           (thenk (iupdate ip)
           (bindk (iget_f ip i_inum) (\<lambda>inum.
           thenk (whenk (type = T_DIR) (thenk (iset dp (\<lambda>i. i\<lparr>i_nlink := s16 (i_nlink i + 1)\<rparr>))
             (thenk (iupdate dp)
             (bindk (iget_f dp i_inum) (\<lambda>pinum.
             bindk (dirlink ip dot inum) (\<lambda>a.
             bindk (if a < 0 then kret a else dirlink ip (dot @ dot) pinum) (\<lambda>b.
             if b < 0 then kpanic ''create dots'' else kret ())))))))
           (bindk (dirlink dp name inum) (\<lambda>l.
           if l < 0 then kpanic ''create: dirlink''
           else (thenk (iunlockput dp) (kret (Some ip)))))))))))))))))"

text \<open>The second half of \<open>sys_open\<close>: a file structure and a descriptor for the locked inode.\<close>

definition open_file :: "nat \<Rightarrow> int \<Rightarrow> ('z kfile_scheme, int) k" where
  "open_file ip omode = (bindk filealloc (\<lambda>fo.
     bindk (case fo of None \<Rightarrow> kret None | Some f \<Rightarrow> fdalloc f) (\<lambda>fdo.
     case (fo, fdo) of
       (Some f, Some fd) \<Rightarrow> (thenk (iunlock (Some ip))
         (thenk end_op
         ((let m = addr_of omode in
         thenk (fset f (\<lambda>x. x\<lparr>f_type := FD_INODE, f_ip := ip, f_off := 0, f_readable := m AND O_WRONLY = 0,
           f_writable := (m AND O_WRONLY \<noteq> 0 \<or> m AND O_RDWR \<noteq> 0)\<rparr>))
         (kret (int fd))))))
     | _ \<Rightarrow> (thenk (close_opt fo) (thenk (iunlockput ip) (thenk end_op (kret (- 1))))))))"

definition sys_open :: "('z kfile_scheme, int) k" where
  "sys_open = with_arg (argstr 0) (\<lambda>path. with_arg (argint 1) (\<lambda>omode. (thenk begin_op
     (if addr_of omode AND O_CREATE \<noteq> 0 then (bindk (create path T_FILE 0 0) (\<lambda>ipo.
       case ipo of None \<Rightarrow> (thenk end_op (kret (- 1))) | Some ip \<Rightarrow> open_file ip omode))
     else (bindk (namei path) (\<lambda>ipo.
       case ipo of None \<Rightarrow> (thenk end_op (kret (- 1))) | Some ip \<Rightarrow> (thenk (ilock (Some ip))
         (bindk (iget_f ip i_type) (\<lambda>t.
         if t = T_DIR \<and> omode \<noteq> int O_RDONLY then (thenk (iunlockput ip) (thenk end_op (kret (- 1))))
         else open_file ip omode)))))))))"

definition sys_mkdir :: "('z kfile_scheme, int) k" where
  "sys_mkdir = (thenk begin_op
     (bindk (argstr 0) (\<lambda>po.
     bindk (case po of None \<Rightarrow> kret None | Some path \<Rightarrow> create path T_DIR 0 0) (\<lambda>ipo.
     case ipo of None \<Rightarrow> (thenk end_op (kret (- 1))) | Some ip \<Rightarrow> (thenk (iunlockput ip) (thenk end_op (kret 0)))))))"

definition sys_mknod :: "('z kfile_scheme, int) k" where
  "sys_mknod = (thenk begin_op
     (bindk (argstr 0) (\<lambda>po.
     bindk (case po of None \<Rightarrow> kret None | Some _ \<Rightarrow> argint 1) (\<lambda>mo.
     bindk (case mo of None \<Rightarrow> kret None | Some _ \<Rightarrow> argint 2) (\<lambda>no.
     bindk (case (po, mo, no) of (Some path, Some major, Some minor) \<Rightarrow> create path T_DEV (s16 major) (s16 minor)
             | _ \<Rightarrow> kret None) (\<lambda>ipo.
     case ipo of None \<Rightarrow> (thenk end_op (kret (- 1))) | Some ip \<Rightarrow> (thenk (iunlockput ip) (thenk end_op (kret 0)))))))))"

definition sys_chdir :: "('z kfile_scheme, int) k" where
  "sys_chdir = (bindk curproc (\<lambda>p.
     thenk begin_op
     (bindk (argstr 0) (\<lambda>po.
     bindk (case po of None \<Rightarrow> kret None | Some path \<Rightarrow> namei path) (\<lambda>ipo.
     case ipo of None \<Rightarrow> (thenk end_op (kret (- 1))) | Some ip \<Rightarrow> (thenk (ilock (Some ip))
       (bindk (iget_f ip i_type) (\<lambda>t.
       if t \<noteq> T_DIR then (thenk (iunlockput ip) (thenk end_op (kret (- 1))))
       else (thenk (iunlock (Some ip))
         (bindk (kget (\<lambda>s. cwd (proc_at s p))) (\<lambda>d.
         thenk (case d of None \<Rightarrow> kfault ''null inode'' | Some d \<Rightarrow> iput d)
         (thenk end_op
         (thenk (set_proc p (\<lambda>q. q\<lparr>cwd := Some ip\<rparr>))
         (kret 0))))))))))))))"

text \<open>The loop of \<open>sys_exec\<close> over the argument vector at \<open>uargv\<close>, with \<open>k\<close> slots of \<open>argv\<close> left.\<close>

primrec exec_argv :: "nat \<Rightarrow> nat \<Rightarrow> nat \<Rightarrow> ('z kfile_scheme, u8 list list option) k" where
  "exec_argv uargv i 0 = kret None"
| "exec_argv uargv i (Suc k) = (bindk (fetchint (n32 (uargv + 4 * i))) (\<lambda>ao.
     case ao of None \<Rightarrow> kret None
     | Some a \<Rightarrow> if a = 0 then kret (Some [])
         else (bindk (fetchstr (addr_of a)) (\<lambda>so.
           case so of None \<Rightarrow> kret None
           | Some arg \<Rightarrow> (bindk (exec_argv uargv (i + 1) k) (\<lambda>r. kret (map_option ((#) arg) r)))))))"

definition sys_exec :: "('z kfile_scheme, int) k" where
  "sys_exec = with_arg (argstr 0) (\<lambda>path. with_arg (argint 1) (\<lambda>uargv.
     with_arg (exec_argv (addr_of uargv) 0 MAXARG) (\<lambda>argv. exec path argv)))"

definition sys_pipe :: "('z kfile_scheme, int) k" where
  "sys_pipe = with_arg (argptr 0 8) (\<lambda>a. with_arg pipealloc (\<lambda>(rf, wf). (bindk (fdalloc rf) (\<lambda>fd0.
     bindk (case fd0 of None \<Rightarrow> kret None | Some _ \<Rightarrow> fdalloc wf) (\<lambda>fd1.
     case (fd0, fd1) of
       (Some d0, Some d1) \<Rightarrow> (thenk (stu32 a d0) (thenk (stu32 (n32 (a + 4)) d1) (kret 0)))
     | _ \<Rightarrow> (thenk (case fd0 of None \<Rightarrow> kret () | Some d0 \<Rightarrow> set_ofile d0 None)
         (thenk (fileclose rf)
         (thenk (fileclose wf)
         (kret (- 1))))))))))"

end
