(* ===== verification/Trap.thy ===== *)
theory Trap
  imports Sysproc Sysfile
begin

text \<open>
  The system call table (second half of syscall.c) and the trap handler trap.c. \<open>trap\<close> is entered
  through alltraps (trapasm.S) with the saved registers; the frame it leaves in the process is what
  trapret restores. A \<open>Block\<close> in the middle of a system call means that the process gave up the CPU
  there; the \<open>resume\<close> definitions say how the blocking operations go on.
\<close>

section \<open>System call dispatch\<close>

definition syscalls :: "build \<Rightarrow> (('z kfile_scheme, int) k \<times> string) option list" where
  "syscalls b = [None, Some (sys_fork b, ''fork''), Some (sys_exit, ''exit''), Some (sys_wait, ''wait''),
     Some (sys_pipe, ''pipe''), Some (sys_read, ''read''), Some (sys_kill, ''kill''), Some (sys_exec, ''exec''),
     Some (sys_fstat, ''fstat''), Some (sys_chdir, ''chdir''), Some (sys_dup, ''dup''),
     Some (sys_getpid, ''getpid''), Some (sys_sbrk, ''sbrk''), Some (sys_sleep, ''sleep''),
     Some (sys_uptime, ''uptime''), Some (sys_open, ''open''), Some (sys_write, ''write''),
     Some (sys_mknod, ''mknod''), Some (sys_unlink, ''unlink''), Some (sys_link, ''link''),
     Some (sys_mkdir, ''mkdir''), Some (sys_close, ''close''), Some (sys_trace, ''trace''), Some (sys_cs, ''cs''),
     Some (sys_set_tickets, ''set_tickets''), Some (sys_set_priority, ''set_priority''),
     Some (sys_wait2, ''wait2''), Some (sys_yield, ''sys_yield'')]"

text \<open>The name printed by the trace; \<open>syscallnames\<close> has a null pointer at 0 and ends after the last call.\<close>

definition syscallname :: "build \<Rightarrow> int \<Rightarrow> ('z kfile_scheme, nat list option) k" where
  "syscallname b num = (if num < 0 \<or> int (length (syscalls b :: (('z kfile_scheme, int) k \<times> string) option list)) \<le> num
     then kfault ''syscallnames''
     else kret (map_option (\<lambda>e. codes (snd e)) ((syscalls b :: (('z kfile_scheme, int) k \<times> string) option list) ! nat num)))"

definition set_eax :: "nat \<Rightarrow> int \<Rightarrow> ('z kfile_scheme, unit) k" where
  "set_eax p v = set_proc p (\<lambda>q. q\<lparr>tf := (tf q)\<lparr>tf_eax := of_int v\<rparr>\<rparr>)"

definition newline :: string where
  "newline = [char_of (10 :: nat)]"

definition syscall :: "build \<Rightarrow> ('z kfile_scheme, unit) k" where
  "syscall b = (bindk curproc (\<lambda>p.
     bindk (kget (\<lambda>s. sint (tf_eax (tf (proc_at s p))))) (\<lambda>num.
     thenk (if 0 < num \<and> num < int (length (syscalls b :: (('z kfile_scheme, int) k \<times> string) option list))
        \<and> (syscalls b :: (('z kfile_scheme, int) k \<times> string) option list) ! nat num \<noteq> None
      then bindk (fst (the (syscalls b ! nat num))) (set_eax p)
      else (bindk (kget (\<lambda>s. proc_at s p)) (\<lambda>q.
        thenk (cprintf (''%d %s: unknown sys call %d'' @ newline) [AInt (pid q), AStr (Some (codes (pname q))), AInt num])
        (set_eax p (- 1)))))
     (bindk (kget (\<lambda>s. proc_at s p)) (\<lambda>q.
     whenk (traceflag q \<noteq> 0) (bindk (syscallname b num) (\<lambda>name.
       cprintf (''ID: %d NOME: %s NUM_CALL: %d CALL_NAME %s'' @ newline)
         [AInt (pid q), AStr (Some (codes (pname q))), AInt num, AStr name])))))))"

section \<open>Traps\<close>

definition T_SYSCALL :: nat where [simp]: "T_SYSCALL = 64"
definition T_IRQ0 :: nat where [simp]: "T_IRQ0 = 32"
definition IRQ_TIMER :: nat where [simp]: "IRQ_TIMER = 0"
definition IRQ_KBD :: nat where [simp]: "IRQ_KBD = 1"
definition IRQ_COM1 :: nat where [simp]: "IRQ_COM1 = 4"
definition IRQ_IDE :: nat where [simp]: "IRQ_IDE = 14"
definition IRQ_SPURIOUS :: nat where [simp]: "IRQ_SPURIOUS = 31"

text \<open>The timer interrupt on CPU 0.\<close>

definition timer_tick :: "('z kbase_scheme, unit) k" where
  "timer_tick = (thenk (lock TicksLk)
     (thenk (kput (\<lambda>s. s\<lparr>ticks := ticks s + 1\<rparr>))
     (thenk countprocs
     (thenk (wakeup ChTicks)
     (unlock TicksLk)))))"

definition exit_if_killed :: "bool \<Rightarrow> ('z kfile_scheme, unit) k" where
  "exit_if_killed user = (bindk (kget cur) (\<lambda>c.
     case c of None \<Rightarrow> kret ()
     | Some p \<Rightarrow> bindk (kget (\<lambda>s. killed (proc_at s p))) (\<lambda>k. whenk (k \<and> user) exit)))"

text \<open>The \<open>switch\<close> of \<open>trap\<close>; \<open>pcs\<close> as in \<open>procdump\<close>, \<open>cpu\<close> the number of the CPU, \<open>cr2\<close> the faulting
  address. With the memory disk \<open>ideintr\<close> does nothing; \<open>lapiceoi\<close> only talks to the interrupt controller.\<close>

definition trap_switch :: "(nat \<Rightarrow> u32 list) \<Rightarrow> nat \<Rightarrow> nat \<Rightarrow> trapframe \<Rightarrow> bool \<Rightarrow> ('z kfile_scheme, unit) k" where
  "trap_switch pcs cpu cr2 f user = (let no = unat (tf_trapno f) in
     if no = T_IRQ0 + IRQ_TIMER then whenk (cpu = 0) timer_tick
     else if no = T_IRQ0 + IRQ_IDE then kret ()
     else if no = T_IRQ0 + IRQ_IDE + 1 then kret ()
     else if no = T_IRQ0 + IRQ_KBD then kbdintr pcs
     else if no = T_IRQ0 + IRQ_COM1 then uartintr pcs
     else if no = T_IRQ0 + 7 \<or> no = T_IRQ0 + IRQ_SPURIOUS then
       cprintf (''cpu%d: spurious interrupt at %x:%x'' @ newline)
         [AInt (int cpu), AInt (int (unat (tf_cs f))), AInt (sint (tf_eip f))]
     else (bindk (kget cur) (\<lambda>c.
       case c of
         None \<Rightarrow> (thenk (cprintf (''unexpected trap %d from cpu %d eip %x (cr2=0x%x)'' @ newline)
             [AInt (sint (tf_trapno f)), AInt (int cpu), AInt (sint (tf_eip f)), AInt (s32 (int cr2))])
           (kpanic ''trap''))
       | Some p \<Rightarrow> if \<not> user then (thenk (cprintf (''unexpected trap %d from cpu %d eip %x (cr2=0x%x)'' @ newline)
               [AInt (sint (tf_trapno f)), AInt (int cpu), AInt (sint (tf_eip f)), AInt (s32 (int cr2))])
             (kpanic ''trap''))
           else (bindk (kget (\<lambda>s. proc_at s p)) (\<lambda>q.
             thenk (cprintf (''pid %d %s: trap %d err %d on cpu %d eip 0x%x addr 0x%x--kill proc'' @ newline)
               [AInt (pid q), AStr (Some (codes (pname q))), AInt (sint (tf_trapno f)), AInt (sint (tf_err f)),
                AInt (int cpu), AInt (sint (tf_eip f)), AInt (s32 (int cr2))])
             (set_proc p (\<lambda>q. q\<lparr>killed := True\<rparr>)))))))"

text \<open>\<open>tf->cs & 3\<close> is \<open>DPL_USER\<close> in user mode and 0 in the kernel.\<close>

definition from_user_mode :: "trapframe \<Rightarrow> bool" where
  "from_user_mode f \<longleftrightarrow> unat (tf_cs f) mod 4 = DPL_USER"

definition trap :: "build \<Rightarrow> (nat \<Rightarrow> u32 list) \<Rightarrow> nat \<Rightarrow> nat \<Rightarrow> trapframe \<Rightarrow> ('z kfile_scheme, unit) k" where
  "trap b pcs cpu cr2 f =
     (if unat (tf_trapno f) = T_SYSCALL then (bindk curproc (\<lambda>p.
        bindk (kget (\<lambda>s. killed (proc_at s p))) (\<lambda>k.
        thenk (whenk k exit)
        (thenk (set_proc p (\<lambda>q. q\<lparr>tf := f\<rparr>))
        (thenk (syscall b)
        (bindk (kget (\<lambda>s. killed (proc_at s p))) (\<lambda>k.
        whenk k exit)))))))
      else (thenk (trap_switch pcs cpu cr2 f (unat (tf_cs f) mod 4 \<noteq> 0))
        (thenk (exit_if_killed (from_user_mode f))
        (bindk (kget cur) (\<lambda>c.
        thenk (case c of None \<Rightarrow> kret ()
         | Some p \<Rightarrow> bindk (kget (\<lambda>s. state (proc_at s p))) (\<lambda>st.
             whenk (st = RUNNING \<and> unat (tf_trapno f) = T_IRQ0 + IRQ_TIMER) yield))
        (exit_if_killed (from_user_mode f)))))))"

text \<open>After a yield inside \<open>trap\<close> the process goes on with the last check.\<close>

definition trap_resume :: "trapframe \<Rightarrow> ('z kfile_scheme, unit) k" where
  "trap_resume f = thenk yield_resume (exit_if_killed (from_user_mode f))"

section \<open>The timer\<close>

definition ticked :: "'z kbase_scheme \<Rightarrow> 'z kbase_scheme" where
  "ticked s = s\<lparr>procs := map (wakeup_proc (Some ChTicks) \<circ> count_tick) (procs s), ticks := ticks s + 1\<rparr>"

lemma ticks_procs: "s\<lparr>ticks := t, procs := ps\<rparr> = s\<lparr>procs := ps, ticks := t\<rparr>" for s :: "'z kbase_scheme"
  by (cases s) simp

lemma ticks_held: "s\<lparr>ticks := t, held := h\<rparr> = s\<lparr>held := h, ticks := t\<rparr>" for s :: "'z kbase_scheme"
  by (cases s) simp

lemma timer_tick_run:
  assumes "held s = []"
  shows "timer_tick s = Ok () (ticked s)"
  using assms by (simp add: timer_tick_def countprocs_run ticked_def ticks_procs ticks_held)

lemma trap_timer_run:
  assumes s: "held s = []" "cur s = Some p" "p < length (procs s)" "state (proc_at s p) = RUNNING"
    "\<not> killed (proc_at s p)" "s32 (timeslice (proc_at s p) - 1) \<noteq> 0" and f: "unat (tf_trapno f) = T_IRQ0 + IRQ_TIMER"
  shows "trap b pcs 0 cr2 f s = Ok () (sliced p 1 (ticked s))"
proof -
  let ?t = "ticked s"
  have q: "proc_at ?t p = (proc_at s p)\<lparr>rutime := s32 (rutime (proc_at s p) + 1)\<rparr>"
    using s(3,4) by (simp add: ticked_def count_tick_def wakeup_proc_def)
  have t: "held ?t = []" "cur ?t = Some p" "p < length (procs ?t)" using s(1-3) by (simp_all add: ticked_def)
  have y: "yield ?t = Ok () (sliced p 1 ?t)"
    using yield_run [of ?t p] t q s(6) by simp
  have k: "exit_if_killed u r = Ok () r" if "cur r = Some p" "\<not> killed (proc_at r p)" for u and r :: "'a kfile_scheme"
    using that by (simp add: exit_if_killed_def)
  have "killed (proc_at (sliced p 1 ?t) p) = killed (proc_at ?t p)" using t(3) by (simp add: sliced_def)
  then have "\<not> killed (proc_at (sliced p 1 ?t) p)" "\<not> killed (proc_at ?t p)" using q s(5) by simp_all
  then show ?thesis
    using f timer_tick_run [OF s(1)] t(2) q s(4) y k [of ?t] k [of "sliced p 1 ?t"]
    by (simp add: trap_def trap_switch_def)
qed

end
