(* ===== verification/Lock_Balance.thy ===== *)
theory Lock_Balance
  imports Trap
begin

text \<open>
  Lock discipline of the whole kernel. \<open>bal L f N\<close> says of a call \<open>f\<close> entered with the locks \<open>L\<close> that it
  returns with the locks \<open>N\<close>, and that it gives up the CPU only with \<open>ptable.lock\<close> and nothing else held.
  The rules in \<open>bal_intro\<close> follow the structure of a call, so that the proof of an operation is its
  definition read once; they cover every operation from the spinlocks up to \<open>trap\<close>.
\<close>

named_theorems bal_intro \<open>lock balance of kernel calls\<close>

definition bal :: "lockid list \<Rightarrow> ('z kbase_scheme, 'a) k \<Rightarrow> lockid list \<Rightarrow> bool" where
  "bal L f N \<longleftrightarrow> (\<forall>s. held s = L \<longrightarrow> (case f s of Ok x t \<Rightarrow> held t = N | Block t \<Rightarrow> held t = [PtableLk] | _ \<Rightarrow> True))"

lemma balI:
  assumes "\<And>s x t. held s = L \<Longrightarrow> f s = Ok x t \<Longrightarrow> held t = N"
    and "\<And>s t. held s = L \<Longrightarrow> f s = Block t \<Longrightarrow> held t = [PtableLk]"
  shows "bal L f N"
proof -
  have "case f s of Ok x t \<Rightarrow> held t = N | Block t \<Rightarrow> held t = [PtableLk] | _ \<Rightarrow> True" if "held s = L" for s
    using assms(1) [OF that] assms(2) [OF that] by (cases "f s") simp_all
  then show ?thesis by (simp add: bal_def)
qed

lemma bal_run:
  "bal L f N \<Longrightarrow> held s = L \<Longrightarrow> (case f s of Ok x t \<Rightarrow> held t = N | Block t \<Rightarrow> held t = [PtableLk] | _ \<Rightarrow> True)"
  by (simp add: bal_def)

lemma balD: "bal L f N \<Longrightarrow> held s = L \<Longrightarrow> f s = Ok x t \<Longrightarrow> held t = N"
  "bal L f N \<Longrightarrow> held s = L \<Longrightarrow> f s = Block t \<Longrightarrow> held t = [PtableLk]"
  using bal_run [of L f N s] by simp_all

section \<open>Sequencing\<close>

lemma bal_bind [bal_intro]:
  assumes "bal L f M" "\<And>x. bal M (g x) N"
  shows "bal L (bindk f g) N"
proof (rule balI)
  fix s y t assume "held s = L" "bindk f g s = Ok y t"
  then obtain x u where "held s = L" "f s = Ok x u" "g x u = Ok y t" unfolding bindk_eq_Ok by blast
  then show "held t = N" using balD(1) [OF assms(1)] balD(1) [OF assms(2)] by blast
next
  fix s t assume h: "held s = L" and b: "bindk f g s = Block t"
  show "held t = [PtableLk]"
  proof (cases "f s")
    case (Ok x u)
    then show ?thesis using b h balD(1) [OF assms(1) h Ok] balD(2) [OF assms(2)] by simp
  qed (use b h balD(2) [OF assms(1) h] in simp_all)
qed

lemma bal_then [bal_intro]: "bal L f M \<Longrightarrow> bal M g N \<Longrightarrow> bal L (thenk f g) N"
  unfolding thenk_def by (rule bal_bind)

lemma bal_simple [bal_intro]:
  "bal L (kret x) L" "bal L (kpanic m) N" "bal L (kfault m) N" "bal L (\<lambda>_. Hang) N" "bal L (kget h) L"
  by (simp_all add: bal_def)

lemma bal_put: "(\<And>s. held (h s) = held s) \<Longrightarrow> bal L (kput h) L"
  by (simp add: bal_def)

lemma bal_when [bal_intro]: "bal L f L \<Longrightarrow> bal L (whenk b f) L"
  by (simp add: whenk_def bal_simple)

lemma bal_cases [bal_intro]:
  "(b \<Longrightarrow> bal L f N) \<Longrightarrow> (\<not> b \<Longrightarrow> bal L g N) \<Longrightarrow> bal L (if b then f else g) N"
  "(x = None \<Longrightarrow> bal L f N) \<Longrightarrow> (\<And>y. x = Some y \<Longrightarrow> bal L (h y) N) \<Longrightarrow> bal L (case x of None \<Rightarrow> f | Some y \<Rightarrow> h y) N"
  "(\<And>a b. z = (a, b) \<Longrightarrow> bal L (p a b) N) \<Longrightarrow> bal L (case z of (a, b) \<Rightarrow> p a b) N"
  "(\<And>y. y = e \<Longrightarrow> bal L (h y) N) \<Longrightarrow> bal L (let y = e in h y) N"
  by (simp_all split: option.split prod.split)

lemma bal_list: "(x = [] \<Longrightarrow> bal L f N) \<Longrightarrow> (\<And>y ys. x = y # ys \<Longrightarrow> bal L (h y ys) N) \<Longrightarrow> bal L (case x of [] \<Rightarrow> f | y # ys \<Rightarrow> h y ys) N"
  by (simp split: list.split)

lemma bal_parg: "(\<And>n. x = AInt n \<Longrightarrow> bal L (f n) N) \<Longrightarrow> (\<And>y. x = AStr y \<Longrightarrow> bal L (g y) N) \<Longrightarrow> bal L (case x of AInt n \<Rightarrow> f n | AStr y \<Rightarrow> g y) N"
  by (simp split: parg.split)

lemma bal_each [bal_intro]: "(\<And>x. bal L (f x) L) \<Longrightarrow> bal L (eachk f xs) L"
  by (induction xs) (simp_all add: bal_simple bal_then [where M = L])

lemma bal_lock [bal_intro]: "bal L (lock l) (l # L)" "bal (l # L) (unlock l) L"
  by (auto simp: bal_def)

section \<open>Processes and memory\<close>

lemma bal_curproc [bal_intro]: "bal L curproc L"
  by (rule balI) (auto split: option.splits)

lemma bal_set_proc [bal_intro]: "bal L (set_proc i f) L"
  by (simp add: bal_def)

lemma bal_sched [bal_intro]: "bal L sched N"
  by (rule balI) (auto dest: sched_block)

lemma bal_curr_time [bal_intro]: "bal L curr_time L"
  unfolding curr_time_def by (rule bal_intro)+

lemma bal_countprocs [bal_intro]: "bal L countprocs L"
  unfolding countprocs_def by (rule bal_intro bal_put | simp)+

lemma bal_set_priority [bal_intro]: "bal L (set_priority n v) L"
  unfolding set_priority_def by (rule bal_intro)+

lemma bal_yield [bal_intro]: "bal L yield L"
  unfolding yield_def by (rule bal_intro)+

lemma bal_then_any:
  assumes "\<And>s t. f s \<noteq> Block t" "\<And>M. bal M g N"
  shows "bal L (thenk f g) N"
proof (rule balI)
  fix s y t assume "thenk f g s = Ok y t"
  then obtain u where "g u = Ok y t" unfolding thenk_eq_Ok by blast
  then show "held t = N" using balD(1) [OF assms(2) refl] by blast
next
  fix s t assume b: "thenk f g s = Block t"
  show "held t = [PtableLk]"
  proof (cases "f s")
    case (Ok x u)
    then show ?thesis using b balD(2) [OF assms(2) refl] by simp
  qed (use b assms(1) in simp_all)
qed

lemma bal_sleep [bal_intro]: "bal L (sleep c lk) N"
proof -
  have s: "bal M (thenk (set_proc p f) (thenk (set_proc p g) sched)) N" for M p f g
    by (rule bal_intro)+
  have "whenk b (thenk (lock PtableLk) (unlock x)) s \<noteq> Block t" for b x s t
    by (cases b) (auto simp: thenk_def bindk_def)
  then have "bal L (thenk (whenk b (thenk (lock PtableLk) (unlock x))) (thenk (set_proc p f) (thenk (set_proc p g) sched))) N"
    for b x p f g by (rule bal_then_any) (rule s)
  note c = this
  show ?thesis unfolding sleep_def by (rule c bal_intro)+
qed

lemma bal_wakeup [bal_intro]: "bal L (wakeup c) L" "bal L (wakeup1 d) L"
  unfolding wakeup_def wakeup1_def by (rule bal_intro bal_put | simp)+

lemma bal_kill [bal_intro]: "bal L (kill n) L"
  unfolding kill_def by (rule bal_intro)+

lemma bal_block [bal_intro]: "bal [PtableLk] kblock N"
  by (simp add: bal_def)

text \<open>The page allocator takes its lock only when \<open>use_lock\<close> is set.\<close>

lemma bal_kfree [bal_intro]: "bal L (kfree v) L"
proof -
  have "bal L (thenk (whenk ul (lock KmemLk)) (thenk (kput (\<lambda>s. s\<lparr>memory := st32 v (freelist s) (memory s)\<rparr>))
    (thenk (kput (\<lambda>s. s\<lparr>freelist := v\<rparr>)) (whenk ul (unlock KmemLk))))) L" for ul
    by (cases ul; simp; (rule bal_intro | rule bal_put, simp)+)
  note c = this
  show ?thesis unfolding kfree_def by (rule c bal_intro | rule bal_put, simp)+
qed

lemma bal_kalloc [bal_intro]: "bal L kalloc L"
proof -
  have "bal L (thenk (whenk ul (lock KmemLk)) (bindk (kget freelist) (\<lambda>r.
    thenk (whenk (r \<noteq> 0) (kput (\<lambda>s. s\<lparr>freelist := ld32 (memory s) r\<rparr>)))
     (thenk (whenk ul (unlock KmemLk)) (kret r))))) L" for ul
    by (cases ul; simp; (rule bal_intro | rule bal_put, simp)+)
  note c = this
  show ?thesis unfolding kalloc_def by (rule c bal_intro)+
qed

lemma bal_words [bal_intro]: "bal L (ldw a) L" "bal L (stw a v) L" "bal L (zero_page a) L" "bal L (switchuvm po) L"
  unfolding ldw_def stw_def zero_page_def switchuvm_def by (rule bal_intro | rule bal_put, simp)+

lemma bal_walkpgdir [bal_intro]: "bal L (walkpgdir pd va al) L"
  unfolding walkpgdir_def by (rule bal_intro | rule bal_put, simp)+

lemma bal_mappages_loop [bal_intro]: "bal L (mappages_loop k pd a l pa perm) L"
proof (induction k arbitrary: a pa)
  case 0 show ?case unfolding mappages_loop.simps by (rule bal_intro)+
next
  case (Suc k) show ?case unfolding mappages_loop.simps by (rule Suc.IH bal_intro | rule bal_put, simp)+
qed

lemma bal_mappages [bal_intro]: "bal L (mappages pd va n pa perm) L"
  unfolding mappages_def by (rule bal_intro | rule bal_put, simp)+

lemma bal_deallocuvm_loop [bal_intro]: "bal L (deallocuvm_loop pd a oldsz) L"
proof (induction pd a oldsz rule: deallocuvm_loop.induct)
  case (1 pd a oldsz)
  show ?case by (subst deallocuvm_loop.simps) (rule bal_intro 1 | assumption | rule sym, assumption | rule bal_put, simp)+
qed

lemma bal_unmap [bal_intro]:
  "bal L (deallocuvm pd oldsz newsz) L" "bal L (freevm pd) L"
  unfolding deallocuvm_def freevm_def
  by (rule bal_intro | rule bal_put, simp)+

lemma bal_setupkvm_loop [bal_intro]: "bal L (setupkvm_loop pd ms) L"
proof (induction ms)
  case Nil show ?case unfolding setupkvm_loop.simps by (rule bal_intro)+
next
  case (Cons x ms) show ?case unfolding setupkvm_loop.simps by (rule Cons.IH bal_intro | rule bal_put, simp)+
qed

lemma bal_setupkvm [bal_intro]:
  "bal L setupkvm L" "bal L (inituvm pd init) L"
  unfolding setupkvm_def inituvm_def
  by (rule bal_intro | rule bal_put, simp)+

lemma bal_allocuvm_loop [bal_intro]: "bal L (allocuvm_loop pd a oldsz newsz) L"
proof (induction pd a oldsz newsz rule: allocuvm_loop.induct)
  case (1 pd a oldsz newsz)
  show ?case by (subst allocuvm_loop.simps) (rule bal_intro 1 | assumption | rule sym, assumption | rule bal_put, simp)+
qed

lemma bal_copyuvm_loop [bal_intro]: "bal L (copyuvm_loop pd d i n) L"
proof (induction pd d i n rule: copyuvm_loop.induct)
  case (1 pd d i n)
  show ?case by (subst copyuvm_loop.simps) (rule bal_intro 1 | assumption | rule sym, assumption | rule bal_put, simp)+
qed

lemma bal_user_memory [bal_intro]:
  "bal L (allocuvm pd oldsz newsz) L" "bal L (clearpteu pd uva) L" "bal L (copyuvm pd n) L" "bal L (uva2ka pd uva) L"
  unfolding allocuvm_def clearpteu_def copyuvm_def uva2ka_def
  by (rule bal_intro | rule bal_put, simp)+

lemma bal_copyout [bal_intro]: "bal L (copyout pd va buf) L"
proof (induction pd va buf rule: copyout.induct)
  case (1 pd va buf)
  show ?case by (subst copyout.simps) (rule bal_intro 1 | assumption | rule sym, assumption | rule bal_put, simp)+
qed

lemma bal_bytes [bal_intro]:
  "bal L (ldb va) L" "bal L (stb va b) L"
  unfolding ldb_def stb_def
  by (rule bal_intro | rule bal_put, simp)+

lemma bal_ldbs [bal_intro]: "bal L (ldbs va n) L"
proof (induction n arbitrary: va)
  case 0 show ?case unfolding ldbs.simps by (rule bal_intro)+
next
  case (Suc n) show ?case unfolding ldbs.simps by (rule Suc.IH bal_intro | rule bal_put, simp)+
qed

lemma bal_stbs [bal_intro]: "bal L (stbs va bs) L"
proof (induction bs arbitrary: va)
  case Nil show ?case unfolding stbs.simps by (rule bal_intro)+
next
  case (Cons x bs) show ?case unfolding stbs.simps by (rule Cons.IH bal_intro | rule bal_put, simp)+
qed

lemma bal_user_words [bal_intro]:
  "bal L (ldu32 va) L" "bal L (stu32 va v) L" "bal L (to_user dst off bs) L" "bal L (from_user src off n) L"
  unfolding ldu32_def stu32_def to_user_def from_user_def
  by (rule bal_intro | rule bal_put, simp)+

section \<open>Buffers and the log\<close>

lemma bal_slock [bal_intro]:
  "bal L (set_slock l f) L" "bal L (initsleeplock l) L"
  unfolding set_slock_def initsleeplock_def
  by (rule bal_intro | rule bal_put, simp)+

lemma bal_acquiresleep_loop [bal_intro]: "bal (SleepLk l # L) (acquiresleep_loop l) L"
  unfolding acquiresleep_loop_def by (rule bal_intro)+

lemma bal_sleeplocks [bal_intro]:
  "bal L (acquiresleep l) L" "bal L (releasesleep l) L" "bal L (holdingsleep l) L"
  unfolding acquiresleep_def releasesleep_def holdingsleep_def
  by (rule bal_intro | rule bal_put, simp)+

lemma bal_buf_fields [bal_intro]:
  "bal L (set_buf b f) L" "bal L (set_next b g) L" "bal L (set_prev h g) L" "bal L (bdata_put b e) L" "bal L (bdata_get b) L"
  unfolding set_buf_def set_next_def set_prev_def bdata_put_def bdata_get_def
  by (rule bal_intro | rule bal_put, simp)+

lemma bal_link_front [bal_intro]: "bal L (link_front b) L"
  unfolding link_front_def by (rule bal_intro | rule bal_put, simp)+

lemma bal_iderw [bal_intro]: "bal L (iderw b) L"
  unfolding iderw_def by (rule bal_intro | rule bal_put, simp)+

lemma bal_bget [bal_intro]: "bal L (bget dev n) L"
  unfolding bget_def by (rule bal_intro | rule bal_put, simp)+

lemma bal_bread [bal_intro]: "bal L (bread dev n) L"
  unfolding bread_def by (rule bal_intro | rule bal_put, simp)+

lemma bal_bwrite [bal_intro]: "bal L (bwrite b) L"
  unfolding bwrite_def by (rule bal_intro | rule bal_put, simp)+

lemma bal_brelse [bal_intro]: "bal L (brelse b) L"
  unfolding brelse_def by (rule bal_intro | rule bal_put, simp)+

lemma bal_readsb [bal_intro]: "bal L (readsb dev) L"
  unfolding readsb_def by (rule bal_intro | rule bal_put, simp)+

lemma bal_install_block [bal_intro]: "bal L (install_block j) L"
  unfolding install_block_def by (rule bal_intro | rule bal_put, simp)+

lemma bal_install_trans [bal_intro]: "bal L install_trans L"
  unfolding install_trans_def by (rule bal_intro | rule bal_put, simp)+

lemma bal_read_block [bal_intro]: "bal L (read_block d i) L"
  unfolding read_block_def by (rule bal_intro | rule bal_put, simp)+

lemma bal_read_head [bal_intro]: "bal L read_head L"
  unfolding read_head_def by (rule bal_intro | rule bal_put, simp)+

lemma bal_write_head [bal_intro]: "bal L write_head L"
  unfolding write_head_def by (rule bal_intro | rule bal_put, simp)+

lemma bal_recover_from_log [bal_intro]: "bal L recover_from_log L"
  unfolding recover_from_log_def by (rule bal_intro | rule bal_put, simp)+

lemma bal_initlog [bal_intro]: "bal L (initlog dev) L"
  unfolding initlog_def by (rule bal_intro | rule bal_put, simp)+

lemma bal_begin_op_loop [bal_intro]: "bal (LogLk # L) begin_op_loop L"
  unfolding begin_op_loop_def by (rule bal_intro | rule bal_put, simp)+

lemma bal_begin_op [bal_intro]: "bal L begin_op L"
  unfolding begin_op_def by (rule bal_intro | rule bal_put, simp)+

lemma bal_log_block [bal_intro]: "bal L (log_block j) L"
  unfolding log_block_def by (rule bal_intro | rule bal_put, simp)+

lemma bal_write_log [bal_intro]: "bal L write_log L"
  unfolding write_log_def by (rule bal_intro | rule bal_put, simp)+

lemma bal_commit [bal_intro]: "bal L commit L"
  unfolding commit_def by (rule bal_intro | rule bal_put, simp)+

lemma bal_end_op [bal_intro]: "bal L end_op L"
  unfolding end_op_def by (rule bal_intro | rule bal_put, simp)+

lemma bal_log_write [bal_intro]: "bal L (log_write b) L"
  unfolding log_write_def by (rule bal_intro | rule bal_put, simp)+

section \<open>Files\<close>

lemma bal_inode_fields [bal_intro]:
  "bal L (iget_f ip f) L" "bal L (iset ip g) L"
  unfolding iget_f_def iset_def
  by (rule bal_intro | rule bal_put, simp)+

lemma bal_bzero [bal_intro]: "bal L (bzero dev bno) L"
  unfolding bzero_def by (rule bal_intro | rule bal_put, simp)+

lemma bal_balloc_loop [bal_intro]: "bal L (balloc_loop dev bs) L"
proof (induction bs)
  case Nil show ?case unfolding balloc_loop.simps by (rule bal_intro)+
next
  case (Cons x bs) show ?case unfolding balloc_loop.simps by (rule Cons.IH bal_intro | rule bal_put, simp)+
qed

lemma bal_balloc [bal_intro]: "bal L (balloc dev) L"
  unfolding balloc_def by (rule bal_intro | rule bal_put, simp)+

lemma bal_bfree [bal_intro]: "bal L (bfree dev b) L"
  unfolding bfree_def by (rule bal_intro | rule bal_put, simp)+

lemma bal_iinit [bal_intro]: "bal L (iinit dev) L"
  unfolding iinit_def by (rule bal_intro | rule bal_put, simp)+

lemma bal_iget [bal_intro]: "bal L (iget dev inum) L"
  unfolding iget_def by (rule bal_intro | rule bal_put, simp)+

lemma bal_ialloc_loop [bal_intro]: "bal L (ialloc_loop dev type ns) L"
proof (induction ns)
  case Nil show ?case unfolding ialloc_loop.simps by (rule bal_intro)+
next
  case (Cons x ns) show ?case unfolding ialloc_loop.simps by (rule Cons.IH bal_intro | rule bal_put, simp)+
qed

lemma bal_ialloc [bal_intro]: "bal L (ialloc dev type) L"
  unfolding ialloc_def by (rule bal_intro | rule bal_put, simp)+

lemma bal_iupdate [bal_intro]: "bal L (iupdate ip) L"
  unfolding iupdate_def by (rule bal_intro | rule bal_put, simp)+

lemma bal_idup [bal_intro]: "bal L (idup ip) L"
  unfolding idup_def by (rule bal_intro | rule bal_put, simp)+

lemma bal_ilock [bal_intro]: "bal L (ilock ipo) L"
  unfolding ilock_def by (rule bal_intro | rule bal_put, simp)+

lemma bal_iunlock [bal_intro]: "bal L (iunlock ipo) L"
  unfolding iunlock_def by (rule bal_intro | rule bal_put, simp)+

lemma bal_bmap [bal_intro]: "bal L (bmap ip bn) L"
  unfolding bmap_def by (rule bal_intro | rule bal_put, simp)+

lemma bal_itrunc_direct [bal_intro]: "bal L (itrunc_direct ip j) L"
  unfolding itrunc_direct_def by (rule bal_intro | rule bal_put, simp)+

lemma bal_itrunc [bal_intro]: "bal L (itrunc ip) L"
  unfolding itrunc_def by (rule bal_intro | rule bal_put, simp)+

lemma bal_iput [bal_intro]: "bal L (iput ip) L"
  unfolding iput_def by (rule bal_intro | rule bal_put, simp)+

lemma bal_iunlockput [bal_intro]: "bal L (iunlockput ip) L"
  unfolding iunlockput_def by (rule bal_intro | rule bal_put, simp)+

lemma bal_stati [bal_intro]: "bal L (stati ip) L"
  unfolding stati_def by (rule bal_intro | rule bal_put, simp)+

lemma bal_uartputc [bal_intro]: "bal L (uartputc c) L"
  unfolding uartputc_def by (rule bal_intro | rule bal_put, simp)+

lemma bal_uartinit [bal_intro]: "bal L (uartinit b) L"
  unfolding uartinit_def by (rule bal_intro | rule bal_put, simp)+

lemma bal_cgaputc [bal_intro]: "bal L (cgaputc c) L"
  unfolding cgaputc_def by (rule bal_intro | rule bal_put, simp)+

lemma bal_consputc [bal_intro]: "bal L (consputc c) L"
  unfolding consputc_def by (rule bal_intro | rule bal_put, simp)+

lemma bal_printint [bal_intro]: "bal L (printint xx base sign) L"
  unfolding printint_def by (rule bal_intro | rule bal_put, simp)+

lemma bal_cprintf_loop [bal_intro]: "bal L (cprintf_loop fmt args) L"
proof (induction fmt args rule: cprintf_loop.induct)
  case (1 args) show ?case unfolding cprintf_loop.simps by (rule bal_intro)
next
  case (2 c cs args)
  show ?case unfolding cprintf_loop.simps
    by (rule bal_intro 2 bal_list bal_parg | assumption)+
qed

lemma bal_cprintf [bal_intro]: "bal L (cprintf fmt args) L"
proof -
  have "bal L (thenk (whenk b (lock ConsLk)) (thenk (cprintf_loop fmt args) (whenk b (unlock ConsLk)))) L" for b
    by (cases b; simp; (rule bal_intro)+)
  note c = this
  show ?thesis unfolding cprintf_def by (rule c bal_intro)+
qed

lemma bal_procdump_proc [bal_intro]: "bal L (procdump_proc pcs i) L"
  unfolding procdump_proc_def by (rule bal_intro | rule bal_put, simp)+

lemma bal_procdump [bal_intro]: "bal L (procdump pcs) L"
  unfolding procdump_def by (rule bal_intro | rule bal_put, simp)+

lemma bal_kill_line [bal_intro]: "bal L (kill_line n) L"
proof (induction n)
  case 0 show ?case unfolding kill_line.simps by (rule bal_intro)+
next
  case (Suc n) show ?case unfolding kill_line.simps by (rule Suc.IH bal_intro | rule bal_put, simp)+
qed

lemma bal_console_char [bal_intro]: "bal L (console_char c) L"
  unfolding console_char_def by (rule bal_intro | rule bal_put, simp)+

lemma bal_consoleintr [bal_intro]: "bal L (consoleintr pcs cs) L"
  unfolding consoleintr_def by (rule bal_intro | rule bal_put, simp)+

lemma bal_kbdintr [bal_intro]: "bal L (kbdintr pcs) L"
  unfolding kbdintr_def by (rule bal_intro | rule bal_put, simp)+

lemma bal_uartintr [bal_intro]: "bal L (uartintr pcs) L"
  unfolding uartintr_def by (rule bal_intro | rule bal_put, simp)+

lemma bal_console_done [bal_intro]: "bal (ConsLk # L) (console_done ip r) L"
  unfolding console_done_def by (rule bal_intro)+

lemma bal_consoleread_loop [bal_intro]:
  assumes d: "\<And>M x y. bal M (dst x y) M"
  shows "bal (ConsLk # L) (consoleread_loop ip dst target n) L"
proof (induction n)
  case 0 show ?case unfolding consoleread_loop.simps by (rule bal_intro)+
next
  case (Suc n) show ?case unfolding consoleread_loop.simps by (rule Suc.IH d bal_intro | rule bal_put, simp)+
qed

lemma bal_consoleread [bal_intro]: "(\<And>M x y. bal M (dst x y) M) \<Longrightarrow> bal L (consoleread ip dst n) L"
  unfolding consoleread_def by (rule bal_intro | assumption | rule bal_put, simp)+

lemma bal_consolewrite [bal_intro]: "(\<And>M x y. bal M (src x y) M) \<Longrightarrow> bal L (consolewrite ip src n) L"
  unfolding consolewrite_def by (rule bal_intro | assumption | rule bal_put, simp)+

lemma bal_readi_loop [bal_intro]:
  assumes d: "\<And>M x y. bal M (dst x y) M"
  shows "bal L (readi_loop ip dst tot off n) L"
  using d
proof (induction ip dst tot off n rule: readi_loop.induct)
  case (1 ip dst tot off n)
  show ?case by (subst readi_loop.simps) (rule "1.prems" "1.IH" bal_intro | assumption)+
qed

lemma bal_writei_loop [bal_intro]:
  assumes d: "\<And>M x y. bal M (src x y) M"
  shows "bal L (writei_loop ip src tot off n) L"
  using d
proof (induction ip src tot off n rule: writei_loop.induct)
  case (1 ip src tot off n)
  show ?case by (subst writei_loop.simps) (rule "1.prems" "1.IH" bal_intro | assumption)+
qed

lemma bal_readi [bal_intro]: "(\<And>M x y. bal M (dst x y) M) \<Longrightarrow> bal L (readi ip dst off n) L"
  unfolding readi_def by (rule bal_intro | assumption | rule bal_put, simp)+

lemma bal_writei [bal_intro]: "(\<And>M x y. bal M (src x y) M) \<Longrightarrow> bal L (writei ip src off n) L"
  unfolding writei_def by (rule bal_intro | assumption | rule bal_put, simp)+

lemma bal_local [bal_intro]:
  "bal L (to_local off bs) L" "bal L (from_local bs off n) L"
  unfolding to_local_def from_local_def
  by (rule bal_intro | rule bal_put, simp)+

lemma bal_dirlookup_loop [bal_intro]: "bal L (dirlookup_loop dp name offs) L"
proof (induction offs)
  case Nil show ?case unfolding dirlookup_loop.simps by (rule bal_intro)+
next
  case (Cons x offs) show ?case unfolding dirlookup_loop.simps by (rule Cons.IH bal_intro | rule bal_put, simp)+
qed

lemma bal_dirlookup [bal_intro]: "bal L (dirlookup dp name) L"
  unfolding dirlookup_def by (rule bal_intro | rule bal_put, simp)+

lemma bal_dirlink_loop [bal_intro]: "bal L (dirlink_loop dp offs e) L"
proof (induction offs)
  case Nil show ?case unfolding dirlink_loop.simps by (rule bal_intro)+
next
  case (Cons x offs) show ?case unfolding dirlink_loop.simps by (rule Cons.IH bal_intro | rule bal_put, simp)+
qed

lemma bal_dirlink [bal_intro]: "bal L (dirlink dp name inum) L"
  unfolding dirlink_def by (rule bal_intro | rule bal_put, simp)+

lemma bal_namex_loop [bal_intro]: "bal L (namex_loop path par ip) L"
proof (induction path par ip rule: namex_loop.induct)
  case (1 path par ip)
  show ?case by (subst namex_loop.simps) (rule bal_intro 1 | assumption | rule sym, assumption | rule bal_put, simp)+
qed

lemma bal_namex [bal_intro]: "bal L (namex path par) L"
  unfolding namex_def by (rule bal_intro | rule bal_put, simp)+

lemma bal_namei [bal_intro]: "bal L (namei path) L"
  unfolding namei_def by (rule bal_intro | rule bal_put, simp)+

lemma bal_nameiparent [bal_intro]: "bal L (nameiparent path) L"
  unfolding nameiparent_def by (rule bal_intro | rule bal_put, simp)+

lemma bal_tables [bal_intro]:
  "bal L (fget f g) L" "bal L (fset f h) L" "bal L (pget p i) L" "bal L (pset p j) L"
  unfolding fget_def fset_def pget_def pset_def
  by (rule bal_intro | rule bal_put, simp)+

lemma bal_pipeclose [bal_intro]: "bal L (pipeclose p w) L"
  unfolding pipeclose_def by (rule bal_intro | rule bal_put, simp)+

lemma bal_pipewrite_loop [bal_intro]:
  assumes d: "\<And>M x y. bal M (src x y) M"
  shows "bal (PipeLk p # L) (pipewrite_loop p src n k) L"
proof (induction k)
  case 0 show ?case unfolding pipewrite_loop.simps by (rule bal_intro)+
next
  case (Suc k) show ?case unfolding pipewrite_loop.simps by (rule Suc.IH d bal_intro)+
qed

lemma bal_piperead_copy [bal_intro]:
  assumes d: "\<And>M x y. bal M (dst x y) M"
  shows "bal L (piperead_copy p dst n k) L"
proof (induction k)
  case 0 show ?case unfolding piperead_copy.simps by (rule bal_intro)+
next
  case (Suc k) show ?case unfolding piperead_copy.simps by (rule Suc.IH d bal_intro)+
qed

lemma bal_piperead_loop [bal_intro]:
  "(\<And>M x y. bal M (dst x y) M) \<Longrightarrow> bal (PipeLk p # L) (piperead_loop p dst n) L"
  unfolding piperead_loop_def by (rule bal_intro | assumption)+

lemma bal_pipewrite [bal_intro]: "(\<And>M x y. bal M (src x y) M) \<Longrightarrow> bal L (pipewrite p src n) L"
  unfolding pipewrite_def by (rule bal_intro | assumption | rule bal_put, simp)+

lemma bal_piperead [bal_intro]: "(\<And>M x y. bal M (dst x y) M) \<Longrightarrow> bal L (piperead p dst n) L"
  unfolding piperead_def by (rule bal_intro | assumption | rule bal_put, simp)+

lemma bal_filealloc [bal_intro]: "bal L filealloc L"
  unfolding filealloc_def by (rule bal_intro | rule bal_put, simp)+

lemma bal_filedup [bal_intro]: "bal L (filedup f) L"
  unfolding filedup_def by (rule bal_intro | rule bal_put, simp)+

lemma bal_fileclose [bal_intro]: "bal L (fileclose f) L"
  unfolding fileclose_def by (rule bal_intro | rule bal_put, simp)+

lemma bal_filestat [bal_intro]: "bal L (filestat f) L"
  unfolding filestat_def by (rule bal_intro | rule bal_put, simp)+

lemma bal_fileread [bal_intro]: "bal L (fileread f addr n) L"
  unfolding fileread_def by (rule bal_intro | rule bal_put, simp)+

lemma bal_filewrite_chunk [bal_intro]: "bal L (filewrite_chunk f ip addr i n1) L"
  unfolding filewrite_chunk_def by (rule bal_intro | rule bal_put, simp)+

lemma bal_filewrite_loop [bal_intro]: "bal L (filewrite_loop f ip addr i n) L"
proof (induction f ip addr i n rule: filewrite_loop.induct)
  case (1 f ip addr i n)
  show ?case by (subst filewrite_loop.simps) (rule bal_intro 1 | assumption | rule sym, assumption | rule bal_put, simp)+
qed

lemma bal_filewrite [bal_intro]: "bal L (filewrite f addr n) L"
  unfolding filewrite_def by (rule bal_intro | rule bal_put, simp)+

lemma bal_close_opt [bal_intro]: "bal L (close_opt fo) L"
  unfolding close_opt_def by (rule bal_intro | rule bal_put, simp)+

lemma bal_pipealloc [bal_intro]: "bal L pipealloc L"
  unfolding pipealloc_def by (rule bal_intro | rule bal_put, simp)+

section \<open>Processes, system calls and traps\<close>

lemma bal_allocproc [bal_intro]: "bal L (allocproc b) L"
  unfolding allocproc_def by (rule bal_intro | rule bal_put, simp)+

lemma bal_userinit [bal_intro]: "bal L (userinit b code) L"
  unfolding userinit_def by (rule bal_intro | rule bal_put, simp)+

lemma bal_growproc [bal_intro]: "bal L (growproc n) L"
  unfolding growproc_def by (rule bal_intro | rule bal_put, simp)+

lemma bal_fork_files [bal_intro]: "bal L (fork_files p np) L"
  unfolding fork_files_def by (rule bal_intro | rule bal_put, simp)+

lemma bal_fork [bal_intro]: "bal L (fork b) L"
  unfolding fork_def by (rule bal_intro | rule bal_put, simp)+

lemma bal_exit_files [bal_intro]: "bal L (exit_files p) L"
  unfolding exit_files_def by (rule bal_intro | rule bal_put, simp)+

lemma bal_reparent [bal_intro]: "bal L (reparent p) L"
  unfolding reparent_def by (rule bal_intro | rule bal_put, simp)+

lemma bal_exit [bal_intro]: "bal L exit L"
  unfolding exit_def by (rule bal_intro | rule bal_put, simp)+

lemma bal_reap [bal_intro]: "bal L (reap i) L"
  unfolding reap_def by (rule bal_intro | rule bal_put, simp)+

lemma bal_wait_loop [bal_intro]:
  "(\<And>i. bal (PtableLk # L) (tz i) (PtableLk # L)) \<Longrightarrow> bal (PtableLk # L) (wait_loop tz) L"
  unfolding wait_loop_def by (rule bal_intro | assumption)+

lemma bal_wait [bal_intro]: "bal L wait L"
  unfolding wait_def by (rule bal_intro | rule bal_put, simp)+

lemma bal_reap2 [bal_intro]: "bal L (reap2 are aru ast i) L"
  unfolding reap2_def by (rule bal_intro | rule bal_put, simp)+

lemma bal_wait2 [bal_intro]: "bal L (wait2 are aru ast) L"
  unfolding wait2_def by (rule bal_intro | rule bal_put, simp)+

lemma bal_loaduvm_loop [bal_intro]: "bal L (loaduvm_loop pd addr ip off n i) L"
proof (induction pd addr ip off n i rule: loaduvm_loop.induct)
  case (1 pd addr ip off n i)
  show ?case by (subst loaduvm_loop.simps) (rule bal_intro 1 | assumption | rule sym, assumption | rule bal_put, simp)+
qed

lemma bal_loaduvm [bal_intro]: "bal L (loaduvm pd addr ip off n) L"
  unfolding loaduvm_def by (rule bal_intro | rule bal_put, simp)+

lemma bal_exec_segment [bal_intro]: "bal L (exec_segment pd ip off usz) L"
  unfolding exec_segment_def by (rule bal_intro | rule bal_put, simp)+

lemma bal_exec_segments [bal_intro]: "bal L (exec_segments pd ip offs usz) L"
proof (induction offs arbitrary: usz)
  case Nil show ?case unfolding exec_segments.simps by (rule bal_intro)+
next
  case (Cons x offs) show ?case unfolding exec_segments.simps by (rule Cons.IH bal_intro | rule bal_put, simp)+
qed

lemma bal_exec_args [bal_intro]: "bal L (exec_args pd argc sp args) L"
proof (induction args arbitrary: argc sp)
  case Nil show ?case unfolding exec_args.simps by (rule bal_intro)+
next
  case (Cons x args) show ?case unfolding exec_args.simps by (rule Cons.IH bal_intro | rule bal_put, simp)+
qed

lemma bal_exec_bad [bal_intro]: "bal L (exec_bad pd ipo) L"
  unfolding exec_bad_def by (rule bal_intro | rule bal_put, simp)+

lemma bal_exec_stack [bal_intro]: "bal L (exec_stack pd pc usz path argv) L"
  unfolding exec_stack_def by (rule bal_intro | rule bal_put, simp)+

lemma bal_exec [bal_intro]: "bal L (exec path argv) L"
  unfolding exec_def by (rule bal_intro | rule bal_put, simp)+

lemma bal_fetchint [bal_intro]: "bal L (fetchint a) L"
  unfolding fetchint_def by (rule bal_intro | rule bal_put, simp)+

lemma bal_fetchstr_loop [bal_intro]: "bal L (fetchstr_loop a ep) L"
proof (induction a ep rule: fetchstr_loop.induct)
  case (1 a ep)
  show ?case by (subst fetchstr_loop.simps) (rule bal_intro 1 | assumption | rule sym, assumption | rule bal_put, simp)+
qed

lemma bal_fetchstr [bal_intro]: "bal L (fetchstr a) L"
  unfolding fetchstr_def by (rule bal_intro | rule bal_put, simp)+

lemma bal_argint [bal_intro]: "bal L (argint n) L"
  unfolding argint_def by (rule bal_intro | rule bal_put, simp)+

lemma bal_argptr [bal_intro]: "bal L (argptr n len) L"
  unfolding argptr_def by (rule bal_intro | rule bal_put, simp)+

lemma bal_argstr [bal_intro]: "bal L (argstr n) L"
  unfolding argstr_def by (rule bal_intro | rule bal_put, simp)+

lemma bal_with_arg [bal_intro]: "bal L f L \<Longrightarrow> (\<And>x. bal L (g x) L) \<Longrightarrow> bal L (with_arg f g) L"
  unfolding with_arg_def by (rule bal_intro | assumption)+

lemma bal_sys_sleep_loop [bal_intro]: "bal (TicksLk # L) (sys_sleep_loop t n) L"
  unfolding sys_sleep_loop_def by (rule bal_intro)+

lemma bal_sys_fork [bal_intro]: "bal L (sys_fork b) L"
  unfolding sys_fork_def by (rule bal_intro | rule bal_put, simp)+

lemma bal_sys_exit [bal_intro]: "bal L sys_exit L"
  unfolding sys_exit_def by (rule bal_intro | rule bal_put, simp)+

lemma bal_sys_wait [bal_intro]: "bal L sys_wait L"
  unfolding sys_wait_def by (rule bal_intro | rule bal_put, simp)+

lemma bal_sys_kill [bal_intro]: "bal L sys_kill L"
  unfolding sys_kill_def by (rule bal_intro | rule bal_put, simp)+

lemma bal_sys_wait2 [bal_intro]: "bal L sys_wait2 L"
  unfolding sys_wait2_def by (rule bal_intro | rule bal_put, simp)+

lemma bal_sys_getpid [bal_intro]: "bal L sys_getpid L"
  unfolding sys_getpid_def by (rule bal_intro | rule bal_put, simp)+

lemma bal_sys_sbrk [bal_intro]: "bal L sys_sbrk L"
  unfolding sys_sbrk_def by (rule bal_intro | rule bal_put, simp)+

lemma bal_sys_sleep [bal_intro]: "bal L sys_sleep L"
  unfolding sys_sleep_def by (rule bal_intro | rule bal_put, simp)+

lemma bal_sys_uptime [bal_intro]: "bal L sys_uptime L"
  unfolding sys_uptime_def by (rule bal_intro | rule bal_put, simp)+

lemma bal_sys_trace [bal_intro]: "bal L sys_trace L"
  unfolding sys_trace_def by (rule bal_intro | rule bal_put, simp)+

lemma bal_sys_cs [bal_intro]: "bal L sys_cs L"
  unfolding sys_cs_def by (rule bal_intro | rule bal_put, simp)+

lemma bal_sys_set_tickets [bal_intro]: "bal L sys_set_tickets L"
  unfolding sys_set_tickets_def by (rule bal_intro | rule bal_put, simp)+

lemma bal_sys_set_priority [bal_intro]: "bal L sys_set_priority L"
  unfolding sys_set_priority_def by (rule bal_intro | rule bal_put, simp)+

lemma bal_sys_yield [bal_intro]: "bal L sys_yield L"
  unfolding sys_yield_def by (rule bal_intro | rule bal_put, simp)+

lemma bal_argfd [bal_intro]: "bal L (argfd n) L"
  unfolding argfd_def by (rule bal_intro | rule bal_put, simp)+

lemma bal_fdalloc [bal_intro]: "bal L (fdalloc f) L"
  unfolding fdalloc_def by (rule bal_intro | rule bal_put, simp)+

lemma bal_set_ofile [bal_intro]: "bal L (set_ofile fd fo) L"
  unfolding set_ofile_def by (rule bal_intro | rule bal_put, simp)+

lemma bal_sys_dup [bal_intro]: "bal L sys_dup L"
  unfolding sys_dup_def by (rule bal_intro | rule bal_put, simp)+

lemma bal_sys_read [bal_intro]: "bal L sys_read L"
  unfolding sys_read_def by (rule bal_intro | rule bal_put, simp)+

lemma bal_sys_write [bal_intro]: "bal L sys_write L"
  unfolding sys_write_def by (rule bal_intro | rule bal_put, simp)+

lemma bal_sys_close [bal_intro]: "bal L sys_close L"
  unfolding sys_close_def by (rule bal_intro | rule bal_put, simp)+

lemma bal_store_stat [bal_intro]: "bal L (store_stat a st) L"
  unfolding store_stat_def by (rule bal_intro | rule bal_put, simp)+

lemma bal_sys_fstat [bal_intro]: "bal L sys_fstat L"
  unfolding sys_fstat_def by (rule bal_intro | rule bal_put, simp)+

lemma bal_link_bad [bal_intro]: "bal L (link_bad ip) L"
  unfolding link_bad_def by (rule bal_intro | rule bal_put, simp)+

lemma bal_sys_link [bal_intro]: "bal L sys_link L"
  unfolding sys_link_def by (rule bal_intro | rule bal_put, simp)+

lemma bal_isdirempty_loop [bal_intro]: "bal L (isdirempty_loop dp offs) L"
proof (induction offs)
  case Nil show ?case unfolding isdirempty_loop.simps by (rule bal_intro)+
next
  case (Cons x offs) show ?case unfolding isdirempty_loop.simps by (rule Cons.IH bal_intro | rule bal_put, simp)+
qed

lemma bal_isdirempty [bal_intro]: "bal L (isdirempty dp) L"
  unfolding isdirempty_def by (rule bal_intro | rule bal_put, simp)+

lemma bal_unlink_entry [bal_intro]: "bal L (unlink_entry dp ip off) L"
  unfolding unlink_entry_def by (rule bal_intro | rule bal_put, simp)+

lemma bal_sys_unlink [bal_intro]: "bal L sys_unlink L"
  unfolding sys_unlink_def by (rule bal_intro | rule bal_put, simp)+

lemma bal_create [bal_intro]: "bal L (create path type major minor) L"
  unfolding create_def by (rule bal_intro | rule bal_put, simp)+

lemma bal_open_file [bal_intro]: "bal L (open_file ip omode) L"
  unfolding open_file_def by (rule bal_intro | rule bal_put, simp)+

lemma bal_sys_open [bal_intro]: "bal L sys_open L"
  unfolding sys_open_def by (rule bal_intro | rule bal_put, simp)+

lemma bal_sys_mkdir [bal_intro]: "bal L sys_mkdir L"
  unfolding sys_mkdir_def by (rule bal_intro | rule bal_put, simp)+

lemma bal_sys_mknod [bal_intro]: "bal L sys_mknod L"
  unfolding sys_mknod_def by (rule bal_intro | rule bal_put, simp)+

lemma bal_sys_chdir [bal_intro]: "bal L sys_chdir L"
  unfolding sys_chdir_def by (rule bal_intro | rule bal_put, simp)+

lemma bal_exec_argv [bal_intro]: "bal L (exec_argv uargv i k) L"
proof (induction k arbitrary: i)
  case 0 show ?case unfolding exec_argv.simps by (rule bal_intro)+
next
  case (Suc k) show ?case unfolding exec_argv.simps by (rule Suc.IH bal_intro | rule bal_put, simp)+
qed

lemma bal_sys_exec [bal_intro]: "bal L sys_exec L"
  unfolding sys_exec_def by (rule bal_intro | rule bal_put, simp)+

lemma bal_sys_pipe [bal_intro]: "bal L sys_pipe L"
  unfolding sys_pipe_def by (rule bal_intro | rule bal_put, simp)+

lemma bal_syscalls: "e \<in> set (syscalls b) \<Longrightarrow> e \<noteq> None \<Longrightarrow> bal L (fst (the e)) L"
  by (auto simp: syscalls_def bal_intro)

lemma bal_set_eax [bal_intro]: "bal L (set_eax p v) L"
  unfolding set_eax_def by (rule bal_intro | rule bal_put, simp)+

lemma bal_syscallname [bal_intro]: "bal L (syscallname b num) L"
  unfolding syscallname_def by (rule bal_intro | rule bal_put, simp)+

lemma bal_syscall [bal_intro]: "bal L (syscall b :: ('z kfile_scheme, unit) k) L"
proof -
  let ?t = "syscalls b :: (('z kfile_scheme, int) k \<times> string) option list"
  have "bal L (if 0 < num \<and> num < int (length ?t) \<and> ?t ! nat num \<noteq> None
      then bindk (fst (the (?t ! nat num))) (set_eax p)
      else bindk (kget (\<lambda>s. proc_at s p)) (\<lambda>q.
        thenk (cprintf (''%d %s: unknown sys call %d'' @ newline) [AInt (pid q), AStr (Some (codes (pname q))), AInt num])
        (set_eax p (- 1)))) L" for num p
  proof (rule bal_cases(1))
    assume a: "0 < num \<and> num < int (length ?t) \<and> ?t ! nat num \<noteq> None"
    then have "?t ! nat num \<in> set ?t" by (intro nth_mem) (simp add: nat_less_iff)
    then show "bal L (bindk (fst (the (?t ! nat num))) (set_eax p)) L"
      using a by (intro bal_bind [where M = L] bal_syscalls bal_set_eax) auto
  qed (rule bal_intro)+
  note c = this
  show ?thesis unfolding syscall_def by (rule c bal_intro)+
qed

lemma bal_timer_tick [bal_intro]: "bal L timer_tick L"
  unfolding timer_tick_def by (rule bal_intro | rule bal_put, simp)+

lemma bal_exit_if_killed [bal_intro]: "bal L (exit_if_killed u) L"
  unfolding exit_if_killed_def by (rule bal_intro | rule bal_put, simp)+

lemma bal_trap_switch [bal_intro]: "bal L (trap_switch pcs cpu cr2 f u) L"
  unfolding trap_switch_def by (rule bal_intro | rule bal_put, simp)+

lemma bal_trap [bal_intro]: "bal L (trap b pcs cpu cr2 f) L"
  unfolding trap_def by (rule bal_intro | rule bal_put, simp)+

section \<open>Properties\<close>

text \<open>C2: lock discipline. Whatever interrupt, fault or system call \<open>trap\<close> handles, if it is entered with no
  spinlock held then it returns with none held, and when it gives up the CPU on the way, in whatever
  operation of the kernel, exactly \<open>ptable.lock\<close> is held.\<close>

theorem trap_releases_locks:
  assumes "held s = []"
  shows "case trap b pcs cpu cr2 f s of Ok _ t \<Rightarrow> held t = [] | Block t \<Rightarrow> held t = [PtableLk] | _ \<Rightarrow> True"
  using bal_run [OF bal_trap assms] .

theorem trap_releases_locks_witness:
  "\<exists>t. trap LOTTERY (\<lambda>_. []) 0 0 (zero_tf\<lparr>tf_trapno := 32\<rparr>) (boot_kfile demo_disk) = Ok () t
     \<and> rutime (proc_at t 0) = 1 \<and> ticks t = 1 \<and> held t = []"
proof -
  let ?s = "boot_kfile demo_disk" and ?f = "zero_tf\<lparr>tf_trapno := 32\<rparr>"
  have h: "held ?s = []" by (simp add: boot_defs)
  have s: "cur ?s = Some 0" "procs ?s = [zero_proc\<lparr>state := RUNNING, pid := 1\<rparr>]" "ticks ?s = 0" by (simp_all add: boot_defs)
  have t: "trap LOTTERY (\<lambda>_. []) 0 0 ?f ?s = Ok () (sliced 0 1 (ticked ?s))"
    by (rule trap_timer_run [OF h s(1)]) (simp_all add: s zero_proc_def zero_tf_def s32_def)
  moreover have "rutime (proc_at (sliced 0 1 (ticked ?s)) 0) = 1" "ticks (sliced 0 1 (ticked ?s)) = 1"
    by (simp_all add: sliced_def ticked_def s count_tick_def wakeup_proc_def zero_proc_def s32_def)
  ultimately show ?thesis using trap_releases_locks [OF h, of LOTTERY "\<lambda>_. []" 0 0 ?f] by simp
qed

end
