(* ===== verification/Kernel_Types.thy ===== *)
theory Kernel_Types
  imports Trap
begin

text \<open>
  Types of the kernel state. The C tables have fixed sizes, the pointers kept in processes and files point into
  them, and an \<open>int\<close> is a 32-bit number; in the model they are lists, indices and integers, and \<open>well_typed\<close>
  says that they have the C type. \<open>ty Q f\<close> says that a call \<open>f\<close> entered in a typed state returns or gives up the CPU in a typed
  state, and that its result satisfies \<open>Q\<close>. The rules in \<open>ty_intro\<close> follow the structure of a call; those in \<open>ty_first\<close> carry what is known of
  an intermediate result to the rest of the call.
\<close>

named_theorems ty_intro \<open>typing of kernel calls\<close>
named_theorems ty_first \<open>typing of calls whose result is used\<close>

section \<open>Types\<close>

definition int32 :: "int \<Rightarrow> bool" where
  "int32 v \<longleftrightarrow> - (2 ^ 31) \<le> v \<and> v < 2 ^ 31"

definition proc_ty :: "proc \<Rightarrow> bool" where
  "proc_ty p \<longleftrightarrow> length (ofile p) = NOFILE \<and> (\<forall>x \<in> set (ofile p). pred_option (\<lambda>f. f < NFILE) x)
     \<and> pred_option (\<lambda>i. i < NINODE) (cwd p) \<and> pred_option (\<lambda>q. q < NPROC) (parent p)
     \<and> (\<forall>v \<in> {pid p, traceflag p, counter p, timeslice p, tickets p, retime p, stime p, rutime p, ctime p, total_time p,
              max_time p, init_time p, priority p}. int32 v)"

definition file_ty :: "struct_file \<Rightarrow> bool" where
  "file_ty f \<longleftrightarrow> f_type f = FD_INODE \<longrightarrow> f_ip f < NINODE"

definition well_typed :: "'z kfile_scheme \<Rightarrow> bool" where
  "well_typed s \<longleftrightarrow> length (procs s) = NPROC \<and> (\<forall>p \<in> set (procs s). proc_ty p) \<and> pred_option (\<lambda>p. p < NPROC) (cur s)
     \<and> pred_option (\<lambda>p. p < NPROC) (initproc s) \<and> int32 (nextpid s)
     \<and> length (bufs s) = NBUF \<and> length (lh_block s) = LOGSIZE \<and> lh_n s \<le> int LOGSIZE
     \<and> length (icache s) = NINODE \<and> (\<forall>i \<in> set (icache s). length (i_addrs i) = NDIRECT + 1)
     \<and> length (ftable s) = NFILE \<and> (\<forall>f \<in> set (ftable s). file_ty f) \<and> (\<forall>a. length (p_data (pipes s a)) = PIPESIZE)
     \<and> length (devsw_tab s) = NDEV \<and> length (in_buf s) = INPUT_BUF \<and> crt_pos s < 24 * 80"

lemma int32_simps [simp]: "int32 (s32 v)" "int32 (sint (w :: u32))" "int32 0" "int32 1" "int32 5" "int32 10"
  using s32_range [of v] sint_greater_eq [of w] sint_less [of w] by (simp_all add: int32_def)

lemma int32_idiv:
  assumes "idiv32 a b = Some v" "int32 a"
  shows "int32 v"
proof -
  have b: "b \<noteq> 0" "\<not> (a = - (2 ^ 31) \<and> b = - 1)" and v: "v = a sdiv b" using assms(1) by (auto simp: idiv32_def split: if_splits)
  have "0 \<le> \<bar>a\<bar> div \<bar>b\<bar>" using b(1) by (simp add: pos_imp_zdiv_nonneg_iff)
  then have av: "\<bar>v\<bar> = \<bar>a\<bar> div \<bar>b\<bar>" unfolding v signed_divide_int_def using b(1) by (cases "a = 0") (simp_all add: abs_mult abs_sgn_eq)
  have le: "\<bar>v\<bar> \<le> \<bar>a\<bar>" unfolding av using b(1) zdiv_mono2 [of "\<bar>a\<bar>" 1 "\<bar>b\<bar>"] by simp
  show ?thesis
  proof (cases "\<bar>v\<bar> < 2 ^ 31")
    case True
    then show ?thesis by (auto simp: int32_def)
  next
    case False
    then have a: "a = - (2 ^ 31)" "\<bar>v\<bar> = 2 ^ 31" using le assms(2) by (auto simp: int32_def)
    have "\<bar>b\<bar> = 1"
    proof (rule ccontr)
      assume "\<bar>b\<bar> \<noteq> 1"
      then have "2 \<le> \<bar>b\<bar>" using b(1) by auto
      then have "\<bar>a\<bar> div \<bar>b\<bar> < 2 ^ 31" using zdiv_mono2 [of "\<bar>a\<bar>" 2 "\<bar>b\<bar>"] a(1) by simp
      then show False using av a(2) by simp
    qed
    then have "b = 1" using b a(1) by auto
    then show ?thesis using v assms(2) by simp
  qed
qed

lemma typed_other [simp]:
  "well_typed (s\<lparr>held := h\<rparr>) = well_typed s" "well_typed (s\<lparr>ticks := t\<rparr>) = well_typed s" "well_typed (s\<lparr>cr3 := n\<rparr>) = well_typed s" "well_typed (s\<lparr>esp0 := n\<rparr>) = well_typed s"
  "well_typed (s\<lparr>esp0 := n, cr3 := m\<rparr>) = well_typed s" "well_typed (s\<lparr>kpgdir := n\<rparr>) = well_typed s"
  "well_typed (s\<lparr>rng := r\<rparr>) = well_typed s" "well_typed (s\<lparr>proc_quantum := v\<rparr>) = well_typed s" "well_typed (s\<lparr>intr_flag := b\<rparr>) = well_typed s"
  "well_typed (s\<lparr>memory := mm\<rparr>) = well_typed s" "well_typed (s\<lparr>use_lock := b\<rparr>) = well_typed s" "well_typed (s\<lparr>freelist := n\<rparr>) = well_typed s"
  "well_typed (s\<lparr>slocks := sl\<rparr>) = well_typed s" "well_typed (s\<lparr>bnext := ln\<rparr>) = well_typed s" "well_typed (s\<lparr>bprev := ln\<rparr>) = well_typed s"
  "well_typed (s\<lparr>disk := d, dtrace := dt\<rparr>) = well_typed s" "well_typed (s\<lparr>lstart := n\<rparr>) = well_typed s"
  "well_typed (s\<lparr>lsize := v\<rparr>) = well_typed s" "well_typed (s\<lparr>loutstanding := v\<rparr>) = well_typed s" "well_typed (s\<lparr>lcommitting := b\<rparr>) = well_typed s"
  "well_typed (s\<lparr>ldev := n\<rparr>) = well_typed s" "well_typed (s\<lparr>sb := x\<rparr>) = well_typed s" "well_typed (s\<lparr>panicked := b\<rparr>) = well_typed s" "well_typed (s\<lparr>cons_locking := b\<rparr>) = well_typed s"
  "well_typed (s\<lparr>crt := c\<rparr>) = well_typed s" "well_typed (s\<lparr>uart := b\<rparr>) = well_typed s" "well_typed (s\<lparr>uart_out := bs\<rparr>) = well_typed s" "well_typed (s\<lparr>uart_in := bs\<rparr>) = well_typed s"
  "well_typed (s\<lparr>in_r := w\<rparr>) = well_typed s" "well_typed (s\<lparr>in_w := w\<rparr>) = well_typed s" "well_typed (s\<lparr>in_e := w\<rparr>) = well_typed s" "well_typed (s\<lparr>kbd_dev := kd\<rparr>) = well_typed s"
  by (simp_all add: well_typed_def)

lemma typed_fields:
  "well_typed s \<Longrightarrow> well_typed (s\<lparr>lh_block := (lh_block s)[i := n]\<rparr>)"
  "well_typed s \<Longrightarrow> well_typed (s\<lparr>in_buf := (in_buf s)[i := c]\<rparr>)"
  "well_typed s \<Longrightarrow> v \<le> int LOGSIZE \<Longrightarrow> well_typed (s\<lparr>lh_n := v\<rparr>)"
  "well_typed s \<Longrightarrow> int32 v \<Longrightarrow> well_typed (s\<lparr>nextpid := v\<rparr>)"
  "well_typed s \<Longrightarrow> pred_option (\<lambda>p. p < NPROC) po \<Longrightarrow> well_typed (s\<lparr>cur := po\<rparr>)"
  "well_typed s \<Longrightarrow> pred_option (\<lambda>p. p < NPROC) po \<Longrightarrow> well_typed (s\<lparr>initproc := po\<rparr>)"
  "well_typed s \<Longrightarrow> pos < 24 * 80 \<Longrightarrow> well_typed (s\<lparr>crt_pos := pos\<rparr>)"
  "well_typed s \<Longrightarrow> well_typed (s\<lparr>bufs := upd b f (bufs s)\<rparr>)"
  "well_typed s \<Longrightarrow> (\<And>p. proc_ty p \<Longrightarrow> proc_ty (g p)) \<Longrightarrow> well_typed (s\<lparr>procs := map g (procs s)\<rparr>)"
  by (auto simp: well_typed_def)

lemma ball_upd: "\<forall>x \<in> set xs. P x \<Longrightarrow> (\<And>x. P x \<Longrightarrow> P (f x)) \<Longrightarrow> \<forall>x \<in> set (upd i f xs). P x"
  by (cases "i < length xs") (auto simp: upd_def list_update_beyond dest!: set_update_subset_insert [THEN subsetD])

lemma typed_tables:
  assumes "well_typed s"
  shows "(\<And>p. proc_ty p \<Longrightarrow> proc_ty (f p)) \<Longrightarrow> well_typed (s\<lparr>procs := upd i f (procs s)\<rparr>)"
    "(\<And>x. length (i_addrs x) = NDIRECT + 1 \<Longrightarrow> length (i_addrs (g x)) = NDIRECT + 1) \<Longrightarrow> well_typed (s\<lparr>icache := upd i g (icache s)\<rparr>)"
    "(\<And>x. file_ty x \<Longrightarrow> file_ty (h x)) \<Longrightarrow> well_typed (s\<lparr>ftable := upd i h (ftable s)\<rparr>)"
    "(\<And>x. length (p_data x) = PIPESIZE \<Longrightarrow> length (p_data (j x)) = PIPESIZE) \<Longrightarrow> well_typed (s\<lparr>pipes := (pipes s)(a := j (pipes s a))\<rparr>)"
proof -
  have t: "\<forall>p \<in> set (procs s). proc_ty p" "\<forall>x \<in> set (icache s). length (i_addrs x) = NDIRECT + 1" "\<forall>x \<in> set (ftable s). file_ty x"
    using assms by (simp_all add: well_typed_def)
  show "well_typed (s\<lparr>procs := upd i f (procs s)\<rparr>)" if "\<And>p. proc_ty p \<Longrightarrow> proc_ty (f p)"
    using assms ball_upd [OF t(1), of f i] that by (simp add: well_typed_def)
  show "well_typed (s\<lparr>icache := upd i g (icache s)\<rparr>)" if "\<And>x. length (i_addrs x) = NDIRECT + 1 \<Longrightarrow> length (i_addrs (g x)) = NDIRECT + 1"
    using assms ball_upd [OF t(2), of g i] that by (simp add: well_typed_def)
  show "well_typed (s\<lparr>ftable := upd i h (ftable s)\<rparr>)" if "\<And>x. file_ty x \<Longrightarrow> file_ty (h x)"
    using assms ball_upd [OF t(3), of h i] that by (simp add: well_typed_def)
  show "well_typed (s\<lparr>pipes := (pipes s)(a := j (pipes s a))\<rparr>)" if "\<And>x. length (p_data x) = PIPESIZE \<Longrightarrow> length (p_data (j x)) = PIPESIZE"
    using assms that by (simp add: well_typed_def)
qed

lemma typedD:
  assumes "well_typed s"
  shows "length (procs s) = NPROC" "pred_option (\<lambda>p. p < NPROC) (cur s)" "pred_option (\<lambda>p. p < NPROC) (initproc s)" "int32 (nextpid s)"
    "i < NPROC \<Longrightarrow> proc_ty (procs s ! i)" "length (icache s) = NINODE" "length (ftable s) = NFILE" "i < NFILE \<Longrightarrow> file_ty (ftable s ! i)"
    "lh_n s \<le> int LOGSIZE" "crt_pos s < 24 * 80"
  using assms by (auto simp: well_typed_def)

declare NPROC_def [simp del] NINODE_def [simp del] NFILE_def [simp del]

section \<open>Rules\<close>

definition ty :: "('a \<Rightarrow> bool) \<Rightarrow> ('z kfile_scheme, 'a) k \<Rightarrow> bool" where
  "ty Q f \<longleftrightarrow> (\<forall>s. well_typed s \<longrightarrow> (case f s of Ok x t \<Rightarrow> well_typed t \<and> Q x | Block t \<Rightarrow> well_typed t | _ \<Rightarrow> True))"

abbreviation tys :: "('z kfile_scheme, 'a) k \<Rightarrow> bool" where
  "tys f \<equiv> ty (\<lambda>_. True) f"

lemma ty_run: "ty Q f \<Longrightarrow> well_typed s \<Longrightarrow> (case f s of Ok x t \<Rightarrow> well_typed t \<and> Q x | Block t \<Rightarrow> well_typed t | _ \<Rightarrow> True)"
  by (simp add: ty_def)

lemma tyD: "ty Q f \<Longrightarrow> well_typed s \<Longrightarrow> f s = Ok x t \<Longrightarrow> well_typed t \<and> Q x" "ty Q f \<Longrightarrow> well_typed s \<Longrightarrow> f s = Block t \<Longrightarrow> well_typed t"
  using ty_run [of Q f s] by simp_all

lemma tyI:
  assumes "\<And>s x t. well_typed s \<Longrightarrow> f s = Ok x t \<Longrightarrow> well_typed t \<and> Q x" "\<And>s t. well_typed s \<Longrightarrow> f s = Block t \<Longrightarrow> well_typed t"
  shows "ty Q f"
proof -
  have "case f s of Ok x t \<Rightarrow> well_typed t \<and> Q x | Block t \<Rightarrow> well_typed t | _ \<Rightarrow> True" if "well_typed s" for s
    using assms(1) [OF that] assms(2) [OF that] by (cases "f s") simp_all
  then show ?thesis by (simp add: ty_def)
qed

lemma ty_weaken: "ty P f \<Longrightarrow> (\<And>x. P x \<Longrightarrow> Q x) \<Longrightarrow> ty Q f"
  by (rule tyI) (auto dest: tyD)

lemma ty_any: "ty P f \<Longrightarrow> tys f"
  by (rule ty_weaken) simp_all

lemma ty_bind:
  assumes "ty P f" "\<And>x. P x \<Longrightarrow> ty Q (g x)"
  shows "ty Q (bindk f g)"
proof (rule tyI)
  fix s y t assume "well_typed s" "bindk f g s = Ok y t"
  then obtain x u where "well_typed s" "f s = Ok x u" "g x u = Ok y t" unfolding bindk_eq_Ok by blast
  then show "well_typed t \<and> Q y" using tyD(1) [OF assms(1)] tyD(1) [OF assms(2)] by blast
next
  fix s t assume h: "well_typed s" and b: "bindk f g s = Block t"
  show "well_typed t"
  proof (cases "f s")
    case (Ok x u)
    then show ?thesis using b tyD(1) [OF assms(1) h Ok] tyD(2) [OF assms(2), of x u t] by simp
  qed (use b tyD(2) [OF assms(1) h] in simp_all)
qed

lemma ty_bind_any [ty_intro]: "tys f \<Longrightarrow> (\<And>x. ty Q (g x)) \<Longrightarrow> ty Q (bindk f g)"
  by (rule ty_bind)

lemma ty_then [ty_intro]: "tys f \<Longrightarrow> ty Q g \<Longrightarrow> ty Q (thenk f g)"
  unfolding thenk_def by (rule ty_bind)

lemma ty_get [ty_first]:
  assumes "\<And>s. well_typed s \<Longrightarrow> ty Q (g (h s))"
  shows "ty Q (bindk (kget h) g)"
proof -
  have "case bindk (kget h) g s of Ok x t \<Rightarrow> well_typed t \<and> Q x | Block t \<Rightarrow> well_typed t | _ \<Rightarrow> True" if "well_typed s" for s
    using ty_run [OF assms [OF that] that] by simp
  then show ?thesis by (simp add: ty_def)
qed

lemma ty_iget_f [ty_first]:
  fixes g :: "'a \<Rightarrow> ('z kfile_scheme, 'b) k"
  shows "(\<And>s :: 'z kfile_scheme. well_typed s \<Longrightarrow> ty Q (g (i (inode_at s ip)))) \<Longrightarrow> ty Q (bindk (iget_f ip i) g)"
  unfolding iget_f_def by (rule ty_get)

lemma ty_fget [ty_first]:
  fixes g :: "'a \<Rightarrow> ('z kfile_scheme, 'b) k"
  shows "(\<And>s :: 'z kfile_scheme. well_typed s \<Longrightarrow> ty Q (g (j (file_at s f)))) \<Longrightarrow> ty Q (bindk (fget f j) g)"
  unfolding fget_def by (rule ty_get)

lemma ty_simple [ty_intro]:
  "tys (kret x)" "ty Q (kpanic m)" "ty Q (kfault m)" "ty Q (\<lambda>_. Hang)" "tys (kget h)" "ty Q kblock"
  "tys (iget_f ip i)" "tys (fget f j)" "tys (pget p k)"
  by (simp_all add: ty_def iget_f_def fget_def pget_def)

lemma ty_ret: "Q x \<Longrightarrow> ty Q (kret x)"
  by (simp add: ty_def)

lemma ty_put: "(\<And>s. well_typed s \<Longrightarrow> well_typed (h s)) \<Longrightarrow> tys (kput h)"
  by (simp add: ty_def)

lemma ty_when [ty_intro]: "(b \<Longrightarrow> tys f) \<Longrightarrow> tys (whenk b f)"
  by (cases b) (simp_all add: ty_simple)

lemma ty_cases [ty_intro]:
  "(b \<Longrightarrow> ty Q f) \<Longrightarrow> (\<not> b \<Longrightarrow> ty Q g) \<Longrightarrow> ty Q (if b then f else g)"
  "(x = None \<Longrightarrow> ty Q f) \<Longrightarrow> (\<And>y. x = Some y \<Longrightarrow> ty Q (h y)) \<Longrightarrow> ty Q (case x of None \<Rightarrow> f | Some y \<Rightarrow> h y)"
  "(\<And>a b. z = (a, b) \<Longrightarrow> ty Q (p a b)) \<Longrightarrow> ty Q (case z of (a, b) \<Rightarrow> p a b)"
  "(\<And>y. y = e \<Longrightarrow> ty Q (i y)) \<Longrightarrow> ty Q (let y = e in i y)"
  by (simp_all split: option.split prod.split)

lemma ty_list: "(x = [] \<Longrightarrow> ty Q f) \<Longrightarrow> (\<And>y ys. x = y # ys \<Longrightarrow> ty Q (h y ys)) \<Longrightarrow> ty Q (case x of [] \<Rightarrow> f | y # ys \<Rightarrow> h y ys)"
  by (simp split: list.split)

lemma ty_parg: "(\<And>n. x = AInt n \<Longrightarrow> ty Q (f n)) \<Longrightarrow> (\<And>y. x = AStr y \<Longrightarrow> ty Q (g y)) \<Longrightarrow> ty Q (case x of AInt n \<Rightarrow> f n | AStr y \<Rightarrow> g y)"
  by (simp split: parg.split)

lemma ty_each: "(\<And>x. x \<in> set xs \<Longrightarrow> tys (f x)) \<Longrightarrow> tys (eachk f xs)"
  by (induction xs) (simp_all add: ty_simple ty_then)

lemma ty_each_any [ty_intro]: "(\<And>x. tys (f x)) \<Longrightarrow> tys (eachk f xs)"
  by (rule ty_each)

lemma ty_lock [ty_intro]: "tys (lock l)" "tys (unlock l)"
  by (auto simp: ty_def)

section \<open>Processes and memory\<close>

lemma ty_set_proc: "(\<And>q. proc_ty q \<Longrightarrow> proc_ty (f q)) \<Longrightarrow> tys (set_proc i f)"
  by (simp add: ty_def typed_tables(1))

lemma proc_ty_upd [simp]:
  assumes "proc_ty q"
  shows "proc_ty (q\<lparr>state := st\<rparr>)" "proc_ty (q\<lparr>chan := ch\<rparr>)" "proc_ty (q\<lparr>killed := b\<rparr>)" "proc_ty (q\<lparr>sz := n\<rparr>)" "proc_ty (q\<lparr>pgdir := n\<rparr>)"
    "proc_ty (q\<lparr>kstack := n\<rparr>)" "proc_ty (q\<lparr>tf := fr\<rparr>)" "proc_ty (q\<lparr>context_eip := e\<rparr>)" "proc_ty (q\<lparr>pname := nm\<rparr>)"
    "int32 v \<Longrightarrow> proc_ty (q\<lparr>counter := v\<rparr>)" "int32 v \<Longrightarrow> proc_ty (q\<lparr>timeslice := v\<rparr>)" "int32 v \<Longrightarrow> proc_ty (q\<lparr>pid := v\<rparr>)"
    "int32 v \<Longrightarrow> proc_ty (q\<lparr>traceflag := v\<rparr>)" "int32 v \<Longrightarrow> proc_ty (q\<lparr>tickets := v\<rparr>)" "int32 v \<Longrightarrow> proc_ty (q\<lparr>retime := v\<rparr>)"
    "int32 v \<Longrightarrow> proc_ty (q\<lparr>stime := v\<rparr>)" "int32 v \<Longrightarrow> proc_ty (q\<lparr>rutime := v\<rparr>)" "int32 v \<Longrightarrow> proc_ty (q\<lparr>ctime := v\<rparr>)"
    "int32 v \<Longrightarrow> proc_ty (q\<lparr>total_time := v\<rparr>)" "int32 v \<Longrightarrow> proc_ty (q\<lparr>max_time := v\<rparr>)" "int32 v \<Longrightarrow> proc_ty (q\<lparr>init_time := v\<rparr>)"
    "int32 v \<Longrightarrow> proc_ty (q\<lparr>priority := v\<rparr>)" "pred_option (\<lambda>i. i < NPROC) po \<Longrightarrow> proc_ty (q\<lparr>parent := po\<rparr>)"
    "pred_option (\<lambda>i. i < NINODE) po \<Longrightarrow> proc_ty (q\<lparr>cwd := po\<rparr>)"
    "pred_option (\<lambda>f. f < NFILE) po \<Longrightarrow> proc_ty (q\<lparr>ofile := (ofile q)[k := po]\<rparr>)"
  using assms by (auto simp: proc_ty_def dest!: set_update_subset_insert [THEN subsetD])

lemma proc_ty_fields:
  assumes "proc_ty q"
  shows "int32 (pid q)" "int32 (traceflag q)" "pred_option (\<lambda>i. i < NINODE) (cwd q)" "pred_option (\<lambda>i. i < NPROC) (parent q)"
    "k < NOFILE \<Longrightarrow> pred_option (\<lambda>f. f < NFILE) (ofile q ! k)"
  using assms by (auto simp: proc_ty_def)

lemma ty_curproc: "ty (\<lambda>p. p < NPROC) curproc"
  by (rule tyI) (auto split: option.splits dest: typedD(2))

lemmas ty_curproc_uses [ty_first] = ty_bind [OF ty_curproc]
lemmas ty_curproc_any [ty_intro] = ty_any [OF ty_curproc]

lemma ty_curr_time: "ty int32 curr_time"
  unfolding curr_time_def by (rule ty_first ty_intro ty_ret | simp)+

lemmas ty_curr_time_uses [ty_first] = ty_bind [OF ty_curr_time]
lemmas ty_curr_time_any [ty_intro] = ty_any [OF ty_curr_time]

lemma ty_sched [ty_intro]: "ty Q sched"
proof -
  have "ty Q (thenk (set_proc p (\<lambda>q. q\<lparr>counter := s32 (counter q + 1)\<rparr>)) kblock)" for p
    by (rule ty_intro ty_set_proc | simp)+
  note c = this
  show ?thesis unfolding sched_def by (rule c ty_first ty_intro)+
qed

lemma count_tick_ty: "proc_ty p \<Longrightarrow> proc_ty (count_tick p)"
  by (simp add: count_tick_def split: procstate.split)

lemma wakeup_proc_ty: "proc_ty p \<Longrightarrow> proc_ty (wakeup_proc c p)"
  by (simp add: wakeup_proc_def)

lemma ty_countprocs [ty_intro]: "tys countprocs"
  unfolding countprocs_def by (rule ty_intro ty_put typed_fields(9) count_tick_ty | assumption)+

lemma ty_wakeup [ty_intro]: "tys (wakeup c)" "tys (wakeup1 d)"
  unfolding wakeup_def wakeup1_def by (rule ty_intro ty_put typed_fields(9) wakeup_proc_ty | assumption)+

lemma ty_set_priority: "int32 v \<Longrightarrow> tys (set_priority n v)"
  unfolding set_priority_def by (rule ty_first ty_intro ty_set_proc proc_ty_upd | assumption)+

lemma ty_yield [ty_intro]: "tys yield"
  unfolding yield_def by (rule ty_first ty_intro ty_set_proc proc_ty_upd int32_simps | assumption)+

lemma ty_sleep [ty_intro]: "ty Q (sleep c lk)"
  unfolding sleep_def by (rule ty_first ty_intro ty_set_proc proc_ty_upd | assumption)+

lemma ty_sleep_resume [ty_intro]: "tys (sleep_resume lk)" "tys yield_resume"
  unfolding sleep_resume_def yield_resume_def by (rule ty_first ty_intro ty_set_proc proc_ty_upd | assumption)+

lemma ty_kill [ty_intro]: "tys (kill n)"
  unfolding kill_def by (rule ty_first ty_intro ty_set_proc proc_ty_upd | assumption)+

lemma ty_iset: "(\<And>x. length (i_addrs x) = NDIRECT + 1 \<Longrightarrow> length (i_addrs (g x)) = NDIRECT + 1) \<Longrightarrow> tys (iset ip g)"
  unfolding iset_def by (rule ty_put, rule typed_tables(2))

lemma ty_fset: "(\<And>x. file_ty x \<Longrightarrow> file_ty (g x)) \<Longrightarrow> tys (fset f g)"
  unfolding fset_def by (rule ty_put, rule typed_tables(3))

lemma ty_pset: "(\<And>x. length (p_data x) = PIPESIZE \<Longrightarrow> length (p_data (g x)) = PIPESIZE) \<Longrightarrow> tys (pset p g)"
  unfolding pset_def by (rule ty_put, rule typed_tables(4))

lemmas ty_rules = ty_ret ty_put ty_set_proc ty_iset ty_fset ty_pset typed_fields typed_tables

lemma ty_kfree [ty_intro]:
  "tys (kfree v)"
  unfolding kfree_def
  by (assumption | rule ty_first ty_intro ty_rules | simp)+

lemma ty_kalloc [ty_intro]:
  "tys kalloc"
  unfolding kalloc_def
  by (assumption | rule ty_first ty_intro ty_rules | simp)+

lemma ty_words [ty_intro]:
  "tys (ldw a)" "tys (stw a v)" "tys (zero_page a)" "tys (switchuvm po)"
  unfolding ldw_def stw_def zero_page_def switchuvm_def
  by (assumption | rule ty_first ty_intro ty_rules | simp)+

lemma ty_walkpgdir [ty_intro]: "tys (walkpgdir pd va al)"
  unfolding walkpgdir_def by (assumption | rule ty_first ty_intro ty_rules | simp)+

lemma ty_mappages_loop [ty_intro]: "tys (mappages_loop k pd a l pa perm)"
proof (induction k arbitrary: a pa)
  case 0 show ?case unfolding mappages_loop.simps by (rule ty_first ty_intro ty_rules | simp)+
next
  case (Suc k) show ?case unfolding mappages_loop.simps by (assumption | rule Suc.IH ty_first ty_intro ty_rules | simp)+
qed

lemma ty_mappages [ty_intro]: "tys (mappages pd va n pa perm)"
  unfolding mappages_def by (assumption | rule ty_first ty_intro ty_rules | simp)+

lemma ty_deallocuvm_loop [ty_intro]: "tys (deallocuvm_loop pd a oldsz)"
proof (induction pd a oldsz rule: deallocuvm_loop.induct)
  case (1 pd a oldsz)
  show ?case by (subst deallocuvm_loop.simps) (rule 1 ty_first ty_intro | assumption | rule sym, assumption | rule ty_put, simp)+
qed

lemma ty_unmap [ty_intro]:
  "tys (deallocuvm pd oldsz newsz)" "tys (freevm pd)"
  unfolding deallocuvm_def freevm_def
  by (assumption | rule ty_first ty_intro ty_rules | simp)+

lemma ty_setupkvm_loop [ty_intro]: "tys (setupkvm_loop pd ms)"
proof (induction ms)
  case Nil show ?case unfolding setupkvm_loop.simps by (rule ty_first ty_intro ty_rules | simp)+
next
  case (Cons x ms) show ?case unfolding setupkvm_loop.simps by (assumption | rule Cons.IH ty_first ty_intro ty_rules | simp)+
qed

lemma ty_setupkvm [ty_intro]:
  "tys setupkvm" "tys (inituvm pd init)"
  unfolding setupkvm_def inituvm_def
  by (assumption | rule ty_first ty_intro ty_rules | simp)+

lemma ty_allocuvm_loop [ty_intro]: "tys (allocuvm_loop pd a oldsz newsz)"
proof (induction pd a oldsz newsz rule: allocuvm_loop.induct)
  case (1 pd a oldsz newsz)
  show ?case by (subst allocuvm_loop.simps) (rule 1 ty_first ty_intro | assumption | rule sym, assumption | rule ty_put, simp)+
qed

lemma ty_copyuvm_loop [ty_intro]: "tys (copyuvm_loop pd d i n)"
proof (induction pd d i n rule: copyuvm_loop.induct)
  case (1 pd d i n)
  show ?case by (subst copyuvm_loop.simps) (rule 1 ty_first ty_intro | assumption | rule sym, assumption | rule ty_put, simp)+
qed

lemma ty_user_memory [ty_intro]:
  "tys (allocuvm pd oldsz newsz)" "tys (clearpteu pd uva)" "tys (copyuvm pd n)" "tys (uva2ka pd uva)"
  unfolding allocuvm_def clearpteu_def copyuvm_def uva2ka_def
  by (assumption | rule ty_first ty_intro ty_rules | simp)+

lemma ty_copyout [ty_intro]: "tys (copyout pd va buf)"
proof (induction pd va buf rule: copyout.induct)
  case (1 pd va buf)
  show ?case by (subst copyout.simps) (rule 1 ty_first ty_intro | assumption | rule sym, assumption | rule ty_put, simp)+
qed

lemma ty_bytes [ty_intro]:
  "tys (ldb va)" "tys (stb va b)"
  unfolding ldb_def stb_def
  by (assumption | rule ty_first ty_intro ty_rules | simp)+

lemma ty_ldbs [ty_intro]: "tys (ldbs va n)"
proof (induction n arbitrary: va)
  case 0 show ?case unfolding ldbs.simps by (rule ty_first ty_intro ty_rules | simp)+
next
  case (Suc n) show ?case unfolding ldbs.simps by (assumption | rule Suc.IH ty_first ty_intro ty_rules | simp)+
qed

lemma ty_stbs [ty_intro]: "tys (stbs va bs)"
proof (induction bs arbitrary: va)
  case Nil show ?case unfolding stbs.simps by (rule ty_first ty_intro ty_rules | simp)+
next
  case (Cons x bs) show ?case unfolding stbs.simps by (assumption | rule Cons.IH ty_first ty_intro ty_rules | simp)+
qed

lemma ty_user_words [ty_intro]:
  "tys (ldu32 va)" "tys (stu32 va v)" "tys (to_user dst off bs)" "tys (from_user src off n)"
  unfolding ldu32_def stu32_def to_user_def from_user_def
  by (assumption | rule ty_first ty_intro ty_rules | simp)+

section \<open>Buffers and the log\<close>

lemma ty_slock [ty_intro]:
  "tys (set_slock l f)" "tys (initsleeplock l)"
  unfolding set_slock_def initsleeplock_def
  by (assumption | rule ty_first ty_intro ty_rules | simp)+

lemma ty_acquiresleep_loop [ty_intro]: "tys (acquiresleep_loop l)"
  unfolding acquiresleep_loop_def by (assumption | rule ty_first ty_intro ty_rules | simp)+

lemma ty_sleeplocks [ty_intro]:
  "tys (acquiresleep l)" "tys (releasesleep l)" "tys (holdingsleep l)"
  unfolding acquiresleep_def releasesleep_def holdingsleep_def
  by (assumption | rule ty_first ty_intro ty_rules | simp)+

lemma ty_buf_fields [ty_intro]:
  "tys (set_buf b f)" "tys (set_next b g)" "tys (set_prev h g)" "tys (bdata_put b e)" "tys (bdata_get b)"
  unfolding set_buf_def set_next_def set_prev_def bdata_put_def bdata_get_def
  by (assumption | rule ty_first ty_intro ty_rules | simp)+

lemma ty_link_front [ty_intro]: "tys (link_front b)"
  unfolding link_front_def by (assumption | rule ty_first ty_intro ty_rules | simp)+

lemma ty_iderw [ty_intro]: "tys (iderw b)"
  unfolding iderw_def by (assumption | rule ty_first ty_intro ty_rules | simp)+

lemma ty_bget [ty_intro]: "tys (bget dev n)"
  unfolding bget_def by (assumption | rule ty_first ty_intro ty_rules | simp)+

lemma ty_bread [ty_intro]: "tys (bread dev n)"
  unfolding bread_def by (assumption | rule ty_first ty_intro ty_rules | simp)+

lemma ty_bwrite [ty_intro]: "tys (bwrite b)"
  unfolding bwrite_def by (assumption | rule ty_first ty_intro ty_rules | simp)+

lemma ty_brelse [ty_intro]: "tys (brelse b)"
  unfolding brelse_def by (assumption | rule ty_first ty_intro ty_rules | simp)+

lemma ty_readsb [ty_intro]: "tys (readsb dev)"
  unfolding readsb_def by (assumption | rule ty_first ty_intro ty_rules | simp)+

lemma ty_install_block [ty_intro]: "tys (install_block j)"
  unfolding install_block_def by (assumption | rule ty_first ty_intro ty_rules | simp)+

lemma ty_install_trans [ty_intro]: "tys install_trans"
  unfolding install_trans_def by (assumption | rule ty_first ty_intro ty_rules | simp)+

lemma ty_read_block [ty_intro]: "tys (read_block d i)"
  unfolding read_block_def by (assumption | rule ty_first ty_intro ty_rules | simp)+

text \<open>The length read from the disk is tested right after it has been stored.\<close>

lemma ty_head_length:
  assumes "v \<le> int LOGSIZE \<Longrightarrow> ty Q (f v)"
  shows "ty Q (thenk (kput (\<lambda>s. s\<lparr>lh_n := v\<rparr>)) (bindk (kget lh_n) (\<lambda>n. if int LOGSIZE < n then kfault m else f n)))"
proof (cases "v \<le> int LOGSIZE")
  case True
  have "tys (kput (\<lambda>s. s\<lparr>lh_n := v\<rparr>))" by (rule ty_put, rule typed_fields(3)) (use True in simp_all)
  moreover have "thenk (kput (\<lambda>s. s\<lparr>lh_n := v\<rparr>)) (bindk (kget lh_n) (\<lambda>n. if int LOGSIZE < n then kfault m else f n))
      = thenk (kput (\<lambda>s. s\<lparr>lh_n := v\<rparr>)) (f v)" using True by (simp add: thenk_def bindk_def fun_eq_iff)
  ultimately show ?thesis using assms [OF True] by (metis ty_then)
next
  case False
  then show ?thesis by (simp add: ty_def)
qed

lemma ty_read_head [ty_intro]: "tys read_head"
  unfolding read_head_def by (assumption | rule ty_head_length ty_first ty_intro ty_rules | simp)+

lemma ty_write_head [ty_intro]: "tys write_head"
  unfolding write_head_def by (assumption | rule ty_first ty_intro ty_rules | simp)+

lemma ty_recover_from_log [ty_intro]: "tys recover_from_log"
  unfolding recover_from_log_def by (assumption | rule ty_first ty_intro ty_rules | simp)+

lemma ty_initlog [ty_intro]: "tys (initlog dev)"
  unfolding initlog_def by (assumption | rule ty_first ty_intro ty_rules | simp)+

lemma ty_begin_op_loop [ty_intro]: "tys begin_op_loop"
  unfolding begin_op_loop_def by (assumption | rule ty_first ty_intro ty_rules | simp)+

lemma ty_begin_op [ty_intro]: "tys begin_op"
  unfolding begin_op_def by (assumption | rule ty_first ty_intro ty_rules | simp)+

lemma ty_log_block [ty_intro]: "tys (log_block j)"
  unfolding log_block_def by (assumption | rule ty_first ty_intro ty_rules | simp)+

lemma ty_write_log [ty_intro]: "tys write_log"
  unfolding write_log_def by (assumption | rule ty_first ty_intro ty_rules | simp)+

lemma ty_commit [ty_intro]: "tys commit"
  unfolding commit_def by (assumption | rule ty_first ty_intro ty_rules | simp)+

lemma ty_end_op [ty_intro]: "tys end_op"
  unfolding end_op_def by (assumption | rule ty_first ty_intro ty_rules | simp)+

lemma ty_log_write [ty_intro]: "tys (log_write b)"
  unfolding log_write_def by (assumption | rule ty_first ty_intro ty_rules | simp)+

section \<open>Files\<close>

lemma ty_bzero [ty_intro]: "tys (bzero dev bno)"
  unfolding bzero_def by (assumption | rule ty_first ty_intro ty_rules | simp)+

lemma ty_balloc_loop [ty_intro]: "tys (balloc_loop dev bs)"
proof (induction bs)
  case Nil show ?case unfolding balloc_loop.simps by (rule ty_first ty_intro ty_rules | simp)+
next
  case (Cons x bs) show ?case unfolding balloc_loop.simps by (assumption | rule Cons.IH ty_first ty_intro ty_rules | simp)+
qed

lemma ty_balloc [ty_intro]: "tys (balloc dev)"
  unfolding balloc_def by (assumption | rule ty_first ty_intro ty_rules | simp)+

lemma ty_bfree [ty_intro]: "tys (bfree dev b)"
  unfolding bfree_def by (assumption | rule ty_first ty_intro ty_rules | simp)+

lemma ty_iinit [ty_intro]: "tys (iinit dev)"
  unfolding iinit_def by (assumption | rule ty_first ty_intro ty_rules | simp)+

lemma scan_typed:
  "scan P (icache s) = Some i \<Longrightarrow> well_typed s \<Longrightarrow> i < NINODE" "scan P' (ftable s) = Some i \<Longrightarrow> well_typed s \<Longrightarrow> i < NFILE"
  "scan P'' (procs s) = Some i \<Longrightarrow> well_typed s \<Longrightarrow> i < NPROC"
  using typedD(1,6,7) [of s] scan_SomeD(1) by metis+

lemma ty_iget: "ty (\<lambda>ip. ip < NINODE) (iget dev inum)"
  unfolding iget_def by (assumption | rule ty_first ty_intro ty_rules scan_typed(1) | simp)+

lemmas ty_iget_uses [ty_first] = ty_bind [OF ty_iget]
lemmas ty_iget_any [ty_intro] = ty_any [OF ty_iget]

lemma ty_ialloc_loop: "ty (\<lambda>ip. ip < NINODE) (ialloc_loop dev type ns)"
proof (induction ns)
  case Nil show ?case unfolding ialloc_loop.simps by (rule ty_first ty_intro ty_rules | simp)+
next
  case (Cons x ns) show ?case unfolding ialloc_loop.simps by (assumption | rule Cons.IH ty_iget ty_first ty_intro ty_rules | simp)+
qed

lemma ty_ialloc: "ty (\<lambda>ip. ip < NINODE) (ialloc dev type)"
  unfolding ialloc_def by (rule ty_first ty_ialloc_loop)+

lemmas ty_ialloc_uses [ty_first] = ty_bind [OF ty_ialloc]
lemmas ty_ialloc_any [ty_intro] = ty_any [OF ty_ialloc]

lemma ty_iupdate [ty_intro]: "tys (iupdate ip)"
  unfolding iupdate_def by (assumption | rule ty_first ty_intro ty_rules | simp)+

lemma ty_idup: "ty (\<lambda>jp. jp = ip) (idup ip)"
  unfolding idup_def by (assumption | rule ty_first ty_intro ty_rules | simp)+

lemmas ty_idup_uses [ty_first] = ty_bind [OF ty_idup]
lemmas ty_idup_any [ty_intro] = ty_any [OF ty_idup]

lemma length_from_dinode: "length (i_addrs (from_dinode (get_dinode off d) i)) = NDIRECT + 1"
  by (simp add: from_dinode_def get_dinode_def dec_dinode_def get32s_def)

lemma ty_ilock [ty_intro]: "tys (ilock ipo)"
  unfolding ilock_def by (assumption | rule ty_first ty_intro ty_rules length_from_dinode | simp)+

lemma ty_iunlock [ty_intro]: "tys (iunlock ipo)"
  unfolding iunlock_def by (assumption | rule ty_first ty_intro ty_rules | simp)+

lemma ty_bmap [ty_intro]: "tys (bmap ip bn)"
  unfolding bmap_def by (assumption | rule ty_first ty_intro ty_rules | simp)+

lemma ty_itrunc_direct [ty_intro]: "tys (itrunc_direct ip j)"
  unfolding itrunc_direct_def by (assumption | rule ty_first ty_intro ty_rules | simp)+

lemma ty_itrunc [ty_intro]: "tys (itrunc ip)"
  unfolding itrunc_def by (assumption | rule ty_first ty_intro ty_rules | simp)+

lemma ty_iput [ty_intro]: "tys (iput ip)"
  unfolding iput_def by (assumption | rule ty_first ty_intro ty_rules | simp)+

lemma ty_iunlockput [ty_intro]: "tys (iunlockput ip)"
  unfolding iunlockput_def by (assumption | rule ty_first ty_intro ty_rules | simp)+

lemma ty_stati [ty_intro]: "tys (stati ip)"
  unfolding stati_def by (assumption | rule ty_first ty_intro ty_rules | simp)+

lemma ty_uartputc [ty_intro]: "tys (uartputc c)"
  unfolding uartputc_def by (assumption | rule ty_first ty_intro ty_rules | simp)+

lemma ty_uartinit [ty_intro]: "tys (uartinit b)"
  unfolding uartinit_def by (assumption | rule ty_first ty_intro ty_rules | simp)+

text \<open>The cursor never leaves the screen.\<close>

lemma ty_cgaputc [ty_intro]: "tys (cgaputc c)"
proof -
  have r: "pos + (80 - pos mod 80) \<le> 24 * 80" if "pos < 24 * 80" for pos :: nat
  proof -
    have "pos div 80 < 24" using that by (simp add: less_mult_imp_div_less)
    moreover have "pos + (80 - pos mod 80) = 80 * (pos div 80) + 80" using mult_div_mod_eq [of 80 pos] mod_less_divisor [of 80 pos] by linarith
    ultimately show ?thesis by linarith
  qed
  have s: "(if 24 \<le> p div 80 then p - 80 else p) < 24 * 80" if "p \<le> 24 * 80" for p :: nat
    using that by (cases "p = 24 * 80") (auto simp: div_less_iff_less_mult)
  have c: "(if 24 \<le> p div 80 then p - 80 else p) < 24 * 80"
    if "pos < 24 * 80" "p = (if c = 10 then pos + (80 - pos mod 80) else if c = BACKSPACE then pos - 1 else pos + 1)" for p pos :: nat
    using r [of pos] that by (intro s) (auto split: if_splits)
  show ?thesis unfolding cgaputc_def Let_def
    by (rule ty_get) (rule ty_intro | rule ty_put, simp; fail | rule ty_put, rule typed_fields(7), assumption, rule c [OF typedD(10) refl], assumption)+
qed

lemma ty_consputc [ty_intro]: "tys (consputc c)"
  unfolding consputc_def by (assumption | rule ty_first ty_intro ty_rules | simp)+

lemma ty_printint [ty_intro]: "tys (printint xx base sign)"
  unfolding printint_def by (assumption | rule ty_first ty_intro ty_rules | simp)+

lemma ty_cprintf_loop [ty_intro]: "tys (cprintf_loop fmt args)"
proof (induction fmt args rule: cprintf_loop.induct)
  case (1 args) show ?case unfolding cprintf_loop.simps by (rule ty_intro)
next
  case (2 c cs args)
  show ?case unfolding cprintf_loop.simps by (rule ty_intro 2 ty_list ty_parg | assumption)+
qed

lemma ty_cprintf [ty_intro]: "tys (cprintf fmt args)"
  unfolding cprintf_def by (assumption | rule ty_first ty_intro ty_rules | simp)+

lemma ty_procdump_proc [ty_intro]: "tys (procdump_proc pcs i)"
  unfolding procdump_proc_def by (assumption | rule ty_first ty_intro ty_rules | simp)+

lemma ty_procdump [ty_intro]: "tys (procdump pcs)"
  unfolding procdump_def by (assumption | rule ty_first ty_intro ty_rules | simp)+

lemma ty_kill_line [ty_intro]: "tys (kill_line n)"
proof (induction n)
  case 0 show ?case unfolding kill_line.simps by (rule ty_first ty_intro ty_rules | simp)+
next
  case (Suc n) show ?case unfolding kill_line.simps by (assumption | rule Suc.IH ty_first ty_intro ty_rules | simp)+
qed

lemma ty_console_char [ty_intro]: "tys (console_char c)"
  unfolding console_char_def by (assumption | rule ty_first ty_intro ty_rules | simp)+

lemma ty_consoleintr [ty_intro]: "tys (consoleintr pcs cs)"
  unfolding consoleintr_def by (assumption | rule ty_first ty_intro ty_rules | simp)+

lemma ty_kbdintr [ty_intro]: "tys (kbdintr pcs)"
  unfolding kbdintr_def by (assumption | rule ty_first ty_intro ty_rules | simp)+

lemma ty_uartintr [ty_intro]: "tys (uartintr pcs)"
  unfolding uartintr_def by (assumption | rule ty_first ty_intro ty_rules | simp)+

lemma ty_console_done [ty_intro]: "tys (console_done ip r)"
  unfolding console_done_def by (assumption | rule ty_first ty_intro ty_rules | simp)+

lemma ty_consoleread_loop [ty_intro]:
  assumes d: "\<And>x y. tys (dst x y)"
  shows "tys (consoleread_loop ip dst target n)"
proof (induction n)
  case 0 show ?case unfolding consoleread_loop.simps by (rule ty_first ty_intro ty_rules | simp)+
next
  case (Suc n) show ?case unfolding consoleread_loop.simps by (assumption | rule Suc.IH d ty_first ty_intro ty_rules | simp)+
qed

lemma ty_consoleread [ty_intro]: "(\<And>x y. tys (dst x y)) \<Longrightarrow> tys (consoleread ip dst n)"
  unfolding consoleread_def by (rule ty_first ty_intro | assumption)+

lemma ty_consoleread_resume [ty_intro]: "(\<And>x y. tys (dst x y)) \<Longrightarrow> tys (consoleread_resume ip dst target n)"
  unfolding consoleread_resume_def by (rule ty_first ty_intro | assumption)+

lemma ty_consolewrite [ty_intro]: "(\<And>x y. tys (src x y)) \<Longrightarrow> tys (consolewrite ip src n)"
  unfolding consolewrite_def by (rule ty_first ty_intro | assumption)+

lemma ty_readi_loop [ty_intro]:
  assumes d: "\<And>x y. tys (dst x y)"
  shows "tys (readi_loop ip dst tot off n)"
  using d
proof (induction ip dst tot off n rule: readi_loop.induct)
  case (1 ip dst tot off n)
  show ?case by (subst readi_loop.simps) (rule "1.prems" "1.IH" ty_first ty_intro | assumption)+
qed

lemma ty_writei_loop [ty_intro]:
  assumes d: "\<And>x y. tys (src x y)"
  shows "tys (writei_loop ip src tot off n)"
  using d
proof (induction ip src tot off n rule: writei_loop.induct)
  case (1 ip src tot off n)
  show ?case by (subst writei_loop.simps) (rule "1.prems" "1.IH" ty_first ty_intro | assumption)+
qed

lemma ty_readi [ty_intro]: "(\<And>x y. tys (dst x y)) \<Longrightarrow> tys (readi ip dst off n)"
  unfolding readi_def by (rule ty_first ty_intro | assumption)+

lemma ty_writei [ty_intro]: "(\<And>x y. tys (src x y)) \<Longrightarrow> tys (writei ip src off n)"
  unfolding writei_def by (rule ty_first ty_intro | assumption | rule ty_iset, simp)+

lemma ty_local [ty_intro]:
  "tys (to_local off bs)" "tys (from_local bs off n)"
  unfolding to_local_def from_local_def
  by (assumption | rule ty_first ty_intro ty_rules | simp)+

lemma ty_dirlookup_loop: "ty (pred_option (\<lambda>r. fst r < NINODE)) (dirlookup_loop dp name offs)"
proof (induction offs)
  case Nil show ?case unfolding dirlookup_loop.simps by (rule ty_first ty_intro ty_rules | simp)+
next
  case (Cons x offs) show ?case unfolding dirlookup_loop.simps by (assumption | rule Cons.IH ty_first ty_intro ty_rules | simp)+
qed

lemma ty_dirlookup: "ty (pred_option (\<lambda>r. fst r < NINODE)) (dirlookup dp name)"
  unfolding dirlookup_def by (rule ty_first ty_dirlookup_loop ty_intro)+

lemmas ty_dirlookup_uses [ty_first] = ty_bind [OF ty_dirlookup]
lemmas ty_dirlookup_any [ty_intro] = ty_any [OF ty_dirlookup]

lemma ty_dirlink_loop [ty_intro]: "tys (dirlink_loop dp offs e)"
proof (induction offs)
  case Nil show ?case unfolding dirlink_loop.simps by (rule ty_first ty_intro ty_rules | simp)+
next
  case (Cons x offs) show ?case unfolding dirlink_loop.simps by (assumption | rule Cons.IH ty_first ty_intro ty_rules | simp)+
qed

lemma ty_dirlink [ty_intro]: "tys (dirlink dp name inum)"
  unfolding dirlink_def by (assumption | rule ty_first ty_intro ty_rules | simp)+

lemma ty_namex_loop: "ip < NINODE \<Longrightarrow> ty (pred_option (\<lambda>r. fst r < NINODE)) (namex_loop path par ip)"
proof (induction path par ip rule: namex_loop.induct)
  case (1 path par ip)
  show ?case by (subst namex_loop.simps) (assumption | rule 1 ty_first ty_intro ty_rules | use "1.prems" in simp)+
qed

lemma proc_typed:
  "cwd (proc_at s p) = Some d \<Longrightarrow> well_typed s \<Longrightarrow> p < NPROC \<Longrightarrow> d < NINODE"
  "ofile (proc_at s p) ! k = Some f \<Longrightarrow> well_typed s \<Longrightarrow> p < NPROC \<Longrightarrow> k < NOFILE \<Longrightarrow> f < NFILE"
  using proc_ty_fields(3,5) [OF typedD(5), of s p] by (metis option.pred_inject(2))+

lemma ty_idup_below: "ip < NINODE \<Longrightarrow> ty (\<lambda>jp. jp < NINODE) (idup ip)"
  by (rule ty_weaken [OF ty_idup]) simp

lemma ty_namex: "ty (pred_option (\<lambda>r. fst r < NINODE)) (namex path par)"
  unfolding namex_def
  by (rule ty_bind [where P = "\<lambda>ip. ip < NINODE"])
     (assumption | rule ty_iget ty_idup_below ty_first ty_namex_loop ty_intro proc_typed(1))+

lemmas ty_namex_uses [ty_first] = ty_bind [OF ty_namex]
lemmas ty_namex_any [ty_intro] = ty_any [OF ty_namex]

lemma ty_namei: "ty (pred_option (\<lambda>ip. ip < NINODE)) (namei path)"
  unfolding namei_def by (rule ty_first ty_ret | simp add: option.pred_map comp_def)+

lemmas ty_namei_uses [ty_first] = ty_bind [OF ty_namei]
lemmas ty_namei_any [ty_intro] = ty_any [OF ty_namei]

lemma ty_nameiparent: "ty (pred_option (\<lambda>r. fst r < NINODE)) (nameiparent path)"
  unfolding nameiparent_def by (rule ty_namex)

lemmas ty_nameiparent_uses [ty_first] = ty_bind [OF ty_nameiparent]
lemmas ty_nameiparent_any [ty_intro] = ty_any [OF ty_nameiparent]

lemma ty_pipeclose [ty_intro]: "tys (pipeclose p w)"
  unfolding pipeclose_def by (assumption | rule ty_first ty_intro ty_rules | simp)+

lemma ty_pipewrite_loop [ty_intro]:
  assumes d: "\<And>x y. tys (src x y)"
  shows "tys (pipewrite_loop p src n k)"
proof (induction k)
  case 0 show ?case unfolding pipewrite_loop.simps by (rule ty_first ty_intro ty_rules | simp)+
next
  case (Suc k) show ?case unfolding pipewrite_loop.simps by (assumption | rule Suc.IH d ty_first ty_intro ty_rules | simp)+
qed

lemma ty_piperead_copy [ty_intro]:
  assumes d: "\<And>x y. tys (dst x y)"
  shows "tys (piperead_copy p dst n k)"
proof (induction k)
  case 0 show ?case unfolding piperead_copy.simps by (rule ty_first ty_intro ty_rules | simp)+
next
  case (Suc k) show ?case unfolding piperead_copy.simps by (assumption | rule Suc.IH d ty_first ty_intro ty_rules | simp)+
qed

lemma ty_piperead_loop [ty_intro]: "(\<And>x y. tys (dst x y)) \<Longrightarrow> tys (piperead_loop p dst n)"
  unfolding piperead_loop_def by (rule ty_first ty_intro | assumption)+

lemma ty_pipewrite [ty_intro]: "(\<And>x y. tys (src x y)) \<Longrightarrow> tys (pipewrite p src n)"
  unfolding pipewrite_def by (rule ty_first ty_intro | assumption)+

lemma ty_piperead [ty_intro]: "(\<And>x y. tys (dst x y)) \<Longrightarrow> tys (piperead p dst n)"
  unfolding piperead_def by (rule ty_first ty_intro | assumption)+

lemma ty_pipewrite_resume [ty_intro]: "(\<And>x y. tys (src x y)) \<Longrightarrow> tys (pipewrite_resume p src n k)"
  unfolding pipewrite_resume_def by (rule ty_first ty_intro | assumption)+

lemma ty_piperead_resume [ty_intro]: "(\<And>x y. tys (dst x y)) \<Longrightarrow> tys (piperead_resume p dst n)"
  unfolding piperead_resume_def by (rule ty_first ty_intro | assumption)+

lemma file_ty_upd [simp]:
  "file_ty (x\<lparr>f_ref := n\<rparr>) = file_ty x" "file_ty (x\<lparr>f_off := o'\<rparr>) = file_ty x" "file_ty (x\<lparr>f_ref := n, f_type := FD_NONE\<rparr>)"
  "file_ty (pipe_end p w x)"
  by (simp_all add: file_ty_def pipe_end_def)

lemma ty_filealloc: "ty (pred_option (\<lambda>f. f < NFILE)) filealloc"
  unfolding filealloc_def by (assumption | rule ty_first ty_intro ty_rules scan_typed(2) option.pred_inject(2) [THEN iffD2] | simp)+

lemmas ty_filealloc_uses [ty_first] = ty_bind [OF ty_filealloc]
lemmas ty_filealloc_any [ty_intro] = ty_any [OF ty_filealloc]

lemma ty_filedup: "ty (\<lambda>g. g = f) (filedup f)"
  unfolding filedup_def by (assumption | rule ty_first ty_intro ty_rules | simp)+

lemmas ty_filedup_uses [ty_first] = ty_bind [OF ty_filedup]
lemmas ty_filedup_any [ty_intro] = ty_any [OF ty_filedup]

lemma ty_fileclose [ty_intro]: "tys (fileclose f)"
  unfolding fileclose_def by (assumption | rule ty_first ty_intro ty_rules | simp)+

lemma ty_filestat [ty_intro]: "tys (filestat f)"
  unfolding filestat_def by (assumption | rule ty_first ty_intro ty_rules | simp)+

lemma ty_fileread [ty_intro]: "tys (fileread f addr n)"
  unfolding fileread_def by (assumption | rule ty_first ty_intro ty_rules | simp)+

lemma ty_filewrite_chunk [ty_intro]: "tys (filewrite_chunk f ip addr i n1)"
  unfolding filewrite_chunk_def by (assumption | rule ty_first ty_intro ty_rules | simp)+

lemma ty_filewrite_loop [ty_intro]: "tys (filewrite_loop f ip addr i n)"
proof (induction f ip addr i n rule: filewrite_loop.induct)
  case (1 f ip addr i n)
  show ?case by (subst filewrite_loop.simps) (rule 1 ty_first ty_intro | assumption | rule sym, assumption | rule ty_put, simp)+
qed

lemma ty_filewrite [ty_intro]: "tys (filewrite f addr n)"
  unfolding filewrite_def by (assumption | rule ty_first ty_intro ty_rules | simp)+

lemma ty_close_opt [ty_intro]: "tys (close_opt fo)"
  unfolding close_opt_def by (assumption | rule ty_first ty_intro ty_rules | simp)+

lemma ty_pipealloc: "ty (pred_option (\<lambda>(a, b). a < NFILE \<and> b < NFILE)) pipealloc"
proof -
  have f1: "ty (pred_option (\<lambda>f. f < NFILE)) (case f0 of None \<Rightarrow> kret None | Some _ \<Rightarrow> filealloc)" for f0 :: "nat option"
    by (rule ty_intro ty_filealloc ty_ret | simp)+
  show ?thesis unfolding pipealloc_def
    by (rule ty_bind [OF ty_filealloc], rule ty_bind [OF f1]) (assumption | rule ty_first ty_intro ty_rules | simp)+
qed

lemmas ty_pipealloc_uses [ty_first] = ty_bind [OF ty_pipealloc]
lemmas ty_pipealloc_any [ty_intro] = ty_any [OF ty_pipealloc]

section \<open>Processes, system calls and traps\<close>

lemma ty_allocproc: "ty (pred_option (\<lambda>p. p < NPROC)) (allocproc b)"
  unfolding allocproc_def
  by (assumption | rule ty_first ty_intro ty_rules scan_typed(3) typedD(4) | simp add: typedD(4) scan_typed(3))+

lemmas ty_allocproc_uses [ty_first] = ty_bind [OF ty_allocproc]
lemmas ty_allocproc_any [ty_intro] = ty_any [OF ty_allocproc]

lemma ty_userinit [ty_intro]: "tys (userinit b code)"
  unfolding userinit_def by (assumption | rule ty_first ty_intro ty_rules | simp)+

lemma ty_growproc [ty_intro]: "tys (growproc n)"
  unfolding growproc_def by (assumption | rule ty_first ty_intro ty_rules | simp)+

lemma ty_fork_files [ty_intro]: "p < NPROC \<Longrightarrow> tys (fork_files p np)"
  unfolding fork_files_def
proof (rule ty_each)
  fix i assume "p < NPROC" "i \<in> set [0..<NOFILE]"
  then show "tys (bindk (kget (\<lambda>s. ofile (proc_at s p) ! i)) (\<lambda>fo. case fo of None \<Rightarrow> kret () | Some f \<Rightarrow> bindk (filedup f) (\<lambda>g.
      set_proc np (\<lambda>q. q\<lparr>ofile := (ofile q)[i := Some g]\<rparr>))))"
    by - (rule ty_first ty_intro ty_set_proc | simp add: proc_typed(2))+
qed

lemma ty_fork [ty_intro]: "tys (fork b)"
  unfolding fork_def
  by (assumption | rule ty_first ty_intro ty_rules | simp add: proc_typed(1) proc_ty_fields typedD(5))+

lemma ty_exit_files [ty_intro]: "tys (exit_files p)"
  unfolding exit_files_def by (assumption | rule ty_first ty_intro ty_rules | simp)+

lemma ty_reparent [ty_intro]: "tys (reparent p)"
  unfolding reparent_def by (assumption | rule ty_first ty_intro ty_rules | simp add: typedD(3))+

lemma ty_exit [ty_intro]: "tys exit"
  unfolding exit_def by (assumption | rule ty_first ty_intro ty_rules | simp)+

lemma ty_reap [ty_intro]: "tys (reap i)"
  unfolding reap_def by (assumption | rule ty_first ty_intro ty_rules | simp)+

lemma ty_wait_loop [ty_intro]: "(\<And>i. tys (tz i)) \<Longrightarrow> tys (wait_loop tz)"
  unfolding wait_loop_def by (rule ty_first ty_intro | assumption)+

lemma ty_wait [ty_intro]: "tys wait"
  unfolding wait_def by (assumption | rule ty_first ty_intro ty_rules | simp)+

lemma ty_wait_resume [ty_intro]: "tys wait_resume"
  unfolding wait_resume_def by (assumption | rule ty_first ty_intro ty_rules | simp)+

lemma ty_reap2 [ty_intro]: "tys (reap2 are aru ast i)"
  unfolding reap2_def by (assumption | rule ty_first ty_intro ty_rules | simp)+

lemma ty_wait2 [ty_intro]: "tys (wait2 are aru ast)"
  unfolding wait2_def by (assumption | rule ty_first ty_intro ty_rules | simp)+

lemma ty_wait2_resume [ty_intro]: "tys (wait2_resume are aru ast)"
  unfolding wait2_resume_def by (assumption | rule ty_first ty_intro ty_rules | simp)+

lemma ty_loaduvm_loop [ty_intro]: "tys (loaduvm_loop pd addr ip off n i)"
proof (induction pd addr ip off n i rule: loaduvm_loop.induct)
  case (1 pd addr ip off n i)
  show ?case by (subst loaduvm_loop.simps) (rule 1 ty_first ty_intro | assumption | rule sym, assumption | rule ty_put, simp)+
qed

lemma ty_loaduvm [ty_intro]: "tys (loaduvm pd addr ip off n)"
  unfolding loaduvm_def by (assumption | rule ty_first ty_intro ty_rules | simp)+

lemma ty_exec_segment [ty_intro]: "tys (exec_segment pd ip off usz)"
  unfolding exec_segment_def by (assumption | rule ty_first ty_intro ty_rules | simp)+

lemma ty_exec_segments [ty_intro]: "tys (exec_segments pd ip offs usz)"
proof (induction offs arbitrary: usz)
  case Nil show ?case unfolding exec_segments.simps by (rule ty_first ty_intro ty_rules | simp)+
next
  case (Cons x offs) show ?case unfolding exec_segments.simps by (assumption | rule Cons.IH ty_first ty_intro ty_rules | simp)+
qed

lemma ty_exec_args [ty_intro]: "tys (exec_args pd argc sp args)"
proof (induction args arbitrary: argc sp)
  case Nil show ?case unfolding exec_args.simps by (rule ty_first ty_intro ty_rules | simp)+
next
  case (Cons x args) show ?case unfolding exec_args.simps by (assumption | rule Cons.IH ty_first ty_intro ty_rules | simp)+
qed

lemma ty_exec_bad [ty_intro]: "tys (exec_bad pd ipo)"
  unfolding exec_bad_def by (assumption | rule ty_first ty_intro ty_rules | simp)+

lemma ty_exec_stack [ty_intro]: "tys (exec_stack pd pc usz path argv)"
  unfolding exec_stack_def by (assumption | rule ty_first ty_intro ty_rules | simp)+

lemma ty_exec [ty_intro]: "tys (exec path argv)"
  unfolding exec_def by (assumption | rule ty_first ty_intro ty_rules | simp)+

lemma ty_fetchint: "ty (pred_option int32) (fetchint a)"
  unfolding fetchint_def by (assumption | rule ty_first ty_intro ty_rules | simp)+

lemmas ty_fetchint_uses [ty_first] = ty_bind [OF ty_fetchint]
lemmas ty_fetchint_any [ty_intro] = ty_any [OF ty_fetchint]

lemma ty_fetchstr_loop [ty_intro]: "tys (fetchstr_loop a ep)"
proof (induction a ep rule: fetchstr_loop.induct)
  case (1 a ep)
  show ?case by (subst fetchstr_loop.simps) (rule 1 ty_first ty_intro | assumption | rule sym, assumption | rule ty_put, simp)+
qed

lemma ty_fetchstr [ty_intro]: "tys (fetchstr a)"
  unfolding fetchstr_def by (assumption | rule ty_first ty_intro ty_rules | simp)+

lemma ty_argint: "ty (pred_option int32) (argint n)"
  unfolding argint_def by (rule ty_first ty_fetchint)+

lemmas ty_argint_uses [ty_first] = ty_bind [OF ty_argint]
lemmas ty_argint_any [ty_intro] = ty_any [OF ty_argint]

lemma ty_argptr [ty_intro]: "tys (argptr n len)"
  unfolding argptr_def by (assumption | rule ty_first ty_intro ty_rules | simp)+

lemma ty_argstr [ty_intro]: "tys (argstr n)"
  unfolding argstr_def by (assumption | rule ty_first ty_intro ty_rules | simp)+

lemma ty_with_arg: "ty (pred_option P) f \<Longrightarrow> (\<And>v. P v \<Longrightarrow> tys (g v)) \<Longrightarrow> tys (with_arg f g)"
  unfolding with_arg_def by (rule ty_bind, assumption, rule ty_intro, rule ty_intro, simp)

lemma ty_with_arg_any [ty_intro]: "tys f \<Longrightarrow> (\<And>v. tys (g v)) \<Longrightarrow> tys (with_arg f g)"
  unfolding with_arg_def by (rule ty_intro | assumption)+

lemma ty_argfd: "ty (pred_option (\<lambda>(fd, f). f < NFILE)) (argfd n)"
proof -
  have "pred_option (\<lambda>(fd, f). f < NFILE) (map_option (Pair (nat fd)) (ofile (proc_at s p) ! nat fd))"
    if "well_typed s" "p < NPROC" "\<not> (fd < 0 \<or> int NOFILE \<le> fd)" for s :: "'z kfile_scheme" and p fd
    using that proc_typed(2) [of s p "nat fd"] by (cases "ofile (proc_at s p) ! nat fd") auto
  then show ?thesis unfolding argfd_def by - (assumption | rule ty_first ty_intro ty_ret | simp)+
qed

lemma ty_fdalloc [ty_intro]: "f < NFILE \<Longrightarrow> tys (fdalloc f)"
  unfolding fdalloc_def by (assumption | rule ty_first ty_intro ty_rules | simp)+

lemma ty_set_ofile [ty_intro]: "tys (set_ofile fd None)"
  unfolding set_ofile_def by (assumption | rule ty_first ty_intro ty_rules | simp)+

lemmas ty_args [ty_first] = ty_with_arg [OF ty_argint] ty_with_arg [OF ty_argfd] ty_with_arg [OF ty_pipealloc]
lemmas ty_argfd_any [ty_intro] = ty_any [OF ty_argfd]

lemma ty_sys_sleep_loop [ty_intro]: "tys (sys_sleep_loop t n)"
  unfolding sys_sleep_loop_def by (assumption | rule ty_first ty_intro ty_rules | simp)+

lemma ty_sys_fork [ty_intro]: "tys (sys_fork b)"
  unfolding sys_fork_def by (assumption | rule ty_first ty_intro ty_rules | simp)+

lemma ty_sys_exit [ty_intro]: "tys sys_exit"
  unfolding sys_exit_def by (assumption | rule ty_first ty_intro ty_rules | simp)+

lemma ty_sys_wait [ty_intro]: "tys sys_wait"
  unfolding sys_wait_def by (assumption | rule ty_first ty_intro ty_rules | simp)+

lemma ty_sys_kill [ty_intro]: "tys sys_kill"
  unfolding sys_kill_def by (assumption | rule ty_first ty_intro ty_rules | simp)+

lemma ty_sys_wait2 [ty_intro]: "tys sys_wait2"
  unfolding sys_wait2_def by (assumption | rule ty_first ty_intro ty_rules | simp)+

lemma ty_sys_getpid [ty_intro]: "tys sys_getpid"
  unfolding sys_getpid_def by (assumption | rule ty_first ty_intro ty_rules | simp)+

lemma ty_sys_sbrk [ty_intro]: "tys sys_sbrk"
  unfolding sys_sbrk_def by (assumption | rule ty_first ty_intro ty_rules | simp)+

lemma ty_sys_sleep [ty_intro]: "tys sys_sleep"
  unfolding sys_sleep_def by (assumption | rule ty_first ty_intro ty_rules | simp)+

lemma ty_sys_sleep_resume [ty_intro]: "tys (sys_sleep_resume t n)"
  unfolding sys_sleep_resume_def by (assumption | rule ty_first ty_intro ty_rules | simp)+

lemma ty_sys_uptime [ty_intro]: "tys sys_uptime"
  unfolding sys_uptime_def by (assumption | rule ty_first ty_intro ty_rules | simp)+

lemma ty_sys_trace [ty_intro]: "tys sys_trace"
  unfolding sys_trace_def by (assumption | rule ty_first ty_intro ty_rules | simp)+

lemma ty_sys_cs [ty_intro]: "tys sys_cs"
  unfolding sys_cs_def by (assumption | rule ty_first ty_intro ty_rules | simp)+

lemma ty_sys_set_tickets [ty_intro]: "tys sys_set_tickets"
  unfolding sys_set_tickets_def by (assumption | rule ty_first ty_intro ty_rules | simp)+

lemma ty_sys_set_priority [ty_intro]: "tys sys_set_priority"
  unfolding sys_set_priority_def by (assumption | rule ty_first ty_set_priority)+

lemma ty_sys_yield [ty_intro]: "tys sys_yield"
  unfolding sys_yield_def by (assumption | rule ty_first ty_intro ty_rules | simp)+

lemma ty_sys_dup [ty_intro]: "tys sys_dup"
  unfolding sys_dup_def by (assumption | rule ty_first ty_intro ty_rules | simp)+

lemma ty_sys_read [ty_intro]: "tys sys_read"
  unfolding sys_read_def by (assumption | rule ty_first ty_intro ty_rules | simp)+

lemma ty_sys_write [ty_intro]: "tys sys_write"
  unfolding sys_write_def by (assumption | rule ty_first ty_intro ty_rules | simp)+

lemma ty_sys_close [ty_intro]: "tys sys_close"
  unfolding sys_close_def by (assumption | rule ty_first ty_intro ty_rules | simp)+

lemma ty_store_stat [ty_intro]: "tys (store_stat a st)"
  unfolding store_stat_def by (assumption | rule ty_first ty_intro ty_rules | simp)+

lemma ty_sys_fstat [ty_intro]: "tys sys_fstat"
  unfolding sys_fstat_def by (assumption | rule ty_first ty_intro ty_rules | simp)+

lemma ty_link_bad [ty_intro]: "tys (link_bad ip)"
  unfolding link_bad_def by (assumption | rule ty_first ty_intro ty_rules | simp)+

lemma ty_sys_link [ty_intro]: "tys sys_link"
  unfolding sys_link_def by (assumption | rule ty_first ty_intro ty_rules | simp)+

lemma ty_isdirempty_loop [ty_intro]: "tys (isdirempty_loop dp offs)"
proof (induction offs)
  case Nil show ?case unfolding isdirempty_loop.simps by (rule ty_first ty_intro ty_rules | simp)+
next
  case (Cons x offs) show ?case unfolding isdirempty_loop.simps by (assumption | rule Cons.IH ty_first ty_intro ty_rules | simp)+
qed

lemma ty_isdirempty [ty_intro]: "tys (isdirempty dp)"
  unfolding isdirempty_def by (assumption | rule ty_first ty_intro ty_rules | simp)+

lemma ty_unlink_entry [ty_intro]: "tys (unlink_entry dp ip off)"
  unfolding unlink_entry_def by (assumption | rule ty_first ty_intro ty_rules | simp)+

lemma ty_sys_unlink [ty_intro]: "tys sys_unlink"
  unfolding sys_unlink_def by (assumption | rule ty_first ty_intro ty_rules | simp)+

lemma ty_create: "ty (pred_option (\<lambda>ip. ip < NINODE)) (create path type major minor)"
  unfolding create_def
  by (assumption | rule ty_first ty_intro ty_rules | simp)+

lemmas ty_create_uses [ty_first] = ty_bind [OF ty_create]
lemmas ty_create_any [ty_intro] = ty_any [OF ty_create]

lemma ty_open_file [ty_intro]: "ip < NINODE \<Longrightarrow> tys (open_file ip omode)"
proof -
  assume ip: "ip < NINODE"
  have fd: "tys (case fo of None \<Rightarrow> kret None | Some f \<Rightarrow> fdalloc f)" if "pred_option (\<lambda>f. f < NFILE) fo" for fo
    using that by (intro ty_cases ty_simple ty_fdalloc) simp
  show ?thesis unfolding open_file_def
    by (rule ty_bind [OF ty_filealloc], rule ty_bind [OF fd], assumption)
       (assumption | rule ty_first ty_intro ty_rules | simp add: file_ty_def ip)+
qed

lemma ty_sys_open [ty_intro]: "tys sys_open"
  unfolding sys_open_def by (assumption | rule ty_first ty_intro | simp)+

lemma ty_sys_mkdir [ty_intro]: "tys sys_mkdir"
  unfolding sys_mkdir_def by (assumption | rule ty_first ty_intro ty_rules | simp)+

lemma ty_sys_mknod [ty_intro]: "tys sys_mknod"
  unfolding sys_mknod_def by (assumption | rule ty_first ty_intro ty_rules | simp)+

lemma ty_sys_chdir [ty_intro]: "tys sys_chdir"
proof -
  have "ty (pred_option (\<lambda>ip. ip < NINODE)) (case po of None \<Rightarrow> kret None | Some path \<Rightarrow> namei path)" for po
    by (rule ty_cases ty_ret ty_namei | simp)+
  note c = ty_bind [OF this]
  show ?thesis unfolding sys_chdir_def by (assumption | rule c ty_first ty_intro ty_rules | simp)+
qed

lemma ty_exec_argv [ty_intro]: "tys (exec_argv uargv i k)"
proof (induction k arbitrary: i)
  case 0 show ?case unfolding exec_argv.simps by (rule ty_first ty_intro ty_rules | simp)+
next
  case (Suc k) show ?case unfolding exec_argv.simps by (assumption | rule Suc.IH ty_first ty_intro ty_rules | simp)+
qed

lemma ty_sys_exec [ty_intro]: "tys sys_exec"
  unfolding sys_exec_def by (assumption | rule ty_first ty_intro ty_rules | simp)+

lemma ty_sys_pipe [ty_intro]: "tys sys_pipe"
proof -
  have "tys (case fd0 of None \<Rightarrow> kret None | Some _ \<Rightarrow> fdalloc wf)" if "wf < NFILE" for fd0 :: "nat option" and wf
    using that by (intro ty_cases ty_simple ty_fdalloc)
  note c = this
  show ?thesis unfolding sys_pipe_def by (assumption | rule ty_first c ty_intro | clarsimp)+
qed

lemma ty_syscalls: "e \<in> set (syscalls b) \<Longrightarrow> e \<noteq> None \<Longrightarrow> tys (fst (the e))"
  by (auto simp: syscalls_def ty_intro)

lemma ty_set_eax [ty_intro]: "tys (set_eax p v)"
  unfolding set_eax_def by (assumption | rule ty_first ty_intro ty_rules | simp)+

lemma ty_syscallname [ty_intro]: "tys (syscallname b num)"
  unfolding syscallname_def by (assumption | rule ty_first ty_intro ty_rules | simp)+

lemma ty_syscall [ty_intro]: "tys (syscall b :: ('z kfile_scheme, unit) k)"
proof -
  let ?t = "syscalls b :: (('z kfile_scheme, int) k \<times> string) option list"
  have "tys (if 0 < num \<and> num < int (length ?t) \<and> ?t ! nat num \<noteq> None
      then bindk (fst (the (?t ! nat num))) (set_eax p)
      else bindk (kget (\<lambda>s. proc_at s p)) (\<lambda>q.
        thenk (cprintf (''%d %s: unknown sys call %d'' @ newline) [AInt (pid q), AStr (Some (codes (pname q))), AInt num])
        (set_eax p (- 1))))" for num p
  proof (rule ty_cases(1))
    assume a: "0 < num \<and> num < int (length ?t) \<and> ?t ! nat num \<noteq> None"
    then have "?t ! nat num \<in> set ?t" by (intro nth_mem) (simp add: nat_less_iff)
    then show "tys (bindk (fst (the (?t ! nat num))) (set_eax p))"
      using a by (intro ty_bind_any ty_syscalls ty_set_eax) auto
  qed (rule ty_first ty_intro)+
  note c = this
  show ?thesis unfolding syscall_def by (rule c ty_first ty_intro)+
qed

lemma ty_timer_tick [ty_intro]: "tys timer_tick"
  unfolding timer_tick_def by (assumption | rule ty_first ty_intro ty_rules | simp)+

lemma ty_exit_if_killed [ty_intro]: "tys (exit_if_killed u)"
  unfolding exit_if_killed_def by (assumption | rule ty_first ty_intro ty_rules | simp)+

lemma ty_trap_switch [ty_intro]: "tys (trap_switch pcs cpu cr2 f u)"
  unfolding trap_switch_def by (assumption | rule ty_first ty_intro ty_rules | simp)+

lemma ty_trap [ty_intro]: "tys (trap b pcs cpu cr2 f)"
  unfolding trap_def by (assumption | rule ty_first ty_intro ty_rules | simp)+

lemma ty_trap_resume [ty_intro]: "tys (trap_resume f)"
  unfolding trap_resume_def by (assumption | rule ty_first ty_intro ty_rules | simp)+

lemma ty_acquiresleep_resume [ty_intro]: "tys (acquiresleep_resume l)"
  unfolding acquiresleep_resume_def by (assumption | rule ty_first ty_intro ty_rules | simp)+

lemma ty_begin_op_resume [ty_intro]: "tys begin_op_resume"
  unfolding begin_op_resume_def by (assumption | rule ty_first ty_intro ty_rules | simp)+

lemma ty_forkret [ty_intro]: "tys (forkret :: ('z kproc_scheme, unit) k)"
proof -
  have f: "well_typed (s\<lparr>fork_first := b\<rparr>) = well_typed s" for s :: "'z kproc_scheme" and b by (simp add: well_typed_def)
  show ?thesis unfolding forkret_def by (rule ty_first ty_intro | rule ty_put, simp add: f)+
qed

section \<open>The schedulers\<close>

lemma lottery_scan_less: "lottery_scan w a ps = Some i \<Longrightarrow> i < length ps"
  by (induction w a ps arbitrary: i rule: lottery_scan.induct) (auto split: if_splits)

lemma highest_less: "i < length ps \<Longrightarrow> highest ps i < length ps"
  unfolding highest_def by (rule fold_invariant [where Q = "\<lambda>j. j < length ps"]) auto

lemma ty_run_rng [ty_intro]: "tys (run_rng f)"
  by (rule tyI) (auto simp: run_rng_def split: res.splits)

lemma ty_switchkvm [ty_intro]: "tys switchkvm"
  unfolding switchkvm_def by (rule ty_put) simp

lemma ty_dispatch: "i < NPROC \<Longrightarrow> tys (lottery_dispatch i)" "i < NPROC \<Longrightarrow> tys (prio_dispatch i)"
  unfolding lottery_dispatch_def prio_dispatch_def by (assumption | rule ty_first ty_intro ty_rules | simp)+

lemma ty_lottery_round [ty_intro]: "tys (lottery_round found)"
proof -
  have "tys (lottery_dispatch i)" if "lottery_scan w a (procs s) = Some i" "well_typed s" for w a i s
    using ty_dispatch(1) lottery_scan_less [OF that(1)] typedD(1) [OF that(2)] by simp
  note c = this
  show ?thesis unfolding lottery_round_def by (assumption | rule c ty_first ty_intro | rule ty_put, simp)+
qed

lemma ty_set_max_time [ty_intro]: "tys set_max_time"
  unfolding set_max_time_def by (assumption | rule ty_first ty_intro ty_set_proc proc_ty_upd int32_simps int32_idiv)+

lemma ty_prio_from: "\<forall>j \<in> set js. j < NPROC \<Longrightarrow> tys (prio_from js :: ('z kfile_scheme, nat option) k)"
proof (induction js)
  case Nil
  show ?case unfolding prio_from.simps by (rule ty_intro)
next
  case (Cons j js)
  have "tys (prio_dispatch (highest (procs s) j))" if "well_typed s" for s :: "'z kfile_scheme"
    using ty_dispatch(2) highest_less [of j "procs s"] typedD(1) [OF that] Cons.prems by simp
  note c = this
  have "tys (prio_from js :: ('z kfile_scheme, nat option) k)" using Cons by simp
  note d = this
  show ?case unfolding prio_from.simps by (assumption | rule c d ty_first ty_intro ty_rules | simp)+
qed

lemma ty_prio_scan [ty_intro]: "tys (prio_scan j)"
  unfolding prio_scan_def by (rule ty_bind_any, rule ty_prio_from) (rule ballI, simp, (rule ty_intro)+)

lemma ty_rounds [ty_intro]: "tys prio_round" "tys (prio_back h)" "tys lottery_back"
  unfolding prio_round_def prio_back_def lottery_back_def by (assumption | rule ty_first ty_intro ty_rules | simp)+

section \<open>The machine\<close>

text \<open>A call has returned or given up the CPU in the state \<open>t\<close>.\<close>

definition leads :: "('s, 'a) k \<Rightarrow> 's \<Rightarrow> 's \<Rightarrow> bool" where
  "leads f s t \<longleftrightarrow> (\<exists>x. f s = Ok x t) \<or> f s = Block t"

lemma ty_leads: "leads f s t \<Longrightarrow> well_typed s \<Longrightarrow> tys f \<Longrightarrow> well_typed t"
  unfolding leads_def using tyD [of "\<lambda>_. True" f s] by blast

text \<open>What can happen next: the first process is made, a trap, a turn of a scheduler, or a process goes on where it slept.\<close>

inductive reached :: "build \<Rightarrow> 'z kproc_scheme \<Rightarrow> 'z kproc_scheme \<Rightarrow> bool" for b s0 where
  boot: "reached b s0 s0"
| first: "reached b s0 s \<Longrightarrow> leads (userinit b code) s t \<Longrightarrow> reached b s0 t"
| trap: "reached b s0 s \<Longrightarrow> leads (trap b pcs cpu cr2 f) s t \<Longrightarrow> reached b s0 t"
| lottery: "reached b s0 s \<Longrightarrow> leads (lottery_round found) s t \<Longrightarrow> reached b s0 t"
| lottery_back: "reached b s0 s \<Longrightarrow> leads lottery_back s t \<Longrightarrow> reached b s0 t"
| prio: "reached b s0 s \<Longrightarrow> leads prio_round s t \<Longrightarrow> reached b s0 t"
| prio_back: "reached b s0 s \<Longrightarrow> leads (prio_back h) s t \<Longrightarrow> reached b s0 t"
| forkret: "reached b s0 s \<Longrightarrow> leads forkret s t \<Longrightarrow> reached b s0 t"
| yielded: "reached b s0 s \<Longrightarrow> leads (trap_resume f) s t \<Longrightarrow> reached b s0 t"
| sleeplock: "reached b s0 s \<Longrightarrow> leads (acquiresleep_resume l) s t \<Longrightarrow> reached b s0 t"
| log: "reached b s0 s \<Longrightarrow> leads begin_op_resume s t \<Longrightarrow> reached b s0 t"
| console: "reached b s0 s \<Longrightarrow> leads (consoleread_resume ip (to_user a) target n) s t \<Longrightarrow> reached b s0 t"
| console_local: "reached b s0 s \<Longrightarrow> leads (consoleread_resume ip to_local target n) s t \<Longrightarrow> reached b s0 t"
| pipewrite: "reached b s0 s \<Longrightarrow> leads (pipewrite_resume p (from_user a) n k) s t \<Longrightarrow> reached b s0 t"
| piperead: "reached b s0 s \<Longrightarrow> leads (piperead_resume p (to_user a) m) s t \<Longrightarrow> reached b s0 t"
| wait: "reached b s0 s \<Longrightarrow> leads wait_resume s t \<Longrightarrow> reached b s0 t"
| wait2: "reached b s0 s \<Longrightarrow> leads (wait2_resume are aru ast) s t \<Longrightarrow> reached b s0 t"
| slept: "reached b s0 s \<Longrightarrow> leads (sys_sleep_resume t0 m) s t \<Longrightarrow> reached b s0 t"

text \<open>C3: the kernel state keeps its types. From a state in which every table has its size, every stored index (open files, working
  directories, parents, inodes of files, the running process) points into its table and every \<open>int\<close> of a process is a 32-bit number, no
  sequence of traps, scheduler turns and resumed operations, whatever system calls and arguments they
  carry, leads to a state in which this is not so; the log header stays within its array and the cursor on the screen.\<close>

theorem kernel_typed:
  assumes "well_typed s0" "reached b s0 s"
  shows "well_typed s"
  using assms(2) by (induction rule: reached.induct) (rule assms(1), (erule ty_leads, assumption, (rule ty_intro)+)+)

theorem kernel_typed_witness:
  "\<exists>s. reached LOTTERY (kfile.extend ((boot_kfile demo_disk)\<lparr>procs := (zero_proc\<lparr>state := RUNNING, pid := 1\<rparr>) # replicate 63 zero_proc\<rparr>)
       \<lparr>fork_first = True\<rparr>) s \<and> ticks s = 1 \<and> well_typed s"
proof -
  let ?k = "(boot_kfile demo_disk)\<lparr>procs := (zero_proc\<lparr>state := RUNNING, pid := 1\<rparr>) # replicate 63 zero_proc\<rparr>"
  let ?s = "kfile.extend ?k \<lparr>fork_first = True\<rparr>" and ?f = "zero_tf\<lparr>tf_trapno := 32\<rparr>"
  have s: "held ?s = []" "cur ?s = Some 0" "procs ?s = (zero_proc\<lparr>state := RUNNING, pid := 1\<rparr>) # replicate 63 zero_proc" "ticks ?s = 0"
    by (simp_all add: boot_defs kfile.defs)
  have q: "proc_at ?s 0 = zero_proc\<lparr>state := RUNNING, pid := 1\<rparr>" "length (procs ?s) = 64" by (simp_all add: s(3))
  have z: "timeslice zero_proc = 0" "\<not> killed zero_proc" by (simp_all add: zero_proc_def)
  have t: "trap LOTTERY (\<lambda>_. []) 0 0 ?f ?s = Ok () (sliced 0 1 (ticked ?s))"
    by (rule trap_timer_run [OF s(1,2)]) (simp_all add: q z zero_tf_def s32_def)
  have "well_typed ?s" by (simp add: well_typed_def boot_defs kfile.defs proc_ty_def zero_proc_def file_ty_def zero_file_def zero_inode_def NPROC_def NINODE_def NFILE_def int32_def)
  moreover have r: "reached LOTTERY ?s (sliced 0 1 (ticked ?s))" using reached.trap [OF reached.boot] t unfolding leads_def by blast
  moreover have "ticks (sliced 0 1 (ticked ?s)) = 1" by (simp add: sliced_def ticked_def s)
  ultimately show ?thesis using kernel_typed by blast
qed

end
