(* ===== verification/Line_Discipline.thy ===== *)
theory Line_Discipline
  imports Console Ring
begin

text \<open>
  The line discipline of the console: what \<open>consoleintr\<close> does with the characters typed, as an abstract
  machine with the finished lines and the line under edit, and the proof that the ring of console.c with its
  three counters implements it. The screen output on the way stays inside the first 24 rows and never panics.
\<close>

section \<open>The screen\<close>

definition screen_ok :: "'z kcons_scheme \<Rightarrow> bool" where
  "screen_ok s \<longleftrightarrow> \<not> panicked s \<and> crt_pos s < 24 * 80"

text \<open>What output may change.\<close>

definition drawn :: "'z kcons_scheme \<Rightarrow> 'z kcons_scheme \<Rightarrow> bool" where
  "drawn s t \<longleftrightarrow> t = s\<lparr>uart_out := uart_out t, crt := crt t, crt_pos := crt_pos t\<rparr> \<and> crt_pos t < 24 * 80
     \<and> (\<forall>i \<ge> 24 * 80. crt t i = crt s i)"

lemma drawn_simps:
  assumes "drawn s t"
  shows "screen_ok s \<Longrightarrow> screen_ok t" "in_buf t = in_buf s" "in_r t = in_r s" "in_w t = in_w s" "in_e t = in_e s"
    "held t = held s" "procs t = procs s" "panicked t = panicked s"
proof -
  let ?u = "s\<lparr>uart_out := uart_out t, crt := crt t, crt_pos := crt_pos t\<rparr>"
  have e: "t = ?u" "crt_pos t < 24 * 80" using assms by (simp_all only: drawn_def)
  show p: "panicked t = panicked s" by (subst e(1)) simp
  show "in_buf t = in_buf s" "in_r t = in_r s" "in_w t = in_w s" "in_e t = in_e s" "held t = held s" "procs t = procs s"
    by (subst e(1), simp)+
  show "screen_ok s \<Longrightarrow> screen_ok t" using e(2) p unfolding screen_ok_def by blast
qed

lemma drawn_trans:
  assumes "drawn s t" "drawn t u"
  shows "drawn s u"
proof -
  have t: "t = s\<lparr>uart_out := uart_out t, crt := crt t, crt_pos := crt_pos t\<rparr>" and
    u: "u = t\<lparr>uart_out := uart_out u, crt := crt u, crt_pos := crt_pos u\<rparr>" using assms by (simp_all only: drawn_def)
  have "u = s\<lparr>uart_out := uart_out u, crt := crt u, crt_pos := crt_pos u\<rparr>" by (subst u, subst t) simp
  then show ?thesis using assms unfolding drawn_def by simp
qed

lemma round_up_row: "q * 80 + r = p \<Longrightarrow> r < 80 \<Longrightarrow> p + (80 - r) = (q + 1) * (80 :: nat)"
  by simp

lemma newline_pos: "p < 24 * 80 \<Longrightarrow> p + (80 - p mod 80) \<le> 24 * (80 :: nat)"
proof -
  assume "p < 24 * 80"
  then have "p div 80 < 24" by (simp add: div_less_iff_less_mult)
  moreover have "p + (80 - p mod 80) = (p div 80 + 1) * 80"
    by (rule round_up_row) simp_all
  ultimately show ?thesis by simp
qed

lemma bindk_kget: "bindk (kget f) g s = g (f s) s"
  by simp

lemma cgaputc_run:
  assumes "screen_ok s"
  shows "\<exists>t. cgaputc c s = Ok () t \<and> drawn s t"
proof -
  have q: "\<not> panicked s" "crt_pos s < 1920" using assms by (simp_all add: screen_ok_def)
  define p where "p = (if c = 10 then crt_pos s + (80 - crt_pos s mod 80) else if c = BACKSPACE then crt_pos s - 1 else crt_pos s + 1)"
  have p: "p \<le> 1920" using newline_pos [of "crt_pos s"] q(2) by (auto simp: p_def)
  define m where "m = (if c \<noteq> 10 \<and> c \<noteq> BACKSPACE then (crt s)(crt_pos s := of_nat (c mod 256) OR 0x0700) else crt s)"
  have m: "\<forall>i \<ge> 1920. m i = crt s i" using q(2) by (simp add: m_def)
  show ?thesis
  proof (cases "p = 1920")
    case True
    have "cgaputc c s = Ok () (s\<lparr>crt_pos := 1840,
      crt := (\<lambda>i. if 1840 \<le> i \<and> i < 24 * 80 then 0 else if i < 23 * 80 then m (i + 80) else m i)(1840 := 0x20 OR 0x0700)\<rparr>)"
      using True unfolding cgaputc_def bindk_kget p_def [symmetric] Let_def m_def by (simp cong: if_cong)
    then show ?thesis using m by (simp add: drawn_def)
  next
    case False
    then have "cgaputc c s = Ok () (s\<lparr>crt_pos := p, crt := m(p := 0x20 OR 0x0700)\<rparr>)"
      using p unfolding cgaputc_def bindk_kget p_def [symmetric] Let_def m_def by simp
    then show ?thesis using m p False by (simp add: drawn_def)
  qed
qed

lemma uartputc_run:
  assumes "screen_ok s"
  shows "\<exists>t. uartputc c s = Ok () t \<and> drawn s t"
  using assms by (cases "uart s") (simp_all add: uartputc_def drawn_def screen_ok_def)

text \<open>Operations that only draw, when the locks of \<open>L\<close> are free.\<close>

named_theorems draws_intro

definition draws :: "lockid set \<Rightarrow> ('z kcons_scheme, unit) k \<Rightarrow> bool" where
  "draws L f \<longleftrightarrow> (\<forall>s. screen_ok s \<longrightarrow> L \<inter> set (held s) = {} \<longrightarrow> (\<exists>t. f s = Ok () t \<and> drawn s t))"

lemma drawn_refl: "screen_ok s \<Longrightarrow> drawn s s"
  by (simp add: drawn_def screen_ok_def)

lemma draws_ret [draws_intro]: "draws L (kret ())"
  by (auto simp: draws_def drawn_refl)

lemma draws_thenk [draws_intro]:
  assumes "draws L f" "draws L g"
  shows "draws L (thenk f g)"
  unfolding draws_def
proof (intro allI impI)
  fix s :: "'a kcons_scheme" assume s: "screen_ok s" "L \<inter> set (held s) = {}"
  then obtain t where t: "f s = Ok () t" "drawn s t" using assms(1) unfolding draws_def by blast
  then obtain u where "g t = Ok () u" "drawn t u"
    using assms(2) s drawn_simps(1,6) [OF t(2)] unfolding draws_def by metis
  then show "\<exists>u. thenk f g s = Ok () u \<and> drawn s u" using t drawn_trans by auto
qed

lemma draws_whenk [draws_intro]: "(b \<Longrightarrow> draws L f) \<Longrightarrow> draws L (whenk b f)"
  by (cases b) (auto intro: draws_intro)

lemma draws_get [draws_intro]: "(\<And>x. draws L (g x)) \<Longrightarrow> draws L (bindk (kget f) g)"
  by (simp add: draws_def)

lemma draws_eachk [draws_intro]: "(\<And>x. draws L (f x)) \<Longrightarrow> draws L (eachk f xs)"
  by (induction xs) (auto intro: draws_intro)

lemma draws_consputc [draws_intro]: "draws L (consputc c)"
proof -
  have u: "draws L (uartputc c)" for c using uartputc_run unfolding draws_def by blast
  have g: "draws L (cgaputc c)" using cgaputc_run unfolding draws_def by blast
  have "draws L (thenk (thenk (uartputc 8) (thenk (uartputc 32) (uartputc 8))) (cgaputc c))" "draws L (thenk (uartputc c) (cgaputc c))"
    by (intro draws_thenk u g)+
  then have "draws L (thenk (if c = BACKSPACE then thenk (uartputc 8) (thenk (uartputc 32) (uartputc 8)) else uartputc c) (cgaputc c))"
    by (cases "c = BACKSPACE") (simp_all only: if_True if_False refl)
  then show ?thesis unfolding draws_def consputc_def bindk_kget screen_ok_def by simp
qed

lemma draws_printint [draws_intro]: "draws L (printint n b sg)"
  unfolding printint_def by (intro draws_intro)

lemma draws_cprintf:
  assumes "\<And>L. draws L (cprintf_loop fmt args :: ('a kcons_scheme, unit) k)"
  shows "draws {ConsLk} (cprintf fmt args :: ('a kcons_scheme, unit) k)"
  unfolding draws_def
proof (intro allI impI)
  fix s :: "'a kcons_scheme" assume s: "screen_ok s" "{ConsLk} \<inter> set (held s) = {}"
  let ?h = "if cons_locking s then ConsLk # held s else held s"
  let ?s = "s\<lparr>held := ?h\<rparr>"
  have "screen_ok ?s" using s(1) by (simp add: screen_ok_def)
  then obtain t where t: "cprintf_loop fmt args ?s = Ok () t" "drawn ?s t" using assms [of "{}"] unfolding draws_def by fastforce
  have e: "t = ?s\<lparr>uart_out := uart_out t, crt := crt t, crt_pos := crt_pos t\<rparr>" using t(2) by (simp only: drawn_def)
  have h: "held t = ?h" using drawn_simps(6) [OF t(2)] by simp
  have "cprintf fmt args s = Ok () (t\<lparr>held := held s\<rparr>)"
    using t(1) s(2) h by (cases "cons_locking s") (simp_all add: cprintf_def)
  moreover have "drawn s (t\<lparr>held := held s\<rparr>)"
  proof -
    have "t\<lparr>held := held s\<rparr> = s\<lparr>uart_out := uart_out t, crt := crt t, crt_pos := crt_pos t\<rparr>" by (subst e) simp
    then show ?thesis using t(2) by (simp add: drawn_def)
  qed
  ultimately show "\<exists>u. cprintf fmt args s = Ok () u \<and> drawn s u" by blast
qed

lemma draws_procdump: "draws {ConsLk} (procdump pcs)"
proof -
  have f: "draws L (cprintf_loop ''%d %s %s'' [AInt a, AStr b, AStr c])" for L a b c
    by (simp, intro draws_intro)
  have g: "draws L (cprintf_loop '' %p'' [AInt a])" for L a by (simp, intro draws_intro)
  have h: "draws L (cprintf_loop [char_of (10 :: nat)] [])" for L
    by (cases "char_of (10 :: nat) = CHR ''%''") (simp_all, (intro draws_intro)+)
  show ?thesis unfolding procdump_def procdump_proc_def
    by (intro draws_intro draws_cprintf [OF f] draws_cprintf [OF g] draws_cprintf [OF h])
qed

section \<open>The abstract line discipline\<close>

text \<open>The finished input that readers may take, and the line under edit.\<close>

type_synonym editor = "u8 list \<times> u8 list"

definition type_char :: "u8 \<Rightarrow> editor \<Rightarrow> editor" where
  "type_char b = (\<lambda>(q, l).
     if length q + length l = INPUT_BUF then (q, l)
     else if b = 10 \<or> b = 4 \<or> Suc (length q + length l) = INPUT_BUF then (q @ l @ [b], []) else (q, l @ [b]))"

definition edit :: "int \<Rightarrow> editor \<Rightarrow> editor" where
  "edit c = (\<lambda>(q, l).
     if c = 21 then (q, [])
     else if c = 8 \<or> c = 127 then (q, butlast l)
     else if c = 0 then (q, l)
     else type_char (if c = 13 then 10 else of_int c) (q, l))"

section \<open>The ring implements it\<close>

interpretation ir: ring INPUT_BUF
  by unfold_locales auto

definition typed :: "'z kcons_scheme \<Rightarrow> u8 list" where
  "typed s = ring_contents INPUT_BUF (in_buf s) (in_r s) (in_e s)"

definition editor_of :: "'z kcons_scheme \<Rightarrow> editor" where
  "editor_of s = (ring_contents INPUT_BUF (in_buf s) (in_r s) (in_w s), ring_contents INPUT_BUF (in_buf s) (in_w s) (in_e s))"

definition input_ok :: "'z kcons_scheme \<Rightarrow> bool" where
  "input_ok s \<longleftrightarrow> length (in_buf s) = INPUT_BUF \<and> unat (in_w s - in_r s) \<le> unat (in_e s - in_r s)
     \<and> unat (in_e s - in_r s) \<le> INPUT_BUF \<and> 10 \<notin> set (snd (editor_of s))"

lemma editor_of_typed:
  assumes "input_ok s"
  shows "editor_of s = (take (unat (in_w s - in_r s)) (typed s), drop (unat (in_w s - in_r s)) (typed s))"
  using assms ir.split_at [of "in_w s" "in_r s" "in_e s" "in_buf s"] by (simp add: editor_of_def typed_def input_ok_def)

text \<open>Going back one character.\<close>

lemma rub_out:
  assumes "input_ok s" "in_e s \<noteq> in_w s"
  shows "input_ok (s\<lparr>in_e := in_e s - 1\<rparr>)" "editor_of (s\<lparr>in_e := in_e s - 1\<rparr>) = (fst (editor_of s), butlast (snd (editor_of s)))"
    "input_at (in_e s - 1) s = last (snd (editor_of s))" "snd (editor_of s) \<noteq> []"
proof -
  let ?s = "s\<lparr>in_e := in_e s - 1\<rparr>"
  have d: "unat (in_w s - in_r s) < unat (in_e s - in_r s)"
    using assms same_distance [of "in_w s" "in_r s" "in_e s"] by (simp add: input_ok_def)
  then have we: "in_w s \<noteq> in_e s" "in_r s \<noteq> in_e s" using assms(2) by auto
  show e: "editor_of ?s = (fst (editor_of s), butlast (snd (editor_of s)))"
    using ir.unput(2) [OF we(1)] by (simp add: editor_of_def)
  show "input_ok ?s" using assms(1) d ir.unput(1) [OF we(2)] unfolding input_ok_def e by (auto dest: in_set_butlastD)
  show "input_at (in_e s - 1) s = last (snd (editor_of s))" "snd (editor_of s) \<noteq> []"
    using ir.last_at(1) [OF we(1)] ir.last_at(2) [OF we(1), of "in_buf s"] by (simp_all add: editor_of_def input_at_def)
qed

lemma type_in:
  fixes s :: "'z kcons_scheme" and b :: u8
  assumes "input_ok s" "unat (in_e s - in_r s) < INPUT_BUF"
  defines "t \<equiv> s\<lparr>in_buf := (in_buf s)[unat (in_e s) mod INPUT_BUF := b], in_e := in_e s + 1\<rparr>"
  shows "b = 10 \<or> b = 4 \<or> unat (in_e t - in_r t) = INPUT_BUF \<Longrightarrow> input_ok (t\<lparr>in_w := in_e t\<rparr>)
      \<and> editor_of (t\<lparr>in_w := in_e t\<rparr>) = type_char b (editor_of s)"
    "\<not> (b = 10 \<or> b = 4 \<or> unat (in_e t - in_r t) = INPUT_BUF) \<Longrightarrow> input_ok t \<and> editor_of t = type_char b (editor_of s)"
proof -
  let ?k = "unat (in_w s - in_r s)" and ?n = "unat (in_e s - in_r s)"
  have l: "length (in_buf s) = INPUT_BUF" "?k \<le> ?n" "length (typed s) = ?n" using assms(1) by (simp_all add: input_ok_def typed_def)
  note p = ir.put(1) [OF l(1) assms(2)] ir.put(2) [OF l(1) assms(2), of b]
  have n: "unat (in_e t - in_r t) = Suc ?n" "in_w t = in_w s" "in_r t = in_r s" "length (in_buf t) = INPUT_BUF"
    using p(1) l(1) by (simp_all add: t_def)
  have ty: "ring_contents INPUT_BUF (in_buf t) (in_r t) (in_e t) = typed s @ [b]"
    using p(2) by (simp add: t_def typed_def)
  have le: "unat (in_w t - in_r t) \<le> unat (in_e t - in_r t)" using l(2) n by simp
  have len: "length (take ?k (typed s)) + length (drop ?k (typed s)) = ?n" using l(3) by (simp add: min_def)
  show "input_ok (t\<lparr>in_w := in_e t\<rparr>) \<and> editor_of (t\<lparr>in_w := in_e t\<rparr>) = type_char b (editor_of s)"
    if "b = 10 \<or> b = 4 \<or> unat (in_e t - in_r t) = INPUT_BUF"
  proof -
    have "editor_of (t\<lparr>in_w := in_e t\<rparr>) = (typed s @ [b], [])" using ty by (simp add: editor_of_def)
    moreover have "type_char b (editor_of s) = (typed s @ [b], [])"
      using that n assms(2) len unfolding editor_of_typed [OF assms(1)] type_char_def by auto
    ultimately show ?thesis using n assms(2) by (simp add: input_ok_def)
  qed
  show "input_ok t \<and> editor_of t = type_char b (editor_of s)"
    if "\<not> (b = 10 \<or> b = 4 \<or> unat (in_e t - in_r t) = INPUT_BUF)"
  proof -
    have "editor_of t = (take ?k (typed s), drop ?k (typed s) @ [b])"
      using ir.split_at [OF le, of "in_buf t"] l(2,3) n ty by (simp add: editor_of_def)
    moreover have "type_char b (editor_of s) = (take ?k (typed s), drop ?k (typed s) @ [b])"
      using that n assms(2) len unfolding editor_of_typed [OF assms(1)] type_char_def by simp
    moreover have "10 \<notin> set (drop ?k (typed s))" using assms(1) editor_of_typed [OF assms(1)] by (simp add: input_ok_def)
    ultimately show ?thesis using that n assms(2) l le by (simp add: input_ok_def)
  qed
qed

section \<open>The interrupt handler\<close>

lemma consputc_run:
  fixes s :: "'z kcons_scheme"
  shows "screen_ok s \<Longrightarrow> \<exists>t. consputc c s = Ok () t \<and> drawn s t"
  using draws_consputc [where ?'a = 'z, of "{}" c] by (simp add: draws_def)

lemma editor_cong:
  assumes "in_buf t = in_buf s" "in_r t = in_r s" "in_w t = in_w s" "in_e t = in_e s"
  shows "editor_of t = editor_of s" "input_ok t = input_ok s"
  using assms by (simp_all add: editor_of_def input_ok_def)

lemma drawn_input:
  assumes "drawn s t"
  shows "editor_of t = editor_of s" "input_ok t = input_ok s"
  using editor_cong [OF drawn_simps(2-5) [OF assms]] .

text \<open>What a character leaves behind: the abstract editor has done its step, and readers have been woken if
  input was finished.\<close>

definition typed_to :: "'z kcons_scheme \<Rightarrow> editor \<Rightarrow> 'z kcons_scheme \<Rightarrow> bool" where
  "typed_to s e t \<longleftrightarrow> input_ok t \<and> screen_ok t \<and> editor_of t = e \<and> held t = held s \<and> (\<forall>i \<ge> 24 * 80. crt t i = crt s i)
     \<and> procs t = (if fst e = fst (editor_of s) then procs s else map (wakeup_proc (Some ChInput)) (procs s))"

lemma drawn_typed_to:
  assumes "drawn s t" "screen_ok s" "input_ok s"
  shows "typed_to s (editor_of s) t"
  using drawn_simps [OF assms(1)] drawn_input [OF assms(1)] assms unfolding typed_to_def drawn_def by simp

lemma kill_line_run:
  assumes "input_ok s" "screen_ok s" "unat (in_e s - in_w s) = n"
  shows "\<exists>t. kill_line n s = Ok () t \<and> typed_to s (fst (editor_of s), []) t"
  using assms
proof (induction n arbitrary: s)
  case 0
  then have "editor_of s = (fst (editor_of s), [])" by (simp add: editor_of_def ring_contents_def)
  then show ?case using 0 by (simp add: typed_to_def)
next
  case (Suc n)
  then have ne: "in_e s \<noteq> in_w s" by auto
  let ?u = "s\<lparr>in_e := in_e s - 1\<rparr>"
  note ru = rub_out [OF Suc.prems(1) ne]
  have "input_at (in_e s - 1) s \<noteq> 10" using ru(3) Suc.prems(1) last_in_set [OF ru(4)] unfolding input_ok_def by metis
  moreover have "screen_ok ?u" using Suc.prems(2) by (simp add: screen_ok_def)
  then obtain t where t: "consputc BACKSPACE ?u = Ok () t" "drawn ?u t" using consputc_run by blast
  ultimately have run: "kill_line (Suc n) s = kill_line n t" using ne by simp
  have "unat (in_e s - 1 - in_w s) = n" using ir.unput(1) [of "in_w s" "in_e s"] ne Suc.prems(3) by simp
  then have "unat (in_e t - in_w t) = n" using drawn_simps [OF t(2)] by simp
  then obtain v where v: "kill_line n t = Ok () v" "typed_to t (fst (editor_of t), []) v"
    using Suc.IH [of t] ru(1) \<open>screen_ok ?u\<close> drawn_simps(1) [OF t(2)] drawn_input(2) [OF t(2)] by auto
  have "typed_to s (fst (editor_of s), []) v"
    using v(2) drawn_simps [OF t(2)] drawn_input(1) [OF t(2)] ru(2) t(2) by (simp add: typed_to_def drawn_def)
  then show ?case using run v(1) by simp
qed

lemma console_type_run:
  assumes "input_ok s" "screen_ok s" "PtableLk \<notin> set (held s)" "0 < c" "c < 256" "c \<notin> {21, 8, 127}"
  shows "\<exists>t. console_char c s = Ok () t \<and> typed_to s (edit c (editor_of s)) t"
proof -
  define n where "n = (if c = 13 then 10 else nat (c mod 256))"
  define b where "b = (of_nat n :: u8)"
  have e: "edit c (editor_of s) = type_char b (editor_of s)"
    using assms(4-6) by (auto simp: edit_def b_def n_def split: prod.split)
  have "n < 256" using assms(4,5) by (auto simp: n_def)
  then have "unat b = n" by (simp add: b_def unat_of_nat)
  then have n: "b = 10 \<longleftrightarrow> n = 10" "b = 4 \<longleftrightarrow> n = 4" by (auto simp: word_unat_eq_iff)
  have run: "console_char c s = (if in_e s - in_r s < of_nat INPUT_BUF then
    thenk (kput (\<lambda>s. s\<lparr>in_buf := (in_buf s)[unat (in_e s) mod INPUT_BUF := b]\<rparr>))
        (thenk (kput (\<lambda>s. s\<lparr>in_e := in_e s + 1\<rparr>))
        (thenk (consputc n)
        (bindk (kget (\<lambda>s. n = 10 \<or> n = 4 \<or> in_e s = in_r s + of_nat INPUT_BUF)) (\<lambda>full.
        whenk full (thenk (kput (\<lambda>s. s\<lparr>in_w := in_e s\<rparr>)) (wakeup ChInput)))))) s else Ok () s)"
    using assms(4-6) unfolding console_char_def bindk_kget Let_def n_def [symmetric] b_def by simp
  have len: "length (fst (editor_of s)) + length (snd (editor_of s)) = unat (in_e s - in_r s)"
    using assms(1) unfolding editor_of_typed [OF assms(1)] by (simp add: input_ok_def typed_def)
  show ?thesis
  proof (cases "unat (in_e s - in_r s) < INPUT_BUF")
    case False
    then have "console_char c s = Ok () s" by (simp add: run word_less_nat_alt)
    moreover have "type_char b (editor_of s) = editor_of s"
      using False assms(1) len by (cases "editor_of s") (simp add: type_char_def input_ok_def)
    ultimately show ?thesis using assms(1,2) by (simp add: e typed_to_def)
  next
    case True
    let ?u = "s\<lparr>in_buf := (in_buf s)[unat (in_e s) mod INPUT_BUF := b], in_e := in_e s + 1\<rparr>"
    have "screen_ok ?u" using assms(2) by (simp add: screen_ok_def)
    then obtain t where t: "consputc n ?u = Ok () t" "drawn ?u t" using consputc_run by blast
    note d = drawn_simps [OF t(2)] drawn_input [OF t(2)]
    note ti = type_in [OF assms(1) True, of b]
    have crt: "\<forall>i \<ge> 24 * 80. crt t i = crt s i" using t(2) by (simp add: drawn_def)
    have full: "in_e s + 1 = in_r s + 128 \<longleftrightarrow> unat (in_e ?u - in_r ?u) = INPUT_BUF"
      using same_distance [of "in_e s + 1" "in_r s" "in_r s + 128"] by simp
    have sn: "unat (in_e ?u - in_r ?u) = Suc (unat (in_e s - in_r s))"
      using ir.put(1) [of "in_buf s", OF _ True] assms(1) by (simp add: input_ok_def)
    show ?thesis
    proof (cases "b = 10 \<or> b = 4 \<or> unat (in_e ?u - in_r ?u) = INPUT_BUF")
      case f: True
      let ?v = "t\<lparr>in_w := in_e t, procs := map (wakeup_proc (Some ChInput)) (procs t)\<rparr>"
      have "console_char c s = Ok () ?v" using True f full t(1) assms(3) d n by (simp add: run word_less_nat_alt)
      moreover have "editor_of ?v = editor_of (?u\<lparr>in_w := in_e ?u\<rparr>)" "input_ok ?v = input_ok (?u\<lparr>in_w := in_e ?u\<rparr>)"
        by (rule editor_cong; use d in simp)+
      moreover have "fst (type_char b (editor_of s)) \<noteq> fst (editor_of s)"
        using f True len sn by (cases "editor_of s") (auto simp: type_char_def)
      ultimately show ?thesis using ti(1) [OF f] d crt \<open>screen_ok ?u\<close> by (simp add: typed_to_def e screen_ok_def)
    next
      case f: False
      have "console_char c s = Ok () t" using True f full t(1) d n by (simp add: run word_less_nat_alt)
      moreover have "fst (type_char b (editor_of s)) = fst (editor_of s)"
        using f True len sn by (cases "editor_of s") (auto simp: type_char_def)
      ultimately show ?thesis using ti(2) [OF f] d crt \<open>screen_ok ?u\<close> by (simp add: typed_to_def e)
    qed
  qed
qed

lemma console_char_run:
  assumes "input_ok s" "screen_ok s" "PtableLk \<notin> set (held s)" "0 \<le> c" "c < 256"
  shows "\<exists>t. console_char c s = Ok () t \<and> typed_to s (edit c (editor_of s)) t"
proof -
  consider "c = 21" | "c = 8 \<or> c = 127" | "c = 0" | "0 < c" "c \<notin> {21, 8, 127}" using assms(4) by force
  then show ?thesis
  proof cases
    case 1
    have "edit c (editor_of s) = (fst (editor_of s), [])" by (cases "editor_of s") (simp add: 1 edit_def)
    then show ?thesis using kill_line_run [OF assms(1,2) refl] 1 by (simp add: console_char_def)
  next
    case 2
    have e: "edit c (editor_of s) = (fst (editor_of s), butlast (snd (editor_of s)))"
      using 2 by (cases "editor_of s") (auto simp: edit_def)
    show ?thesis
    proof (cases "in_e s = in_w s")
      case True
      then have "snd (editor_of s) = []" by (simp add: editor_of_def)
      then have "edit c (editor_of s) = editor_of s" unfolding e by (cases "editor_of s") simp
      then show ?thesis using 2 True assms(1,2) by (auto simp: console_char_def typed_to_def)
    next
      case False
      let ?u = "s\<lparr>in_e := in_e s - 1\<rparr>"
      note ru = rub_out [OF assms(1) False]
      have u: "screen_ok ?u" using assms(2) by (simp add: screen_ok_def)
      then obtain t where t: "consputc BACKSPACE ?u = Ok () t" "drawn ?u t" using consputc_run by blast
      have "typed_to ?u (edit c (editor_of s)) t" using drawn_typed_to [OF t(2) u ru(1)] unfolding ru(2) e .
      then have "typed_to s (edit c (editor_of s)) t" using ru(2) by (simp add: typed_to_def)
      moreover have "console_char c s = Ok () t" using 2 False t(1) by (auto simp: console_char_def)
      ultimately show ?thesis by blast
    qed
  next
    case 3
    have "edit c (editor_of s) = editor_of s" by (cases "editor_of s") (simp add: 3 edit_def)
    moreover have "console_char c s = Ok () s" by (simp add: 3 console_char_def bindk_def)
    ultimately show ?thesis using assms(1,2) by (simp add: typed_to_def)
  next
    case 4
    then show ?thesis using console_type_run [OF assms(1-3)] assms(5) by blast
  qed
qed

lemma edit_grows: "fst (edit c e) = fst e \<or> length (fst e) < length (fst (edit c e))"
  by (cases e) (simp add: edit_def type_char_def)

lemma typed_to_trans:
  assumes "typed_to s e t" "typed_to t (edit c e) u" "length (fst (editor_of s)) \<le> length (fst e)"
  shows "typed_to s (edit c e) u"
proof -
  have "wakeup_proc ch (wakeup_proc ch p) = wakeup_proc ch p" for ch p by (simp add: wakeup_proc_def)
  then have "map (wakeup_proc ch) (map (wakeup_proc ch) ps) = map (wakeup_proc ch) ps" for ch ps by simp
  then show ?thesis using assms edit_grows [of c e] by (auto simp: typed_to_def)
qed

lemma console_chars_run:
  fixes s :: "'z kcons_scheme"
  assumes "input_ok s" "screen_ok s" "PtableLk \<notin> set (held s)" "\<forall>c \<in> set cs. 0 \<le> c \<and> c < 256"
  shows "\<exists>t. eachk (\<lambda>c. if c = 16 then kret () else console_char c) cs s = Ok () t
    \<and> typed_to s (fold edit (filter (\<lambda>c. c \<noteq> 16) cs) (editor_of s)) t
    \<and> length (fst (editor_of s)) \<le> length (fst (fold edit (filter (\<lambda>c. c \<noteq> 16) cs) (editor_of s)))"
  using assms(4)
proof (induction cs rule: rev_induct)
  case Nil
  then show ?case using assms(1,2) by (simp add: typed_to_def)
next
  case (snoc c cs)
  let ?e = "fold edit (filter (\<lambda>c. c \<noteq> 16) cs) (editor_of s)"
  obtain t where t: "eachk (\<lambda>c. if c = 16 then kret () else console_char c) cs s = Ok () t" "typed_to s ?e t"
    "length (fst (editor_of s)) \<le> length (fst ?e)" using snoc by auto
  show ?case
  proof (cases "c = 16")
    case True
    then show ?thesis using t by (simp add: eachk_append)
  next
    case False
    have o: "input_ok t" "screen_ok t" "PtableLk \<notin> set (held t)" "editor_of t = ?e" using t(2) assms(3) by (simp_all add: typed_to_def)
    obtain u where u: "console_char c t = Ok () u" "typed_to t (edit c ?e) u"
      using console_char_run [OF o(1-3), of c] snoc.prems o(4) by auto
    show ?thesis using u t False typed_to_trans [OF t(2) u(2) t(3)] edit_grows [of c ?e]
      by (auto simp: eachk_append)
  qed
qed

section \<open>Property\<close>



end
