(* ===== verification/Syscall_Safety.thy ===== *)
theory Syscall_Safety
  imports Trap Line_Discipline
begin

text \<open>
  What a process can do to the kernel through its registers and its stack: the argument functions of
  syscall.c read only memory of the process, whatever the saved stack pointer and the arguments are, and
  a system call number outside the table is answered by -1.
\<close>

section \<open>User memory as the kernel reads it\<close>

definition readable :: "'z kkmem_scheme \<Rightarrow> nat \<Rightarrow> bool" where
  "readable s n \<longleftrightarrow> n \<le> KERNBASE \<and> (\<forall>a < n. mmu s False a \<noteq> None)"

definition ubyte :: "'z kkmem_scheme \<Rightarrow> nat \<Rightarrow> u8" where
  "ubyte s a = memory s (the (mmu s False a))"

definition user_bytes :: "'z kkmem_scheme \<Rightarrow> nat \<Rightarrow> nat \<Rightarrow> u8 list" where
  "user_bytes s a b = map (ubyte s) [a..<b]"

definition user_int :: "'z kkmem_scheme \<Rightarrow> nat \<Rightarrow> nat \<Rightarrow> int option" where
  "user_int s n a = (if a + 4 \<le> n then Some (s32 (int (le (user_bytes s a (a + 4))))) else None)"

definition user_str :: "'z kkmem_scheme \<Rightarrow> nat \<Rightarrow> nat \<Rightarrow> u8 list option" where
  "user_str s n a = (if 0 \<in> set (user_bytes s a n) then Some (takeWhile (\<lambda>c. c \<noteq> 0) (user_bytes s a n)) else None)"

lemma uactive_readable:
  assumes "uactive s pd xs n"
  shows "readable s n"
  using uactive_mmu [OF assms] uspaceD(2) assms unfolding readable_def uactive_def by auto

lemma readable_ldb: "readable s n \<Longrightarrow> a < n \<Longrightarrow> ldb a s = Ok (ubyte s a) s"
  by (auto simp: ldb_def ubyte_def readable_def split: option.split)

lemma readable_ldbs: "readable s n \<Longrightarrow> a + k \<le> n \<Longrightarrow> ldbs a k s = Ok (user_bytes s a (a + k)) s"
proof (induction k arbitrary: a)
  case (Suc k)
  have "n \<le> KERNBASE" using Suc.prems(1) by (simp add: readable_def)
  then have "n32 (a + 1) = a + 1" using Suc.prems(2) by (intro n32_id) simp
  moreover have "[a..<a + Suc k] = a # [a + 1..<a + 1 + k]" using upt_conv_Cons [of a "a + Suc k"] by simp
  ultimately show ?case
    using readable_ldb [OF Suc.prems(1), of a] Suc.IH [of "a + 1"] Suc.prems by (simp add: user_bytes_def del: upt_Suc)
qed (simp add: user_bytes_def)

lemma fetchint_run:
  assumes "cur s = Some p" "readable s (sz (proc_at s p))"
  shows "fetchint a s = Ok (user_int s (sz (proc_at s p)) a) s"
proof (cases "a < sz (proc_at s p)")
  case True
  then have "n32 (a + 4) = a + 4" using assms(2) by (intro n32_id) (auto simp: readable_def)
  then show ?thesis
    using True assms(1) readable_ldbs [OF assms(2), of a 4] by (auto simp: fetchint_def user_int_def ldu32_def)
next
  case False
  then show ?thesis using assms(1) by (auto simp: fetchint_def user_int_def)
qed

lemma fetchstr_loop_run: "readable s n \<Longrightarrow> fetchstr_loop a n s = Ok (user_str s n a) s"
proof (induction "n - a" arbitrary: a)
  case 0
  then show ?case by (simp add: fetchstr_loop.simps user_str_def user_bytes_def)
next
  case (Suc k)
  then have a: "a < n" "[a..<n] = a # [Suc a..<n]" by (simp_all add: upt_conv_Cons)
  have "fetchstr_loop (Suc a) n s = Ok (user_str s n (Suc a)) s" using Suc by simp
  then show ?case
    using a readable_ldb [OF Suc.prems a(1)] by (subst fetchstr_loop.simps) (auto simp: user_str_def user_bytes_def)
qed

lemma fetchstr_run:
  assumes "cur s = Some p" "readable s (sz (proc_at s p))"
  shows "fetchstr a s = Ok (user_str s (sz (proc_at s p)) a) s"
  using assms fetchstr_loop_run [OF assms(2)] by (auto simp: fetchstr_def user_str_def user_bytes_def)

section \<open>Properties\<close>

text \<open>C8: system call arguments are safe. For any saved stack pointer, argument number and contents of user
  memory, \<open>argint\<close>, \<open>argptr\<close> and \<open>argstr\<close> return without a fault and without changing the state.
  \<open>argint\<close> gives the word at its place on the stack, if that lies in the process; \<open>argptr\<close> gives a pointer
  only to a block that lies in the process as a whole, without wrap-around; \<open>argstr\<close> gives the bytes up to the
  first zero byte, if there is one before the end of the process.\<close>

theorem syscall_args_safe:
  fixes s :: "'z kfile_scheme" and p n :: nat
  defines "N \<equiv> sz (proc_at s p)" and "a \<equiv> n32 (unat (tf_esp (tf (proc_at s p))) + 4 + 4 * n)"
  assumes "cur s = Some p" "readable s (sz (proc_at s p))" "len < 2 ^ 31"
  shows "argint n s = Ok (user_int s N a) s
    \<and> argptr n len s = Ok (case user_int s N a of None \<Rightarrow> None
        | Some i \<Rightarrow> if 0 \<le> len \<and> addr_of i < N \<and> addr_of i + nat len \<le> N then Some (addr_of i) else None) s
    \<and> argstr n s = Ok (case user_int s N a of None \<Rightarrow> None | Some i \<Rightarrow> user_str s N (addr_of i)) s"
proof -
  have i: "argint n s = Ok (user_int s N a) s"
    using assms(3) fetchint_run [OF assms(3,4)] by (simp add: argint_def N_def a_def)
  have w: "n32 (addr_of i + nat len) = addr_of i + nat len" if "addr_of i < N" for i
    using that assms(4,5) by (intro n32_id) (auto simp: readable_def N_def)
  have "argptr n len s = Ok (case user_int s N a of None \<Rightarrow> None
        | Some i \<Rightarrow> if 0 \<le> len \<and> addr_of i < N \<and> addr_of i + nat len \<le> N then Some (addr_of i) else None) s"
    using assms(3) i w by (cases "user_int s N a") (auto simp: argptr_def N_def [symmetric] not_le)
  moreover have "argstr n s = Ok (case user_int s N a of None \<Rightarrow> None | Some i \<Rightarrow> user_str s N (addr_of i)) s"
    using i fetchstr_run [OF assms(3,4)] by (cases "user_int s N a") (simp_all add: argstr_def N_def [symmetric])
  ultimately show ?thesis using i by blast
qed

text \<open>Output of a message with a newline at its end.\<close>

lemma newline_not_format: "char_of (10 :: nat) \<noteq> CHR ''%''"
  by (simp add: char_of_def)

lemma draws_unknown: "draws {ConsLk} (cprintf (''%d %s: unknown sys call %d'' @ newline) [AInt i, AStr a, AInt j])"
  by (rule draws_cprintf) (simp add: newline_def newline_not_format, intro draws_intro)

lemma draws_trace: "draws {ConsLk} (cprintf (''ID: %d NOME: %s NUM_CALL: %d CALL_NAME %s'' @ newline) [AInt i, AStr a, AInt j, AStr b])"
  by (rule draws_cprintf) (simp add: newline_def newline_not_format, intro draws_intro)

lemma drawn_set_procs:
  assumes "drawn s t"
  shows "drawn (s\<lparr>procs := ps\<rparr>) (t\<lparr>procs := ps\<rparr>)"
proof -
  have e: "t = s\<lparr>uart_out := uart_out t, crt := crt t, crt_pos := crt_pos t\<rparr>" using assms by (simp only: drawn_def)
  have "t\<lparr>procs := ps\<rparr> = s\<lparr>procs := ps, uart_out := uart_out t, crt := crt t, crt_pos := crt_pos t\<rparr>"
    by (subst e) (cases s, simp)
  then show ?thesis using assms by (simp add: drawn_def)
qed

text \<open>C24: system call numbers outside the table. If \<open>eax\<close> is not the number of a system call, \<open>syscall\<close> prints a
  message, returns -1 to the process and changes nothing else, provided the process is not traced. With the
  trace flag set, it then reads \<open>syscallnames\<close> outside the array, except for the number 0: a traced process can make the
  kernel fault with any other bad number.\<close>

theorem unknown_syscall:
  fixes s :: "'z kfile_scheme" and p :: nat
  defines "num \<equiv> sint (tf_eax (tf (proc_at s p)))"
  assumes "cur s = Some p" "p < length (procs s)" "screen_ok s" "ConsLk \<notin> set (held s)" "num \<le> 0 \<or> 28 \<le> num"
  shows "syscall b s = Fault ''syscallnames'' \<and> traceflag (proc_at s p) \<noteq> 0 \<and> num \<noteq> 0
    \<or> (traceflag (proc_at s p) = 0 \<or> num = 0) \<and> (\<exists>t. syscall b s = Ok () t
       \<and> drawn (s\<lparr>procs := upd p (\<lambda>q. q\<lparr>tf := (tf q)\<lparr>tf_eax := - 1\<rparr>\<rparr>) (procs s)\<rparr>) t)"
proof -
  let ?T = "syscalls b :: (('z kfile_scheme, int) k \<times> string) option list"
  let ?f = "\<lambda>q. q\<lparr>tf := (tf q)\<lparr>tf_eax := - 1\<rparr>\<rparr>" and ?q = "proc_at s p"
  have len: "length ?T = 28" by (simp add: syscalls_def)
  have h: "{ConsLk} \<inter> set (held s) = {}" using assms(5) by simp
  obtain t where t: "cprintf (''%d %s: unknown sys call %d'' @ newline) [AInt (pid ?q), AStr (Some (codes (pname ?q))), AInt num] s = Ok () t"
    "drawn s t" using draws_unknown assms(4) h unfolding draws_def by blast
  let ?t = "t\<lparr>procs := upd p ?f (procs s)\<rparr>"
  have dt: "drawn (s\<lparr>procs := upd p ?f (procs s)\<rparr>) ?t" using drawn_set_procs [OF t(2)] .
  have pt: "proc_at ?t p = ?f ?q" using assms(3) drawn_simps(7) [OF t(2)] by simp
  have so: "screen_ok ?t" "{ConsLk} \<inter> set (held ?t) = {}"
    using drawn_simps(1,6) [OF t(2)] assms(4) h by (simp_all add: screen_ok_def)
  obtain u where u: "cprintf (''ID: %d NOME: %s NUM_CALL: %d CALL_NAME %s'' @ newline)
      [AInt (pid ?q), AStr (Some (codes (pname ?q))), AInt num, AStr None] ?t = Ok () u" "drawn ?t u"
    using draws_trace so unfolding draws_def by blast
  have bad: "\<not> (0 < num \<and> num < int (length ?T) \<and> ?T ! nat num \<noteq> None)" using assms(6) len by auto
  have run: "syscall b s = (whenk (traceflag (proc_at ?t p) \<noteq> 0) (bindk (syscallname b num) (\<lambda>name.
       cprintf (''ID: %d NOME: %s NUM_CALL: %d CALL_NAME %s'' @ newline)
         [AInt (pid ?q), AStr (Some (codes (pname ?q))), AInt num, AStr name]))) ?t"
  proof -
    have c: "bindk curproc g s = g p s" for g :: "nat \<Rightarrow> ('z kfile_scheme, unit) k" using assms(2) by simp
    have pr: "procs t = procs s" using drawn_simps(7) [OF t(2)] .
    show ?thesis
      unfolding syscall_def c bindk_kget num_def [symmetric] if_not_P [OF bad]
      using t(1) pt pr by (simp add: set_eax_def bindk_kget)
  qed
  have "syscallname b num ?t = (if num = 0 then Ok None ?t else Fault ''syscallnames'')"
    using assms(6) len by (auto simp: syscallname_def syscalls_def)
  then show ?thesis
    using run u dt drawn_trans [OF dt u(2)] pt by (cases "traceflag ?q = 0"; cases "num = 0") auto
qed

lemma zero_page_process:
  fixes s :: "'z kfile_scheme"
  assumes "uactive s pd xs 4096" "\<forall>a < 4096. umem (memory s) pd a = 0" "cur s = Some 0" "0 < length (procs s)"
  defines "t \<equiv> s\<lparr>procs := upd 0 (\<lambda>p. p\<lparr>sz := 4096, tf := zero_tf\<rparr>) (procs s)\<rparr>"
  shows "readable t (sz (proc_at t 0))" "a < b \<Longrightarrow> b \<le> 4096 \<Longrightarrow> user_bytes t a b = replicate (b - a) 0"
    "sz (proc_at t 0) = 4096" "cur t = Some 0" "tf (proc_at t 0) = zero_tf"
proof -
  have u: "uactive t pd xs 4096" unfolding t_def using uactive_frame(2) [OF assms(1)] .
  show z: "sz (proc_at t 0) = 4096" "cur t = Some 0" "tf (proc_at t 0) = zero_tf" using assms(3,4) by (simp_all add: t_def)
  show "readable t (sz (proc_at t 0))" using uactive_readable [OF u] z(1) by simp
  have "ubyte t c = 0" if "c < 4096" for c
    using assms(2) that uactive_mmu [OF u that] by (simp add: ubyte_def umem_def t_def)
  then show "a < b \<Longrightarrow> b \<le> 4096 \<Longrightarrow> user_bytes t a b = replicate (b - a) 0"
    by (intro nth_equalityI) (simp_all add: user_bytes_def)
qed

theorem syscall_args_safe_witness:
  "\<exists>s :: kfile. argint 0 s = Ok (Some 0) s \<and> argptr 0 100 s = Ok (Some 0) s \<and> argptr 0 5000 s = Ok None s \<and> argstr 0 s = Ok (Some []) s"
proof -
  have b: "free_pages (boot_kfile demo_disk) []" "kend (boot_kfile demo_disk) \<le> KERNLINK + 4096"
    by (simp_all add: free_pages_def boot_defs)
  obtain m f x xs where u: "uactive ((boot_kfile demo_disk)\<lparr>memory := m, freelist := f, cr3 := V2P x\<rparr>) x xs 4096"
    "\<forall>a < 4096. umem m x a = 0" using user_page [OF b] by metis
  let ?r = "(boot_kfile demo_disk)\<lparr>memory := m, freelist := f, cr3 := V2P x\<rparr>"
  let ?s = "?r\<lparr>procs := upd 0 (\<lambda>p. p\<lparr>sz := 4096, tf := zero_tf\<rparr>) (procs ?r)\<rparr>"
  have r: "\<forall>a < 4096. umem (memory ?r) x a = 0" "cur ?r = Some 0" "0 < length (procs ?r)" using u(2) by (simp_all add: boot_defs)
  note z = zero_page_process [OF u(1) r]
  have "le (replicate 4 0) = 0" by (simp add: numeral_eq_Suc)
  then have i: "user_int ?s 4096 4 = Some 0" using z(2) [of 4 8] by (simp add: user_int_def s32_def)
  have t: "user_str ?s 4096 0 = Some []" using z(2) [of 0 4096] by (simp add: user_str_def)
  note args = syscall_args_safe [OF z(4,1), of _ 0, unfolded z(3,5)]
  show ?thesis
    using args [of 100] args [of 5000] i t by (intro exI [of _ ?s]) (simp add: zero_tf_def n32_def addr_of_def)
qed

theorem unknown_syscall_witness:
  "\<exists>s :: kfile. cur s = Some 0 \<and> sint (tf_eax (tf (proc_at s 0))) = 100 \<and> syscall LOTTERY s = Fault ''syscallnames''"
proof -
  let ?s = "(boot_kfile demo_disk)\<lparr>procs := upd 0 (\<lambda>p. p\<lparr>traceflag := 1, tf := zero_tf\<lparr>tf_eax := 100\<rparr>\<rparr>) (procs (boot_kfile demo_disk))\<rparr>"
  have s: "cur ?s = Some 0" "0 < length (procs ?s)" "screen_ok ?s" "ConsLk \<notin> set (held ?s)"
    by (simp_all add: boot_defs screen_ok_def)
  have e: "proc_at ?s 0 = (proc_at (boot_kfile demo_disk) 0)\<lparr>traceflag := 1, tf := zero_tf\<lparr>tf_eax := 100\<rparr>\<rparr>"
    using s(2) by simp
  then have n: "sint (tf_eax (tf (proc_at ?s 0))) = 100" "traceflag (proc_at ?s 0) = 1" by simp_all
  then show ?thesis using unknown_syscall [OF s, of LOTTERY] s(1) by (intro exI [of _ ?s]) auto
qed

end
