(* ===== verification/Accounting.thy ===== *)
theory Accounting
  imports Trap
begin

text \<open>
  A quantum of a process, seen from the timer: the trap handler, \<open>countprocs\<close>, \<open>wakeup\<close> and \<open>yield\<close>
  together. The closed form \<open>accounted\<close> says what \<open>n\<close> timer interrupts add to the counters that \<open>wait2\<close> reports.
\<close>

definition accounted :: "nat \<Rightarrow> proc \<Rightarrow> proc" where
  "accounted n q = (case state q of
     RUNNABLE \<Rightarrow> q\<lparr>retime := s32 (retime q + int n)\<rparr>
   | RUNNING \<Rightarrow> q\<lparr>rutime := s32 (rutime q + int n)\<rparr>
   | SLEEPING \<Rightarrow> if chan q = Some ChTicks \<and> 0 < n
       then q\<lparr>state := RUNNABLE, stime := s32 (stime q + 1), retime := s32 (retime q + int (n - 1))\<rparr>
       else q\<lparr>stime := s32 (stime q + int n)\<rparr>
   | _ \<Rightarrow> q)"

text \<open>Counters are C ints.\<close>

definition counters_ok :: "proc \<Rightarrow> bool" where
  "counters_ok q \<longleftrightarrow> s32 (retime q) = retime q \<and> s32 (rutime q) = rutime q \<and> s32 (stime q) = stime q"

lemma accounted_0: "counters_ok q \<Longrightarrow> accounted 0 q = q"
  by (cases q) (auto simp: accounted_def counters_ok_def split: procstate.split)

lemma s32_step: "s32 (s32 (x + int n) + 1) = s32 (x + int (Suc n))"
  unfolding s32_s32_add by (rule arg_cong [of _ _ s32]) simp

lemma accounted_Suc:
  assumes "counters_ok q"
  shows "wakeup_proc (Some ChTicks) (count_tick (accounted n q)) = accounted (Suc n) q"
proof (cases "state q = SLEEPING \<and> chan q = Some ChTicks")
  case True
  show ?thesis
  proof (cases n)
    case 0
    have "q\<lparr>state := RUNNABLE, stime := s32 (stime q + 1)\<rparr> = q\<lparr>state := RUNNABLE, stime := s32 (stime q + 1), retime := retime q\<rparr>"
      by (cases q) simp
    then show ?thesis using True 0 assms by (simp add: accounted_def count_tick_def wakeup_proc_def counters_ok_def)
  next
    case (Suc m)
    have a: "accounted (Suc k) q = q\<lparr>state := RUNNABLE, stime := s32 (stime q + 1), retime := s32 (retime q + int k)\<rparr>" for k
      using True by (simp add: accounted_def)
    show ?thesis unfolding Suc a count_tick_def wakeup_proc_def
      by (simp add: s32_step del: s32_s32_add of_nat_Suc)
  qed
next
  case False
  then show ?thesis
    by (cases "state q") (simp_all add: accounted_def count_tick_def wakeup_proc_def s32_step del: s32_s32_add of_nat_Suc)
qed

lemma accounted_simps [simp]:
  "timeslice (accounted n q) = timeslice q" "killed (accounted n q) = killed q"
  "accounted n (q\<lparr>timeslice := t\<rparr>) = (accounted n q)\<lparr>timeslice := t\<rparr>"
  "state q = RUNNING \<Longrightarrow> state (accounted n q) = RUNNING"
  by (auto simp: accounted_def split: procstate.split)

text \<open>The machine after \<open>n\<close> timer interrupts in the quantum of process \<open>p\<close>.\<close>

definition quantum :: "nat \<Rightarrow> nat \<Rightarrow> 'z kbase_scheme \<Rightarrow> 'z kbase_scheme" where
  "quantum p n s = sliced p n (s\<lparr>procs := map (accounted n) (procs s), ticks := ticks s + of_nat n\<rparr>)"

lemma map_upd: "(\<And>q. T (f q) = g (T q)) \<Longrightarrow> map T (upd p f xs) = upd p g (map T xs)"
  by (rule nth_equalityI) (simp_all add: nth_upd)

lemma quantum_Suc:
  fixes s :: "'z kbase_scheme"
  assumes "\<forall>q \<in> set (procs s). counters_ok q"
  shows "sliced p 1 (ticked (quantum p n s)) = quantum p (Suc n) s"
proof -
  let ?T = "\<lambda>q. wakeup_proc (Some ChTicks) (count_tick q)"
  let ?f = "\<lambda>k q. q\<lparr>timeslice := s32 (timeslice q - int k)\<rparr>"
  have "?T (?f n q) = ?f n (?T q)" for q by (cases "state q") (simp_all add: count_tick_def wakeup_proc_def)
  then have "map ?T (upd p (?f n) (map (accounted n) (procs s))) = upd p (?f n) (map ?T (map (accounted n) (procs s)))"
    by (rule map_upd)
  also have "map ?T (map (accounted n) (procs s)) = map (accounted (Suc n)) (procs s)"
    using assms accounted_Suc by auto
  finally have "upd p (?f 1) (map ?T (upd p (?f n) (map (accounted n) (procs s)))) = upd p (?f (Suc n)) (map (accounted (Suc n)) (procs s))"
    by (simp add: upd_upd s32_s32_diff algebra_simps)
  then show ?thesis by (simp add: quantum_def sliced_def ticked_def comp_def add.commute add.left_commute)
qed

lemma yield_block:
  assumes "held s = []" "cur s = Some p" "p < length (procs s)" "s32 (timeslice (proc_at s p) - 1) = 0"
  shows "\<exists>u. yield s = Block u \<and> state (proc_at u p) = RUNNABLE \<and> rutime (proc_at u p) = rutime (proc_at s p) \<and> held u = [PtableLk]"
proof -
  let ?r = "(sliced p 1 s)\<lparr>held := [PtableLk], procs := upd p (\<lambda>q. q\<lparr>state := RUNNABLE\<rparr>) (procs (sliced p 1 s))\<rparr>"
  have "sched ?r = Block (?r\<lparr>procs := upd p (\<lambda>q. q\<lparr>counter := s32 (counter q + 1)\<rparr>) (procs ?r)\<rparr>)"
    using assms(2,3) by (intro sched_run) simp_all
  then have "yield s = Block (?r\<lparr>procs := upd p (\<lambda>q. q\<lparr>counter := s32 (counter q + 1)\<rparr>) (procs ?r)\<rparr>)"
    using assms by (simp add: yield_run)
  then show ?thesis using assms(3) by (simp add: sliced_def)
qed

text \<open>C9: the accounting of a quantum. While a process runs with a time slice of \<open>t\<close> ticks, each of the first
  \<open>t - 1\<close> timer interrupts returns to it; after \<open>n\<close> of them the clock has advanced by \<open>n\<close>, the running time
  of the running processes, the ready time of the runnable ones and the sleep time of the sleeping ones
  have grown by \<open>n\<close>, processes asleep on the clock have become runnable at the first tick, and
  nothing else in the machine has changed. The interrupt number \<open>t\<close> gives up the CPU, with the process runnable and
  charged for all \<open>t\<close> ticks.\<close>

theorem quantum_accounting:
  fixes s :: "'z kfile_scheme"
  assumes "held s = []" "cur s = Some p" "p < length (procs s)" "state (proc_at s p) = RUNNING" "\<not> killed (proc_at s p)"
    and "timeslice (proc_at s p) = int (Suc t)" "Suc t < 2 ^ 31" "\<forall>q \<in> set (procs s). counters_ok q"
    and f: "unat (tf_trapno f) = T_IRQ0 + IRQ_TIMER"
  shows "(\<forall>n \<le> t. eachk (\<lambda>_. trap b pcs 0 cr2 f) [0..<n] s = Ok () (quantum p n s))
    \<and> (\<exists>u. eachk (\<lambda>_. trap b pcs 0 cr2 f) [0..<Suc t] s = Block u \<and> state (proc_at u p) = RUNNABLE
       \<and> rutime (proc_at u p) = s32 (rutime (proc_at s p) + int (Suc t)) \<and> held u = [PtableLk])"
proof -
  let ?tr = "\<lambda>_ :: nat. trap b pcs 0 cr2 f"
  have pq: "proc_at (quantum p n s) p = (accounted n (proc_at s p))\<lparr>timeslice := s32 (int (Suc t) - int n)\<rparr>"
    "held (quantum p n s) = []" "cur (quantum p n s) = Some p" "length (procs (quantum p n s)) = length (procs s)" for n
    using assms(1-3,6) by (simp_all add: quantum_def sliced_def)
  have ts: "s32 (timeslice (proc_at (quantum p n s) p) - 1) = int t - int n" if "n \<le> t" for n
    using that assms(7) unfolding pq by (simp add: s32_s32_diff s32_id)
  have "quantum p 0 s = s"
  proof -
    have "map (accounted 0) (procs s) = procs s" using assms(8) accounted_0 by (simp add: map_idI)
    moreover have "upd p (\<lambda>q. q\<lparr>timeslice := s32 (timeslice q - int 0)\<rparr>) (procs s) = procs s"
      using assms(3,6,7) by (intro nth_equalityI) (auto simp: nth_upd s32_id)
    ultimately show ?thesis by (simp add: quantum_def sliced_def)
  qed
  moreover have step: "?tr i (quantum p n s) = Ok () (quantum p (Suc n) s)" if "n < t" for i n
    using trap_timer_run [OF pq(2,3) _ _ _ _ f, of n] pq ts [of n] that assms(3-5) quantum_Suc [OF assms(8)] by simp
  ultimately have run: "eachk ?tr [0..<n] s = Ok () (quantum p n s)" if "n \<le> t" for n
    using that by (induction n) (simp_all add: eachk_append)
  let ?q = "ticked (quantum p t s)"
  have "\<exists>u. ?tr t (quantum p t s) = Block u \<and> state (proc_at u p) = RUNNABLE
       \<and> rutime (proc_at u p) = s32 (rutime (proc_at s p) + int (Suc t)) \<and> held u = [PtableLk]"
  proof -
    have q: "proc_at ?q p = wakeup_proc (Some ChTicks) (count_tick (proc_at (quantum p t s) p))"
      using assms(3) pq(4) by (simp add: ticked_def)
    have r: "state (proc_at ?q p) = RUNNING" "killed (proc_at ?q p) = killed (proc_at s p)"
      "rutime (proc_at ?q p) = s32 (rutime (proc_at s p) + int (Suc t))" "timeslice (proc_at ?q p) = timeslice (proc_at (quantum p t s) p)"
      using assms(4) unfolding q pq by (simp_all add: count_tick_def wakeup_proc_def accounted_def s32_step del: s32_s32_add of_nat_Suc)
    have h: "held ?q = []" "cur ?q = Some p" "p < length (procs ?q)" using pq assms(3) by (simp_all add: ticked_def)
    obtain u where u: "yield ?q = Block u" "state (proc_at u p) = RUNNABLE" "rutime (proc_at u p) = rutime (proc_at ?q p)" "held u = [PtableLk]"
      using yield_block [OF h] ts [of t] r(4) by auto
    have "?tr t (quantum p t s) = Block u"
      using f timer_tick_run [OF pq(2), of t] h(2) r(1,2) assms(5) u(1) by (simp add: trap_def trap_switch_def exit_if_killed_def)
    then show ?thesis using u r(3) by simp
  qed
  then show ?thesis using run by (auto simp: eachk_append)
qed

theorem quantum_accounting_witness:
  "\<exists>s :: kfile. eachk (\<lambda>_. trap LOTTERY (\<lambda>_. []) 0 0 (zero_tf\<lparr>tf_trapno := 32\<rparr>)) [0..<4] s = Ok () (quantum 0 4 s)
    \<and> rutime (proc_at (quantum 0 4 s) 0) = 4"
proof -
  let ?s = "(boot_kfile demo_disk)\<lparr>procs := upd 0 (\<lambda>p. p\<lparr>timeslice := 5\<rparr>) (procs (boot_kfile demo_disk))\<rparr>"
  have s: "held ?s = []" "cur ?s = Some 0" "0 < length (procs ?s)" "state (proc_at ?s 0) = RUNNING" "\<not> killed (proc_at ?s 0)"
    "timeslice (proc_at ?s 0) = int (Suc 4)" "Suc 4 < 2 ^ 31" "rutime (proc_at ?s 0) = 0"
    by (simp_all add: boot_defs zero_proc_def)
  have c: "\<forall>q \<in> set (procs ?s). counters_ok q" by (simp add: boot_defs upd_def counters_ok_def s32_def zero_proc_def)
  have "eachk (\<lambda>_. trap LOTTERY (\<lambda>_. []) 0 0 (zero_tf\<lparr>tf_trapno := 32\<rparr>)) [0..<4] ?s = Ok () (quantum 0 4 ?s)"
    using quantum_accounting [OF s(1-7) c, of "zero_tf\<lparr>tf_trapno := 32\<rparr>" LOTTERY "\<lambda>_. []" 0] by simp
  moreover have "rutime (proc_at (quantum 0 4 ?s) 0) = 4"
    using s(3,4,8) by (simp add: quantum_def sliced_def accounted_def s32_def)
  ultimately show ?thesis by blast
qed

end
