(* ===== verification/Paths.thy ===== *)
theory Paths
  imports Fs
begin

text \<open>
  How \<open>namex\<close> takes a path apart. The loop of \<open>namex\<close> calls \<open>skipelem\<close> until no element is left; the
  elements it sees are those between the slashes of the path, without empty ones and cut to \<open>DIRSIZ\<close> bytes.
\<close>

section \<open>The elements that the loop sees\<close>

function path_elems :: "u8 list \<Rightarrow> u8 list list" where
  "path_elems path = (case skipelem path of None \<Rightarrow> [] | Some (rest, name) \<Rightarrow> name # path_elems rest)"
  by pat_completeness auto
termination
  by (relation "measure length") (simp, metis in_measure skipelem_shorter)

declare path_elems.simps [simp del]

section \<open>Splitting at the slashes\<close>

definition parts :: "'a \<Rightarrow> 'a list \<Rightarrow> 'a list list" where
  "parts c xs = filter (\<lambda>p. p \<noteq> []) (split_on c xs)"

lemma parts_Nil [simp]: "parts c [] = []"
  by (simp add: parts_def)

lemma parts_skip: "parts c (dropWhile (\<lambda>x. x = c) xs) = parts c xs"
  by (induction xs) (simp_all add: parts_def)

lemma parts_unfold:
  assumes "x \<noteq> c"
  shows "parts c (x # xs) = takeWhile (\<lambda>y. y \<noteq> c) (x # xs) # parts c (dropWhile (\<lambda>y. y \<noteq> c) (x # xs))"
proof (cases "dropWhile (\<lambda>y. y \<noteq> c) xs")
  case Nil
  then have d: "dropWhile (\<lambda>y. y \<noteq> c) (x # xs) = []" using assms by simp
  have "split_on c (x # xs) = [takeWhile (\<lambda>y. y \<noteq> c) (x # xs)]" unfolding split_on_unfold [of c "x # xs"] d by simp
  then show ?thesis using assms unfolding parts_def d by simp
next
  case (Cons d ds)
  then have "d = c" using hd_dropWhile [of "\<lambda>y. y \<noteq> c" xs] by simp
  then show ?thesis using assms Cons split_on_unfold [of c "x # xs"] by (simp add: parts_def)
qed

lemma skipelem_parts:
  "(skipelem path = None \<and> parts slash path = []) \<or>
   (\<exists>rest n. skipelem path = Some (rest, take DIRSIZ n) \<and> parts slash path = n # parts slash rest
      \<and> (rest = [] \<longleftrightarrow> parts slash rest = []))"
proof (cases "dropWhile (\<lambda>x. x = slash) path")
  case Nil
  have "parts slash path = []" by (rule trans [OF parts_skip [symmetric]]) (subst Nil, rule parts_Nil)
  moreover have "skipelem path = None" unfolding skipelem_def Nil Let_def by simp
  ultimately show ?thesis by blast
next
  case (Cons y ys)
  then have y: "y \<noteq> slash" using hd_dropWhile [of "\<lambda>x. x = slash" path] by auto
  let ?q = "dropWhile (\<lambda>z. z \<noteq> slash) (y # ys)"
  let ?r = "dropWhile (\<lambda>z. z = slash) ?q" and ?n = "takeWhile (\<lambda>z. z \<noteq> slash) (y # ys)"
  have "skipelem path = Some (?r, take DIRSIZ ?n)" unfolding skipelem_def Cons Let_def by simp
  moreover have "parts slash path = ?n # parts slash ?r"
    using parts_skip [of slash path] parts_unfold [OF y, of ys] parts_skip [of slash ?q] unfolding Cons by simp
  moreover have "?r = [] \<longleftrightarrow> parts slash ?r = []"
  proof (cases ?r)
    case Nil
    show ?thesis unfolding Nil by simp
  next
    case (Cons z zs)
    then have "z \<noteq> slash" using hd_dropWhile [of "\<lambda>x. x = slash" ?q] by auto
    then show ?thesis unfolding Cons using parts_unfold [of z slash zs] by simp
  qed
  ultimately show ?thesis by blast
qed

section \<open>Property\<close>

text \<open>C6: path resolution sees the right names. For every path, the elements that the loop of \<open>namex\<close> takes
  off with \<open>skipelem\<close> are, in order, the non-empty parts between slashes, each cut to its first \<open>DIRSIZ\<close>
  bytes; repeated, leading and trailing slashes make no difference. The rest of the path that \<open>skipelem\<close>
  returns is empty exactly at the last element, which is how \<open>nameiparent\<close> knows where to stop.\<close>

theorem path_elems_parts:
  "path_elems path = map (take DIRSIZ) (parts slash path)
    \<and> (\<forall>rest name. skipelem path = Some (rest, name) \<longrightarrow> (rest = [] \<longleftrightarrow> length (parts slash path) = 1))"
proof
  show "path_elems path = map (take DIRSIZ) (parts slash path)"
  proof (induction path rule: path_elems.induct)
    case (1 path)
    show ?case using skipelem_parts [of path]
    proof (elim disjE exE conjE)
      fix rest n assume n: "skipelem path = Some (rest, take DIRSIZ n)" "parts slash path = n # parts slash rest"
      then have "path_elems path = take DIRSIZ n # path_elems rest" by (simp add: path_elems.simps [of path])
      then show ?thesis using "1.IH" [OF n(1) refl] n(2) by simp
    qed (simp add: path_elems.simps [of path])
  qed
  show "\<forall>rest name. skipelem path = Some (rest, name) \<longrightarrow> (rest = [] \<longleftrightarrow> length (parts slash path) = 1)"
    using skipelem_parts [of path] by auto
qed

theorem path_elems_parts_witness:
  "path_elems [0x2F, 0x61, 0x2F, 0x2F, 0x62, 0x63, 0x2F] = [[0x61], [0x62, 0x63]]"
  using path_elems_parts [of "[0x2F, 0x61, 0x2F, 0x2F, 0x62, 0x63, 0x2F]", THEN conjunct1] by (simp add: parts_def)

end
