(* ===== verification/Grep.thy ===== *)
theory Grep
  imports Prelude
begin

text \<open>
  The user program grep.c: the pattern matcher with its three functions and the loop over a file. C strings
  are lists of non-zero bytes. A file is the list of the results of the \<open>read\<close> calls, each a non-empty list of bytes;
  the output is the list of bytes written.
\<close>

abbreviation CARET :: u8 where "CARET \<equiv> 0x5E"
abbreviation STAR :: u8 where "STAR \<equiv> 0x2A"
abbreviation DOT :: u8 where "DOT \<equiv> 0x2E"
abbreviation DOLLAR :: u8 where "DOLLAR \<equiv> 0x24"
abbreviation NEWLINE :: u8 where "NEWLINE \<equiv> 0x0A"

section \<open>The matcher\<close>

text \<open>\<open>matchhere\<close> and \<open>matchstar\<close> call each other: the pattern gets shorter, or the text of the loop of
  \<open>matchstar\<close> does.\<close>

function matchhere :: "u8 list \<Rightarrow> u8 list \<Rightarrow> bool" and matchstar :: "u8 \<Rightarrow> u8 list \<Rightarrow> u8 list \<Rightarrow> bool" where
  "matchhere re text = (case re of [] \<Rightarrow> True
     | c # re1 \<Rightarrow>
        if re1 \<noteq> [] \<and> hd re1 = STAR then matchstar c (tl re1) text
        else if c = DOLLAR \<and> re1 = [] then text = []
        else if text \<noteq> [] \<and> (c = DOT \<or> c = hd text) then matchhere re1 (tl text)
        else False)"
| "matchstar c re text =
     (if matchhere re text then True
      else if text \<noteq> [] \<and> (hd text = c \<or> c = DOT) then matchstar c re (tl text)
      else False)"
  by pat_completeness auto
termination
  by (relation "measures [\<lambda>x. case x of Inl (re, text) \<Rightarrow> length re | Inr (c, re, text) \<Rightarrow> Suc (length re),
                          \<lambda>x. case x of Inl (re, text) \<Rightarrow> length text | Inr (c, re, text) \<Rightarrow> length text]")
     (auto simp: neq_Nil_conv)

declare matchhere.simps [simp del] matchstar.simps [simp del]

text \<open>The loop of \<open>match\<close> also looks at the empty string at the end of the text.\<close>

primrec match_loop :: "u8 list \<Rightarrow> u8 list \<Rightarrow> bool" where
  "match_loop re [] = matchhere re []"
| "match_loop re (c # text) = (if matchhere re (c # text) then True else match_loop re text)"

definition match :: "u8 list \<Rightarrow> u8 list \<Rightarrow> bool" where
  "match re text = (if re \<noteq> [] \<and> hd re = CARET then matchhere (tl re) text else match_loop re text)"

section \<open>What a pattern means\<close>

datatype item = One u8 | Many u8

text \<open>The items of a pattern, and whether it ends in the anchor.\<close>

fun items :: "u8 list \<Rightarrow> item list \<times> bool" where
  "items [] = ([], False)"
| "items [c] = (if c = DOLLAR then ([], True) else ([One c], False))"
| "items (c # d # re) = (if d = STAR then (Many c # fst (items re), snd (items re))
     else (One c # fst (items (d # re)), snd (items (d # re))))"

definition fits :: "u8 \<Rightarrow> u8 \<Rightarrow> bool" where
  "fits c x \<longleftrightarrow> c = DOT \<or> c = x"

primrec item_lang :: "item \<Rightarrow> u8 list set" where
  "item_lang (One c) = {[x] |x. fits c x}"
| "item_lang (Many c) = {xs. \<forall>x \<in> set xs. fits c x}"

primrec lang :: "item list \<Rightarrow> u8 list set" where
  "lang [] = {[]}"
| "lang (i # is) = {u @ v |u v. u \<in> item_lang i \<and> v \<in> lang is}"

text \<open>A text that starts with a word of the items; with the anchor, it is that word.\<close>

definition starts :: "item list \<Rightarrow> bool \<Rightarrow> u8 list \<Rightarrow> bool" where
  "starts is e s \<longleftrightarrow> (\<exists>mid post. s = mid @ post \<and> mid \<in> lang is \<and> (e \<longrightarrow> post = []))"

definition begins :: "u8 list \<Rightarrow> u8 list \<Rightarrow> bool" where
  "begins re s = starts (fst (items re)) (snd (items re)) s"

lemma starts_Cons: "starts (i # is) e s \<longleftrightarrow> (\<exists>u v. s = u @ v \<and> u \<in> item_lang i \<and> starts is e v)"
proof
  assume "starts (i # is) e s"
  then obtain mid post where m: "s = mid @ post" "mid \<in> lang (i # is)" "e \<longrightarrow> post = []" unfolding starts_def by blast
  then obtain u v where "mid = u @ v" "u \<in> item_lang i" "v \<in> lang is" by auto
  then show "\<exists>u v. s = u @ v \<and> u \<in> item_lang i \<and> starts is e v"
    using m by (intro exI [of _ u] exI [of _ "v @ post"]) (auto simp: starts_def)
next
  assume "\<exists>u v. s = u @ v \<and> u \<in> item_lang i \<and> starts is e v"
  then obtain u v post where "s = u @ (v @ post)" "u \<in> item_lang i" "v \<in> lang is" "e \<longrightarrow> post = []"
    unfolding starts_def by blast
  then show "starts (i # is) e s" unfolding starts_def by (intro exI [of _ "u @ v"] exI [of _ post]) auto
qed

lemma begins_Nil: "begins [] s"
  by (simp add: begins_def starts_def)

lemma begins_dollar: "begins [DOLLAR] s \<longleftrightarrow> s = []"
  by (simp add: begins_def starts_def)

lemma begins_star: "begins (c # STAR # re) s \<longleftrightarrow> (\<exists>u v. s = u @ v \<and> (\<forall>x \<in> set u. fits c x) \<and> begins re v)"
  by (simp add: begins_def starts_Cons)

lemma begins_one:
  assumes "re = [] \<longrightarrow> c \<noteq> DOLLAR" "re \<noteq> [] \<longrightarrow> hd re \<noteq> STAR"
  shows "begins (c # re) s \<longleftrightarrow> (\<exists>x v. s = x # v \<and> fits c x \<and> begins re v)"
proof -
  have "items (c # re) = (One c # fst (items re), snd (items re))" using assms by (cases re) auto
  moreover have "(\<exists>u v. s = u @ v \<and> u \<in> item_lang (One c) \<and> P v) \<longleftrightarrow> (\<exists>x v. s = x # v \<and> fits c x \<and> P v)" for P
    by (auto, metis append_Cons append_Nil)
  ultimately show ?thesis by (simp add: begins_def starts_Cons)
qed

lemma matchhere_begins:
  "matchhere re s \<longleftrightarrow> begins re s"
  "matchstar c re s \<longleftrightarrow> (\<exists>u v. s = u @ v \<and> (\<forall>x \<in> set u. fits c x) \<and> begins re v)"
proof (induction re s and c re s rule: matchhere_matchstar.induct)
  case (1 re s)
  show ?case
  proof (cases re)
    case Nil
    then show ?thesis by (simp add: matchhere.simps begins_Nil)
  next
    case (Cons c re1)
    consider (star) re2 where "re1 = STAR # re2" | (dollar) "c = DOLLAR" "re1 = []"
      | (one) "re1 = [] \<longrightarrow> c \<noteq> DOLLAR" "re1 \<noteq> [] \<longrightarrow> hd re1 \<noteq> STAR" by (cases re1) auto
    then show ?thesis
    proof cases
      case star
      then have "matchhere re s = matchstar c re2 s" by (subst matchhere.simps) (simp add: Cons)
      then show ?thesis using "1.IH"(1) [OF Cons] star by (simp add: Cons begins_star)
    next
      case dollar
      then show ?thesis by (simp add: Cons matchhere.simps begins_dollar)
    next
      case one
      have "matchhere re s \<longleftrightarrow> (\<exists>x v. s = x # v \<and> fits c x \<and> matchhere re1 v)"
        using one by (subst matchhere.simps) (cases s, auto simp: Cons fits_def)
      moreover have "matchhere re1 v \<longleftrightarrow> begins re1 v" if "s = x # v" "fits c x" for x v
        using "1.IH"(2) [OF Cons] one that by (cases re1) (auto simp: fits_def)
      ultimately show ?thesis using begins_one [OF one, of s] unfolding Cons by blast
    qed
  qed
next
  case (2 c re s)
  show ?case
  proof (cases "matchhere re s")
    case True
    then have "matchstar c re s" by (subst matchstar.simps) simp
    moreover have "begins re s" using True "2.IH"(1) by simp
    ultimately show ?thesis by (metis append_Nil empty_iff empty_set)
  next
    case False
    then have n: "\<not> begins re s" using "2.IH"(1) by simp
    have "matchstar c re s \<longleftrightarrow> (\<exists>x v. s = x # v \<and> fits c x \<and> matchstar c re v)"
      using False by (subst matchstar.simps) (cases s, auto simp: fits_def)
    also have "\<dots> \<longleftrightarrow> (\<exists>x v u w. s = x # v \<and> fits c x \<and> v = u @ w \<and> (\<forall>x \<in> set u. fits c x) \<and> begins re w)"
      using "2.IH"(2) [OF False] by (cases s) (auto simp: fits_def)
    also have "\<dots> \<longleftrightarrow> (\<exists>u w. s = u @ w \<and> (\<forall>x \<in> set u. fits c x) \<and> begins re w)"
      (is "?l \<longleftrightarrow> ?r")
    proof
      assume ?l
      then obtain x u w where "s = (x # u) @ w" "\<forall>y \<in> set (x # u). fits c y" "begins re w" by auto
      then show ?r by blast
    next
      assume ?r
      then obtain u w where u: "s = u @ w" "\<forall>x \<in> set u. fits c x" "begins re w" by blast
      then obtain x v where "u = x # v" using n by (cases u) auto
      then show ?l using u by auto
    qed
    finally show ?thesis .
  qed
qed

section \<open>A whole pattern\<close>

definition accepts :: "u8 list \<Rightarrow> u8 list \<Rightarrow> bool" where
  "accepts re s = (let top = (re \<noteq> [] \<and> hd re = CARET); body = (if top then tl re else re) in
     \<exists>pre mid post. s = pre @ mid @ post \<and> mid \<in> lang (fst (items body)) \<and> (top \<longrightarrow> pre = []) \<and> (snd (items body) \<longrightarrow> post = []))"

lemma match_loop_begins: "match_loop re s \<longleftrightarrow> (\<exists>pre rest. s = pre @ rest \<and> begins re rest)"
proof (induction s)
  case (Cons c s)
  show ?case
  proof
    assume "match_loop re (c # s)"
    then show "\<exists>pre rest. c # s = pre @ rest \<and> begins re rest"
      using Cons.IH matchhere_begins(1) by (metis append_Cons append_Nil match_loop.simps(2))
  next
    assume "\<exists>pre rest. c # s = pre @ rest \<and> begins re rest"
    then show "match_loop re (c # s)"
      using Cons.IH matchhere_begins(1) by (auto simp: Cons_eq_append_conv)
  qed
qed (simp add: matchhere_begins)

lemma match_accepts: "match re s = accepts re s"
  unfolding match_def accepts_def matchhere_begins match_loop_begins begins_def starts_def Let_def by auto

section \<open>The file loop\<close>

text \<open>The inner loop over the bytes from \<open>p\<close> to the end of the data; \<open>strchr\<close> stops at a zero byte. The result is what has been
  written and the bytes from the final \<open>p\<close> on.\<close>

function grep_lines :: "u8 list \<Rightarrow> u8 list \<Rightarrow> u8 list \<times> u8 list" where
  "grep_lines re d = (let line = takeWhile (\<lambda>c. c \<noteq> NEWLINE) (takeWhile (\<lambda>c. c \<noteq> 0) d) in
     if NEWLINE \<in> set (takeWhile (\<lambda>c. c \<noteq> 0) d)
     then let r = grep_lines re (drop (Suc (length line)) d) in ((if match re line then line @ [NEWLINE] else []) @ fst r, snd r)
     else ([], d))"
  by pat_completeness auto
termination
  by (relation "measure (\<lambda>(re, d). length d)") (auto intro!: diff_less)

declare grep_lines.simps [simp del]

text \<open>The outer loop, with the bytes kept from earlier reads. When no newline was found \<open>p == buf\<close> and \<open>m\<close> becomes 0.\<close>

primrec grep :: "u8 list \<Rightarrow> u8 list \<Rightarrow> u8 list list \<Rightarrow> u8 list" where
  "grep re b [] = []"
| "grep re b (c # cs) = (let r = grep_lines re (b @ c) in
     fst r @ grep re (if length (snd r) = length (b @ c) then [] else snd r) cs)"

text \<open>The complete lines of a text, and those that contain a match.\<close>

definition matching :: "u8 list \<Rightarrow> u8 list \<Rightarrow> u8 list" where
  "matching re d = concat (map (\<lambda>l. if accepts re l then l @ [NEWLINE] else []) (butlast (split_on NEWLINE d)))"

lemma matching_Cons:
  assumes "NEWLINE \<notin> set l"
  shows "matching re (l @ NEWLINE # d) = (if accepts re l then l @ [NEWLINE] else []) @ matching re d"
  using assms by (simp add: matching_def split_on_sep)

lemma grep_lines_matching: "0 \<notin> set d \<Longrightarrow> grep_lines re d = (matching re d, last (split_on NEWLINE d))"
proof (induction re d rule: grep_lines.induct)
  case (1 re d)
  have z: "takeWhile (\<lambda>c. c \<noteq> 0) d = d" using "1.prems" by (auto intro: takeWhile_eq_all_conv [THEN iffD2])
  show ?case
  proof (cases "NEWLINE \<in> set d")
    case False
    then show ?thesis by (subst grep_lines.simps) (simp add: z matching_def split_on_single)
  next
    case True
    let ?l = "takeWhile (\<lambda>c. c \<noteq> NEWLINE) d"
    obtain l r where d: "d = l @ NEWLINE # r" "NEWLINE \<notin> set l" using split_list_first [OF True] by blast
    have l: "?l = l" unfolding d(1) using d(2) by (subst takeWhile_append2) auto
    have r: "drop (Suc (length l)) d = r" by (simp add: d(1))
    have "grep_lines re r = (matching re r, last (split_on NEWLINE r))"
      using "1.IH" [OF refl] True "1.prems" unfolding z l r by (simp add: d(1))
    moreover have "grep_lines re d = ((if match re l then l @ [NEWLINE] else []) @ fst (grep_lines re r), snd (grep_lines re r))"
      using True by (subst grep_lines.simps) (simp add: z l r Let_def)
    moreover have "last (split_on NEWLINE d) = last (split_on NEWLINE r)"
      using d by (simp add: split_on_sep)
    ultimately show ?thesis using matching_Cons [OF d(2), of re r] by (simp add: match_accepts d(1) [symmetric])
  qed
qed

lemma grep_matching:
  "\<forall>c \<in> set cs. 0 \<notin> set c \<and> NEWLINE \<in> set c \<Longrightarrow> 0 \<notin> set b \<Longrightarrow> NEWLINE \<notin> set b \<Longrightarrow> grep re b cs = matching re (b @ concat cs)"
proof (induction cs arbitrary: b)
  case Nil
  then show ?case by (simp add: matching_def split_on_single)
next
  case (Cons c cs)
  let ?d = "b @ c" and ?r = "last (split_on NEWLINE (b @ c))"
  have g: "grep_lines re ?d = (matching re ?d, ?r)" using Cons.prems by (intro grep_lines_matching) simp
  have "NEWLINE \<in> set ?d" using Cons.prems(1) by simp
  then obtain u v where d: "?d = u @ NEWLINE # v" "NEWLINE \<notin> set v" using split_list_last by metis
  have r: "?r = v" using last_split_on [OF d(2), of u] unfolding d(1) .
  have "0 \<notin> set (u @ NEWLINE # v)" using Cons.prems unfolding d(1) [symmetric] by simp
  then have "grep re v cs = matching re (v @ concat cs)" using Cons.prems(1) d(2) by (intro Cons.IH) simp_all
  moreover have "matching re (?d @ concat cs) = matching re ?d @ matching re (v @ concat cs)"
    unfolding matching_def split_on_append [of NEWLINE ?d "concat cs"] r by (simp add: butlast_append)
  moreover have "length v \<noteq> length ?d" unfolding d(1) by simp
  ultimately show ?case using g by (simp add: r)
qed

section \<open>Property\<close>

text \<open>C12: what grep prints. If every \<open>read\<close> delivers at least one newline and no zero byte, the output consists of
  the complete lines of the file that contain a match of the pattern, in order; the meaning of a pattern is the
  language of its items: a byte, \<open>.\<close> for any byte, \<open>x*\<close> for any number of bytes that fit \<open>x\<close>, with \<open>^\<close> at the
  start and \<open>$\<close> at the end as anchors. But data from a \<open>read\<close> that ends before a newline, with nothing kept from
  earlier reads, is thrown away, so that the output depends on how the file is cut into reads.\<close>

theorem grep_prints:
  "((\<forall>c \<in> set cs. 0 \<notin> set c \<and> NEWLINE \<in> set c) \<longrightarrow> grep re [] cs
      = concat (map (\<lambda>l. if accepts re l then l @ [NEWLINE] else []) (butlast (split_on NEWLINE (concat cs)))))
    \<and> (NEWLINE \<notin> set d \<longrightarrow> grep re [] (d # cs) = grep re [] cs)"
proof -
  have "NEWLINE \<notin> set (takeWhile (\<lambda>c. c \<noteq> 0) d)" if "NEWLINE \<notin> set d" using that by (auto dest: set_takeWhileD)
  then have "grep_lines re d = ([], d)" if "NEWLINE \<notin> set d" using that by (subst grep_lines.simps) simp
  then show ?thesis using grep_matching [of cs "[]" re] by (auto simp: matching_def)
qed

theorem grep_prints_witness:
  "grep [0x61, 0x2A, 0x62, 0x24] [] [[0x61, 0x61, 0x62, 0x0A, 0x63, 0x0A]] = [0x61, 0x61, 0x62, 0x0A]
   \<and> grep [0x61, 0x62] [] [[0x61], [0x62, 0x0A]] = []"
proof
  have "accepts [0x61, 0x2A, 0x62, 0x24] [0x61, 0x61, 0x62]" "\<not> accepts [0x61, 0x2A, 0x62, 0x24] [0x63]"
    "\<not> accepts [0x61, 0x62] [0x62]"
    unfolding match_accepts [symmetric] by (simp_all add: match_def matchhere.simps matchstar.simps)
  then show "grep [0x61, 0x2A, 0x62, 0x24] [] [[0x61, 0x61, 0x62, 0x0A, 0x63, 0x0A]] = [0x61, 0x61, 0x62, 0x0A]"
    "grep [0x61, 0x62] [] [[0x61], [0x62, 0x0A]] = []"
    using grep_prints [of "[[0x61, 0x61, 0x62, 0x0A, 0x63, 0x0A]]" "[0x61, 0x2A, 0x62, 0x24]" "[]"]
      grep_prints [of "[[0x62, 0x0A]]" "[0x61, 0x62]" "[0x61]"] by simp_all
qed

end
