(* ===== verification/Sh.thy ===== *)
theory Sh
  imports Params
begin

text \<open>
  The parser of the shell (sh.c). The state of the parser is the text from \<open>*ps\<close> up to \<open>es\<close>; a call is a function of that
  state as in the kernel model, a syntax error being a panic. The tree holds the words themselves: the bytes between the pointers
  \<open>q\<close> and \<open>eq\<close> that \<open>nulterminate\<close> makes C strings of after the whole line has been read. Loops and recursive calls carry fuel,
  and running out of it is \<open>Hang\<close>; \<open>parsecmd\<close> starts with enough for any line.
\<close>

section \<open>Commands\<close>

datatype cmd = EXEC "u8 list list" | REDIR cmd "u8 list" nat nat | PIPE cmd cmd | LIST cmd cmd | BACK cmd

definition MAXARGS :: nat where [simp]: "MAXARGS = 10"

text \<open>Modes of fcntl.h.\<close>

definition MODE_IN :: nat where "MODE_IN = 0"
definition MODE_OUT :: nat where "MODE_OUT = 0x201"

section \<open>Tokens\<close>

definition whitespace :: "u8 set" where "whitespace = {32, 9, 13, 10, 11}"
definition symbols :: "u8 set" where "symbols = {60, 124, 62, 38, 59, 40, 41}"

abbreviation word_char :: "u8 \<Rightarrow> bool" where
  "word_char c \<equiv> c \<notin> whitespace \<and> c \<notin> symbols"

definition skip_ws :: "u8 list \<Rightarrow> u8 list" where
  "skip_ws = dropWhile (\<lambda>c. c \<in> whitespace)"

text \<open>The token code (0 at the end, the symbol, 43 for \<open>>>\<close>, 97 for a word) and the text of the token.\<close>

definition gettoken :: "(u8 list, u8 \<times> u8 list) k" where
  "gettoken = (\<lambda>s. case skip_ws s of [] \<Rightarrow> Ok (0, []) []
     | c # r \<Rightarrow>
        if c \<in> {124, 40, 41, 59, 38, 60} then Ok (c, [c]) (skip_ws r)
        else if c = 62 then (if r \<noteq> [] \<and> hd r = 62 then Ok (43, [c, c]) (skip_ws (tl r)) else Ok (62, [c]) (skip_ws r))
        else Ok (97, takeWhile word_char (c # r)) (skip_ws (dropWhile word_char (c # r))))"

definition peek :: "u8 set \<Rightarrow> (u8 list, bool) k" where
  "peek toks = (\<lambda>s. let s = skip_ws s in Ok (s \<noteq> [] \<and> hd s \<in> toks) s)"

section \<open>The parser\<close>

text \<open>Redirections: file, mode, descriptor. The C code wraps the command in one \<open>redircmd\<close> after the other; the inner
  \<open>execcmd\<close> still gets its words afterwards, so that the model keeps the redirections apart until the words are known.\<close>

type_synonym redir = "u8 list \<times> nat \<times> nat"

primrec wrap :: "redir list \<Rightarrow> cmd \<Rightarrow> cmd" where
  "wrap [] c = c"
| "wrap (r # rs) c = wrap rs (REDIR c (fst r) (fst (snd r)) (snd (snd r)))"

primrec parseredirs :: "nat \<Rightarrow> (u8 list, redir list) k" where
  "parseredirs 0 = (\<lambda>_. Hang)"
| "parseredirs (Suc n) = bindk (peek {60, 62}) (\<lambda>b.
     if b then bindk gettoken (\<lambda>x. bindk gettoken (\<lambda>y.
       if fst y \<noteq> 97 then kpanic ''missing file for redirection''
       else bindk (parseredirs n) (\<lambda>rs. kret ((snd y, if fst x = 60 then (MODE_IN, 0) else (MODE_OUT, 1)) # rs))))
     else kret [])"

text \<open>The loop of \<open>parseexec\<close>, with the words and redirections so far.\<close>

primrec parseargs :: "nat \<Rightarrow> u8 list list \<Rightarrow> redir list \<Rightarrow> (u8 list, cmd) k" where
  "parseargs 0 args rs = (\<lambda>_. Hang)"
| "parseargs (Suc n) args rs = bindk (peek {124, 41, 38, 59}) (\<lambda>stop.
     if stop then kret (wrap rs (EXEC args))
     else bindk gettoken (\<lambda>x.
       if fst x = 0 then kret (wrap rs (EXEC args))
       else if fst x \<noteq> 97 then kpanic ''syntax''
       else if MAXARGS \<le> Suc (length args) then kpanic ''too many args''
       else bindk (parseredirs n) (\<lambda>rs'. parseargs n (args @ [snd x]) (rs @ rs'))))"

primrec parseback :: "nat \<Rightarrow> cmd \<Rightarrow> (u8 list, cmd) k" where
  "parseback 0 c = (\<lambda>_. Hang)"
| "parseback (Suc n) c = bindk (peek {38}) (\<lambda>b. if b then thenk gettoken (parseback n (BACK c)) else kret c)"

fun parseline :: "nat \<Rightarrow> (u8 list, cmd) k" and parsepipe :: "nat \<Rightarrow> (u8 list, cmd) k"
  and parseexec :: "nat \<Rightarrow> (u8 list, cmd) k" and parseblock :: "nat \<Rightarrow> (u8 list, cmd) k" where
  "parseline 0 = (\<lambda>_. Hang)"
| "parseline (Suc n) = bindk (parsepipe n) (\<lambda>c. bindk (parseback n c) (\<lambda>c.
     bindk (peek {59}) (\<lambda>b. if b then thenk gettoken (bindk (parseline n) (\<lambda>d. kret (LIST c d))) else kret c)))"
| "parsepipe 0 = (\<lambda>_. Hang)"
| "parsepipe (Suc n) = bindk (parseexec n) (\<lambda>c.
     bindk (peek {124}) (\<lambda>b. if b then thenk gettoken (bindk (parsepipe n) (\<lambda>d. kret (PIPE c d))) else kret c))"
| "parseexec 0 = (\<lambda>_. Hang)"
| "parseexec (Suc n) = bindk (peek {40}) (\<lambda>b. if b then parseblock n
     else bindk (parseredirs n) (parseargs n []))"
| "parseblock 0 = (\<lambda>_. Hang)"
| "parseblock (Suc n) = bindk (peek {40}) (\<lambda>b. if b then thenk gettoken (bindk (parseline n) (\<lambda>c. bindk (peek {41}) (\<lambda>b.
       if b then thenk gettoken (bindk (parseredirs n) (\<lambda>rs. kret (wrap rs c)))
       else kpanic ''syntax - missing )'')))
     else kpanic ''parseblock'')"

definition parse_fuel :: "u8 list \<Rightarrow> nat" where
  "parse_fuel s = 4 * length s + 4"

definition parsecmd :: "u8 list \<Rightarrow> (cmd, u8 list) res" where
  "parsecmd s = (bindk (parseline (parse_fuel s)) (\<lambda>c. thenk (peek {})
     (\<lambda>r. if r \<noteq> [] then Panic ''syntax'' else Ok c r)) s)"

section \<open>The fuel is enough\<close>

definition within :: "nat \<Rightarrow> ('a, u8 list) res \<Rightarrow> bool" where
  "within m r \<longleftrightarrow> (case r of Ok x t \<Rightarrow> length t \<le> m | Panic _ \<Rightarrow> True | _ \<Rightarrow> False)"

lemma within_simps [simp]: "within m (Ok x t) \<longleftrightarrow> length t \<le> m" "within m (Panic e)" "\<not> within m Hang"
  "\<not> within m (Fault e)" "\<not> within m (Block t)"
  by (simp_all add: within_def)

text \<open>\<open>tame m f\<close>: on every text of at most \<open>m\<close> characters, \<open>f\<close> ends and does not lengthen the text.\<close>

named_theorems tame_intro

definition tame :: "nat \<Rightarrow> (u8 list, 'a) k \<Rightarrow> bool" where
  "tame m f \<longleftrightarrow> (\<forall>s. length s \<le> m \<longrightarrow> within (length s) (f s))"

lemma tame_bind [tame_intro]:
  assumes "tame m f" "\<And>x. tame m (g x)"
  shows "tame m (bindk f g)"
  unfolding tame_def
proof (intro allI impI)
  fix s :: "u8 list" assume s: "length s \<le> m"
  then have f: "within (length s) (f s)" using assms(1) by (simp add: tame_def)
  show "within (length s) (bindk f g s)"
  proof (cases "f s")
    case (Ok x t)
    then have "within (length t) (g x t)" "length t \<le> length s" using f assms(2) s by (simp_all add: tame_def)
    then show ?thesis using Ok by (auto simp: within_def split: res.splits)
  qed (use f in simp_all)
qed

lemma tame_then [tame_intro]: "tame m f \<Longrightarrow> tame m g \<Longrightarrow> tame m (thenk f g)"
  unfolding thenk_def by (intro tame_intro)

lemma tame_ret [tame_intro]: "tame m (kret x)" "tame m (kpanic e)"
  by (simp_all add: tame_def)

lemma tame_if [tame_intro]: "(b \<Longrightarrow> tame m f) \<Longrightarrow> (\<not> b \<Longrightarrow> tame m g) \<Longrightarrow> tame m (if b then f else g)"
  by simp

lemma length_skip_ws: "length (skip_ws s) \<le> length s"
  by (simp add: skip_ws_def length_dropWhile_le)

lemma skip_ws_idem [simp]: "skip_ws (skip_ws s) = skip_ws s"
  by (simp add: skip_ws_def)

lemma skip_ws_word: "skip_ws s = c # r \<Longrightarrow> c \<notin> whitespace"
  using hd_dropWhile [of "\<lambda>c. c \<in> whitespace" s] by (auto simp: skip_ws_def)

lemma peek_run: "peek S s = Ok (skip_ws s \<noteq> [] \<and> hd (skip_ws s) \<in> S) (skip_ws s)"
  by (simp add: peek_def Let_def)

text \<open>A token takes at least one character, unless the text is at its end.\<close>

lemma gettoken_run:
  "\<exists>x r. gettoken s = Ok x r \<and> length r \<le> length s \<and> (skip_ws s \<noteq> [] \<longrightarrow> length r < length s)"
proof (cases "skip_ws s")
  case (Cons c r)
  have l: "length r < length s" using length_skip_ws [of s] by (simp add: Cons)
  have "length (skip_ws r) < length s" using length_skip_ws [of r] l by simp
  moreover have "length (skip_ws (tl r)) < length s" using length_skip_ws [of "tl r"] l by simp
  moreover have "length (skip_ws (dropWhile word_char r)) < length s"
    using length_skip_ws [of "dropWhile word_char r"] length_dropWhile_le [of word_char r] l by linarith
  moreover have "c \<notin> whitespace" using skip_ws_word [OF Cons] .
  ultimately show ?thesis using Cons by (auto simp: gettoken_def symbols_def)
qed (simp add: gettoken_def)

lemma tame_gettoken [tame_intro]: "tame m gettoken"
proof -
  have "within (length s) (gettoken s)" for s using gettoken_run [of s] by auto
  then show ?thesis by (simp add: tame_def)
qed

lemma tame_peek [tame_intro]: "tame m (peek S)"
  by (simp add: tame_def peek_run length_skip_ws)

text \<open>After a successful \<open>peek\<close> the next token shortens the text; the empty text never gets there.\<close>

lemma tame_accept:
  assumes "0 < m \<Longrightarrow> \<forall>x. tame (m - 1) (f x)" "tame m g"
  shows "tame m (bindk (peek S) (\<lambda>b. if b then bindk gettoken f else g))"
  unfolding tame_def
proof (intro allI impI)
  fix s :: "u8 list" assume s: "length s \<le> m"
  let ?b = "skip_ws s \<noteq> [] \<and> hd (skip_ws s) \<in> S" and ?t = "skip_ws s"
  have t: "length ?t \<le> length s" by (rule length_skip_ws)
  show "within (length s) (bindk (peek S) (\<lambda>b. if b then bindk gettoken f else g) s)"
  proof (cases ?b)
    case True
    obtain x u where u: "gettoken ?t = Ok x u" "length u < length ?t" using gettoken_run [of ?t] True by auto
    then have "0 < m" "length u \<le> m - 1" using s t by linarith+
    then have "within (length u) (f x u)" using assms(1) unfolding tame_def by blast
    then have "within (length s) (f x u)" using u(2) t by (auto simp: within_def split: res.splits)
    then show ?thesis using True u(1) by (simp add: peek_run)
  next
    case False
    have "within (length ?t) (g ?t)" using assms(2) s t by (simp add: tame_def)
    then have "within (length s) (g ?t)" using t by (auto simp: within_def split: res.splits)
    moreover have "peek S s = Ok False ?t" using False by (auto simp: peek_run)
    ultimately show ?thesis by (simp add: bindk_def)
  qed
qed

lemmas tame_accept_then = tame_accept [of _ "\<lambda>_. f" for f, folded thenk_def]

lemma tame_parseredirs [tame_intro]: "m < n \<Longrightarrow> tame m (parseredirs n)"
proof (induction n arbitrary: m)
  case (Suc n)
  then show ?case unfolding parseredirs.simps by (intro tame_accept allI tame_intro) simp_all
qed simp

lemma tame_parseback [tame_intro]: "m < n \<Longrightarrow> tame m (parseback n c)"
proof (induction n arbitrary: m c)
  case (Suc n)
  then show ?case unfolding parseback.simps by (intro tame_accept_then allI tame_intro) simp_all
qed simp

lemma tame_parseargs [tame_intro]: "m < n \<Longrightarrow> tame m (parseargs n args rs)"
proof (induction n arbitrary: m args rs)
  case (Suc n)
  let ?k = "\<lambda>x. if fst x = 0 then kret (wrap rs (EXEC args)) else if fst x \<noteq> 97 then kpanic ''syntax''
       else if MAXARGS \<le> Suc (length args) then kpanic ''too many args''
       else bindk (parseredirs n) (\<lambda>rs'. parseargs n (args @ [snd x]) (rs @ rs'))"
  have go: "tame (m - 1) (bindk (parseredirs n) (\<lambda>rs'. parseargs n a (rs @ rs')))" if "0 < m" for a
    using Suc that by (intro tame_intro) simp_all
  have "within (length t) (bindk gettoken ?k t)" if t: "length t \<le> m" for t
  proof -
    obtain x u where u: "gettoken t = Ok x u" "length u \<le> length t" "skip_ws t \<noteq> [] \<longrightarrow> length u < length t" using gettoken_run [of t] by blast
    have "fst x = 0" if "skip_ws t = []" using u(1) that by (auto simp: gettoken_def)
    then consider "fst x = 0" | "0 < m" "length u \<le> m - 1" "length u < length t" using u(3) t by fastforce
    then show ?thesis
    proof cases
      case 2
      then have "within (length u) (bindk (parseredirs n) (\<lambda>rs'. parseargs n (args @ [snd x]) (rs @ rs')) u)" using go by (simp add: tame_def)
      then have "within (length t) (bindk (parseredirs n) (\<lambda>rs'. parseargs n (args @ [snd x]) (rs @ rs')) u)"
        using u(2) by (auto simp: within_def split: res.splits)
      then show ?thesis using u by simp
    qed (use u in simp)
  qed
  then have "tame m (bindk gettoken ?k)" by (simp add: tame_def)
  then show ?case unfolding parseargs.simps by (intro tame_bind [OF tame_peek] tame_if tame_ret)
qed simp

lemma tame_parse:
  "(4 * m + 4 \<le> n \<longrightarrow> tame m (parseline n)) \<and> (4 * m + 3 \<le> n \<longrightarrow> tame m (parsepipe n))
   \<and> (4 * m + 2 \<le> n \<longrightarrow> tame m (parseexec n)) \<and> (4 * m + 1 \<le> n \<longrightarrow> tame m (parseblock n))"
proof (induction n arbitrary: m)
  case (Suc n)
  show ?case
  proof (intro conjI impI)
    assume "4 * m + 4 \<le> Suc n"
    then show "tame m (parseline (Suc n))" unfolding parseline.simps
      using Suc.IH [of m] Suc.IH [of "m - 1"] by (intro tame_bind tame_accept_then allI tame_intro) auto
  next
    assume "4 * m + 3 \<le> Suc n"
    then show "tame m (parsepipe (Suc n))" unfolding parsepipe.simps
      using Suc.IH [of m] Suc.IH [of "m - 1"] by (intro tame_bind tame_accept_then allI tame_intro) auto
  next
    assume "4 * m + 2 \<le> Suc n"
    then show "tame m (parseexec (Suc n))" unfolding parseexec.simps
      using Suc.IH [of m] by (intro tame_intro) auto
  next
    assume a: "4 * m + 1 \<le> Suc n"
    have "tame (m - 1) (bindk (parseline n) (\<lambda>c. bindk (peek {41}) (\<lambda>b.
       if b then thenk gettoken (bindk (parseredirs n) (\<lambda>rs. kret (wrap rs c))) else kpanic ''syntax - missing )'')))" if "0 < m"
      using Suc.IH [of "m - 1"] a that by (intro tame_intro) auto
    then show "tame m (parseblock (Suc n))" unfolding parseblock.simps by (intro tame_accept_then tame_intro) auto
  qed
qed simp

lemma parsecmd_total: "\<exists>c r. parsecmd s = Ok c r \<or> (\<exists>e. parsecmd s = Panic e)"
proof -
  have "within (length s) (parseline (parse_fuel s) s)"
    using tame_parse [of "length s" "parse_fuel s"] by (simp add: tame_def parse_fuel_def)
  then show ?thesis by (cases "parseline (parse_fuel s) s") (simp_all add: parsecmd_def peek_run thenk_def bindk_def)
qed

section \<open>More fuel gives the same result\<close>

named_theorems agrees_intro

definition agrees :: "('s, 'a) k \<Rightarrow> ('s, 'a) k \<Rightarrow> bool" where
  "agrees f g \<longleftrightarrow> (\<forall>s. f s \<noteq> Hang \<longrightarrow> g s = f s)"

lemma agrees_refl [agrees_intro]: "agrees f f"
  by (simp add: agrees_def)

lemma agrees_Hang [agrees_intro]: "agrees (\<lambda>_. Hang) f"
  by (simp add: agrees_def)

lemma agrees_bind [agrees_intro]: "agrees f f' \<Longrightarrow> (\<And>x. agrees (g x) (g' x)) \<Longrightarrow> agrees (bindk f g) (bindk f' g')"
  unfolding agrees_def bindk_def by (auto split: res.splits)

lemma agrees_then [agrees_intro]: "agrees f f' \<Longrightarrow> agrees g g' \<Longrightarrow> agrees (thenk f g) (thenk f' g')"
  unfolding thenk_def by (intro agrees_intro)

lemma agrees_if [agrees_intro]: "agrees f f' \<Longrightarrow> agrees g g' \<Longrightarrow> agrees (if b then f else g) (if b then f' else g')"
  by simp

lemma agrees_parseredirs [agrees_intro]: "n \<le> m \<Longrightarrow> agrees (parseredirs n) (parseredirs m)"
proof (induction n arbitrary: m)
  case (Suc n)
  then show ?case by (cases m) (auto intro!: agrees_intro)
qed (simp add: agrees_Hang)

lemma agrees_parseargs [agrees_intro]: "n \<le> m \<Longrightarrow> agrees (parseargs n a r) (parseargs m a r)"
proof (induction n arbitrary: m a r)
  case (Suc n)
  then show ?case by (cases m) (auto intro!: agrees_intro)
qed (simp add: agrees_Hang)

lemma agrees_parseback [agrees_intro]: "n \<le> m \<Longrightarrow> agrees (parseback n c) (parseback m c)"
proof (induction n arbitrary: m c)
  case (Suc n)
  then show ?case by (cases m) (auto intro!: agrees_intro)
qed (simp add: agrees_Hang)

lemma agrees_parse:
  "n \<le> m \<Longrightarrow> agrees (parseline n) (parseline m) \<and> agrees (parsepipe n) (parsepipe m)
     \<and> agrees (parseexec n) (parseexec m) \<and> agrees (parseblock n) (parseblock m)"
proof (induction n arbitrary: m)
  case (Suc n)
  then obtain k where k: "m = Suc k" "n \<le> k" by (cases m) auto
  note IH = Suc.IH [OF k(2)]
  show ?case unfolding k parseline.simps parsepipe.simps parseexec.simps parseblock.simps
    using IH k(2) by (intro conjI agrees_intro) simp_all
qed (simp add: agrees_Hang)

section \<open>Printing\<close>

definition show_redir :: "redir \<Rightarrow> u8 list" where
  "show_redir x = (if snd (snd x) = 0 then 60 else 62) # fst x @ [32]"

definition show_words :: "u8 list list \<Rightarrow> u8 list" where
  "show_words ws = concat (map (\<lambda>w. w @ [32]) ws)"

text \<open>The levels of the grammar: line, command with ampersands, pipeline, single command.\<close>

primrec level :: "cmd \<Rightarrow> nat" where
  "level (LIST c d) = 0"
| "level (BACK c) = 1"
| "level (PIPE c d) = 2"
| "level (EXEC ws) = 3"
| "level (REDIR c f m d) = 3"

definition paren :: "nat \<Rightarrow> nat \<Rightarrow> u8 list \<Rightarrow> u8 list" where
  "paren k l s = (if k \<le> l then s else 40 # s @ [41])"

primrec show_cmd :: "cmd \<Rightarrow> u8 list" where
  "show_cmd (EXEC ws) = show_words ws"
| "show_cmd (REDIR c f m d) = paren 3 (level c) (show_cmd c) @ show_redir (f, m, d)"
| "show_cmd (PIPE c d) = paren 3 (level c) (show_cmd c) @ 124 # paren 2 (level d) (show_cmd d)"
| "show_cmd (LIST c d) = paren 1 (level c) (show_cmd c) @ 59 # show_cmd d"
| "show_cmd (BACK c) = paren 1 (level c) (show_cmd c) @ [38]"

definition is_word :: "u8 list \<Rightarrow> bool" where
  "is_word w \<longleftrightarrow> w \<noteq> [] \<and> (\<forall>c \<in> set w. word_char c)"

definition redir_ok :: "redir \<Rightarrow> bool" where
  "redir_ok x \<longleftrightarrow> is_word (fst x) \<and> (snd x = (MODE_IN, 0) \<or> snd x = (MODE_OUT, 1))"

primrec printable :: "cmd \<Rightarrow> bool" where
  "printable (EXEC ws) \<longleftrightarrow> length ws < MAXARGS \<and> (\<forall>w \<in> set ws. is_word w)"
| "printable (REDIR c f m d) \<longleftrightarrow> printable c \<and> redir_ok (f, m, d)"
| "printable (PIPE c d) \<longleftrightarrow> printable c \<and> printable d"
| "printable (LIST c d) \<longleftrightarrow> printable c \<and> printable d"
| "printable (BACK c) \<longleftrightarrow> printable c"

section \<open>Reading back what was printed\<close>

definition stops :: "u8 set \<Rightarrow> u8 list \<Rightarrow> bool" where
  "stops S r \<longleftrightarrow> skip_ws r = [] \<or> hd (skip_ws r) \<in> S"

lemma skip_ws_Cons [simp]: "skip_ws (c # r) = (if c \<in> whitespace then skip_ws r else c # r)"
  by (simp add: skip_ws_def)

lemma skip_ws_Nil [simp]: "skip_ws [] = []"
  by (simp add: skip_ws_def)

lemma sym_not_ws [simp]: "124 \<notin> whitespace" "40 \<notin> whitespace" "41 \<notin> whitespace" "59 \<notin> whitespace" "38 \<notin> whitespace"
  "60 \<notin> whitespace" "62 \<notin> whitespace" "32 \<in> whitespace"
  by (simp_all add: whitespace_def)

lemma skip_ws_is_word [simp]: "is_word w \<Longrightarrow> skip_ws (w @ r) = w @ r"
  by (cases w) (auto simp: is_word_def)

lemma gettoken_word:
  assumes "is_word w"
  shows "gettoken (w @ 32 # r) = Ok (97, w) (skip_ws r)"
proof -
  obtain c v where w: "w = c # v" using assms by (cases w) (auto simp: is_word_def)
  have c: "word_char c" "\<forall>x \<in> set v. word_char x" using assms by (auto simp: w is_word_def)
  have "takeWhile word_char (c # v @ 32 # r) = c # v" "dropWhile word_char (c # v @ 32 # r) = 32 # r"
    using c by (simp_all add: takeWhile_append2 dropWhile_append2)
  then show ?thesis using c(1) by (simp add: w gettoken_def symbols_def)
qed

lemma gettoken_sym: "c \<in> {124, 40, 41, 59, 38, 60} \<Longrightarrow> gettoken (c # r) = Ok (c, [c]) (skip_ws r)"
  by (auto simp: gettoken_def)

lemma gettoken_out: "is_word w \<Longrightarrow> gettoken (62 # w @ r) = Ok (62, [62]) (w @ r)"
  by (cases w) (auto simp: gettoken_def is_word_def symbols_def)

lemma peek_no: "stops T r \<Longrightarrow> S \<inter> T = {} \<Longrightarrow> peek S r = Ok False (skip_ws r)"
  by (auto simp: stops_def peek_run)

lemma peek_sym: "c \<notin> whitespace \<Longrightarrow> peek S (c # r) = Ok (c \<in> S) (c # r)"
  by (simp add: peek_run)

lemma peek_word: "is_word w \<Longrightarrow> S \<subseteq> symbols \<Longrightarrow> peek S (w @ r) = Ok False (w @ r)"
  by (cases w) (auto simp: peek_run is_word_def)

lemma bindk_bool [simp]: "f s = Ok True t \<Longrightarrow> bindk f g s = g True t" "f s = Ok False t \<Longrightarrow> bindk f g s = g False t"
  by (simp_all add: bindk_def)

lemma skip_show_redir [simp]: "skip_ws (show_redir x @ r) = show_redir x @ r"
  by (simp add: show_redir_def)

definition show_redirs :: "redir list \<Rightarrow> u8 list" where
  "show_redirs rs = concat (map show_redir rs)"

lemma parseredirs_read:
  assumes "stops T r" "{60, 62} \<inter> T = {}"
  shows "\<forall>x \<in> set rs. redir_ok x \<Longrightarrow> length rs < n \<Longrightarrow> parseredirs n (show_redirs rs @ r) = Ok rs (skip_ws r)"
proof (induction rs arbitrary: n)
  case Nil
  then obtain k where "n = Suc k" by (cases n) auto
  then show ?case using peek_no [OF assms] by (simp add: show_redirs_def)
next
  case (Cons x rs)
  then obtain k where n: "n = Suc k" "length rs < k" by (cases n) auto
  let ?t = "show_redirs rs @ r"
  have IH: "parseredirs k ?t = Ok rs (skip_ws r)" using Cons n(2) by simp
  have s: "skip_ws ?t = ?t \<or> rs = []" by (cases rs) (auto simp: show_redirs_def)
  have IH': "parseredirs k (skip_ws ?t) = Ok rs (skip_ws r)"
  proof (cases rs)
    case Nil
    obtain j where "k = Suc j" using n(2) by (cases k) auto
    moreover have "stops T (skip_ws r)" using assms(1) by (simp add: stops_def)
    ultimately show ?thesis using peek_no [of T "skip_ws r" "{60, 62}"] assms(2) Nil by (simp add: show_redirs_def)
  qed (use s IH in auto)
  obtain f m d where x: "x = (f, m, d)" by (cases x)
  have f: "is_word f" and md: "m = MODE_IN \<and> d = 0 \<or> m = MODE_OUT \<and> d = 1" using Cons.prems(1) by (auto simp: redir_ok_def x)
  have w: "gettoken (f @ 32 # ?t) = Ok (97, f) (skip_ws ?t)" using gettoken_word [OF f] .
  show ?case
  proof (cases "d = 0")
    case True
    have "gettoken (60 # f @ 32 # ?t) = Ok (60, [60]) (f @ 32 # ?t)" using f by (simp add: gettoken_sym)
    then show ?thesis using True md w IH' by (simp add: n x show_redirs_def show_redir_def peek_sym)
  next
    case False
    have "gettoken (62 # f @ 32 # ?t) = Ok (62, [62]) (f @ 32 # ?t)" using gettoken_out [OF f] .
    then show ?thesis using False md w IH' by (simp add: n x show_redirs_def show_redir_def peek_sym)
  qed
qed

lemma parseredirs_skip:
  assumes "stops T r" "{60, 62} \<inter> T = {}" "\<forall>x \<in> set rs. redir_ok x" "length rs < n"
  shows "parseredirs n (skip_ws (show_redirs rs @ r)) = Ok rs (skip_ws r)"
proof (cases rs)
  case Nil
  have "stops T (skip_ws r)" using assms(1) by (simp add: stops_def)
  then show ?thesis using parseredirs_read [of T "skip_ws r" "[]" n] assms(2,4) Nil by (simp add: show_redirs_def)
next
  case (Cons y ys)
  then have "skip_ws (show_redirs rs @ r) = show_redirs rs @ r" by (simp add: show_redirs_def)
  then show ?thesis using parseredirs_read [OF assms] by simp
qed

abbreviation ends :: "u8 list \<Rightarrow> bool" where
  "ends \<equiv> stops {124, 41, 38, 59}"

lemma parseargs_end:
  assumes "ends r"
  shows "parseargs (Suc n) args rs r = Ok (wrap rs (EXEC args)) (skip_ws r)"
proof (cases "skip_ws r")
  case Nil
  then show ?thesis by (simp add: peek_run gettoken_def)
next
  case (Cons c u)
  then have "peek {124, 41, 38, 59} r = Ok True (skip_ws r)" using assms by (simp add: peek_run stops_def)
  then show ?thesis by simp
qed

lemma parseargs_read:
  assumes "ends r" "\<forall>x \<in> set rs. redir_ok x"
  shows "\<forall>w \<in> set ws. is_word w \<Longrightarrow> ws \<noteq> [] \<Longrightarrow> length args + length ws < MAXARGS \<Longrightarrow> length ws + length rs + 1 < n \<Longrightarrow>
    parseargs n args rs0 (show_words ws @ show_redirs rs @ r) = Ok (wrap (rs0 @ rs) (EXEC (args @ ws))) (skip_ws r)"
proof (induction ws arbitrary: n args)
  case (Cons w ws)
  obtain k where k: "n = Suc k" "length ws + length rs + 1 < k" using Cons.prems(4) by (cases n) auto
  have w: "is_word w" using Cons.prems(1) by simp
  let ?t = "show_words ws @ show_redirs rs @ r"
  have pk: "peek {124, 41, 38, 59} (w @ 32 # ?t) = Ok False (w @ 32 # ?t)" using peek_word [OF w] by (simp add: symbols_def)
  have gt: "gettoken (w @ 32 # ?t) = Ok (97, w) (skip_ws ?t)" using gettoken_word [OF w] .
  have ar: "\<not> MAXARGS \<le> Suc (length args)" using Cons.prems(3) by simp
  have step: "parseargs n args rs0 (show_words (w # ws) @ show_redirs rs @ r) =
    bindk (parseredirs k) (\<lambda>rs'. parseargs k (args @ [w]) (rs0 @ rs')) (skip_ws ?t)"
    using pk gt ar by (simp add: k show_words_def)
  show ?case
  proof (cases ws)
    case Nil
    have "parseredirs k (skip_ws (show_redirs rs @ r)) = Ok rs (skip_ws r)"
      using k(2) by (intro parseredirs_skip [OF assms(1) _ assms(2)]) simp_all
    moreover obtain j where "k = Suc j" using k(2) by (cases k) auto
    moreover have "ends (skip_ws r)" using assms(1) by (simp add: stops_def)
    ultimately show ?thesis unfolding step using parseargs_end [of "skip_ws r" j "args @ [w]" "rs0 @ rs"] Nil by (simp add: show_words_def)
  next
    case (Cons v vs)
    then have v: "is_word v" using Cons.prems(1) by simp
    have t: "?t = v @ 32 # show_words vs @ show_redirs rs @ r" by (simp add: Cons show_words_def)
    have "parseredirs k ?t = Ok [] ?t"
    proof -
      obtain j where "k = Suc j" using k(2) by (cases k) auto
      then show ?thesis using peek_word [OF v, of "{60, 62}"] unfolding t by (simp add: symbols_def)
    qed
    moreover have "skip_ws ?t = ?t" unfolding t using v by simp
    moreover have "parseargs k (args @ [w]) rs0 ?t = Ok (wrap (rs0 @ rs) (EXEC ((args @ [w]) @ ws))) (skip_ws r)"
      using Cons.prems k(2) Cons by (intro Cons.IH) auto
    ultimately show ?thesis unfolding step by simp
  qed
qed simp

text \<open>With enough fuel, \<open>P\<close> reads \<open>x\<close> off \<open>s\<close> and leaves \<open>r\<close>.\<close>

definition reads :: "(nat \<Rightarrow> (u8 list, 'a) k) \<Rightarrow> u8 list \<Rightarrow> 'a \<Rightarrow> u8 list \<Rightarrow> bool" where
  "reads P s x r \<longleftrightarrow> (\<exists>N. \<forall>n \<ge> N. P n s = Ok x r)"

lemma readsI: "(\<And>n. N \<le> n \<Longrightarrow> P (Suc n) s = Ok x r) \<Longrightarrow> reads P s x r"
  unfolding reads_def by (rule exI [of _ "Suc N"]) (metis Suc_le_D Suc_le_mono)

lemma readsE:
  assumes "reads P s x r"
  obtains N where "\<And>n. N \<le> n \<Longrightarrow> P n s = Ok x r"
  using assms unfolding reads_def by blast

lemma reads_bind:
  assumes "reads P s x t" "reads (\<lambda>n. Q n x) t y r"
  shows "reads (\<lambda>n. bindk (P n) (Q n)) s y r"
proof -
  obtain M N where "\<And>n. M \<le> n \<Longrightarrow> P n s = Ok x t" "\<And>n. N \<le> n \<Longrightarrow> Q n x t = Ok y r"
    using assms unfolding reads_def by blast
  then show ?thesis unfolding reads_def by (intro exI [of _ "max M N"]) (simp add: bindk_def)
qed

definition at :: "nat \<Rightarrow> cmd \<Rightarrow> u8 list" where
  "at k c = paren k (level c) (show_cmd c)"

definition reads_exec :: "cmd \<Rightarrow> bool" where
  "reads_exec c \<longleftrightarrow> (\<forall>rs r. (\<forall>x \<in> set rs. redir_ok x) \<longrightarrow> ends r \<longrightarrow>
     reads parseexec (at 3 c @ show_redirs rs @ r) (wrap rs c) (skip_ws r))"

definition reads_pipe :: "cmd \<Rightarrow> bool" where
  "reads_pipe c \<longleftrightarrow> (\<forall>r. stops {41, 38, 59} r \<longrightarrow> reads parsepipe (at 2 c @ r) c (skip_ws r))"

definition reads_back :: "cmd \<Rightarrow> bool" where
  "reads_back c \<longleftrightarrow> (\<forall>r d t. stops {41, 38, 59} r \<longrightarrow> reads (\<lambda>n. parseback n c) (skip_ws r) d t \<longrightarrow>
     reads (\<lambda>n. bindk (parsepipe n) (parseback n)) (at 1 c @ r) d t)"

definition reads_line :: "cmd \<Rightarrow> bool" where
  "reads_line c \<longleftrightarrow> (\<forall>r. stops {41} r \<longrightarrow> reads parseline (at 0 c @ r) c (skip_ws r))"

lemma stops_mono: "stops S r \<Longrightarrow> S \<subseteq> T \<Longrightarrow> stops T r"
  by (auto simp: stops_def)

lemma stops_skip [simp]: "stops S (skip_ws r) = stops S r"
  by (simp add: stops_def)

lemma parseback_done: "stops {41, 59} r \<Longrightarrow> parseback (Suc n) c r = Ok c (skip_ws r)"
  using peek_no [of "{41, 59}" r "{38}"] by simp

text \<open>From a single command to a pipeline, to a command with ampersands, to a line.\<close>

lemma exec_pipe:
  assumes "reads_exec c" "level c \<noteq> 2"
  shows "reads_pipe c"
  unfolding reads_pipe_def
proof (intro allI impI)
  fix r assume r: "stops {41, 38, 59} r"
  have e: "at 2 c = at 3 c" using assms(2) by (cases c) (simp_all add: at_def paren_def)
  have "ends r" using stops_mono [OF r] by simp
  then obtain N where N: "\<And>n. N \<le> n \<Longrightarrow> parseexec n (at 3 c @ r) = Ok c (skip_ws r)"
    using assms(1) unfolding reads_exec_def reads_def by (metis append_Nil concat.simps(1) empty_iff empty_set list.map(1) show_redirs_def wrap.simps(1))
  have "peek {124} (skip_ws r) = Ok False (skip_ws r)" using peek_no [of "{41, 38, 59}" "skip_ws r" "{124}"] r by simp
  then show "reads parsepipe (at 2 c @ r) c (skip_ws r)" using N by (intro readsI [of N]) (simp add: e)
qed

lemma pipe_back:
  assumes "reads_pipe c" "level c \<noteq> 1"
  shows "reads_back c"
  unfolding reads_back_def
proof (intro allI impI)
  fix r d t assume r: "stops {41, 38, 59} r" "reads (\<lambda>n. parseback n c) (skip_ws r) d t"
  have e: "at 1 c = at 2 c" using assms(2) by (cases c) (simp_all add: at_def paren_def)
  show "reads (\<lambda>n. bindk (parsepipe n) (parseback n)) (at 1 c @ r) d t"
    unfolding e using assms(1) r by (intro reads_bind [of parsepipe _ c "skip_ws r"]) (simp_all add: reads_pipe_def)
qed

lemma back_line:
  assumes "reads_back c" "level c \<noteq> 0"
  shows "reads_line c"
  unfolding reads_line_def
proof (intro allI impI)
  fix r assume r: "stops {41} r"
  have e: "at 0 c = at 1 c" using assms(2) by (cases c) (simp_all add: at_def paren_def)
  have "reads (\<lambda>n. parseback n c) (skip_ws r) c (skip_ws r)"
    using parseback_done [of "skip_ws r"] stops_mono [OF r, of "{41, 59}"] by (intro readsI [of 0]) simp
  then obtain N where N: "\<And>n. N \<le> n \<Longrightarrow> bindk (parsepipe n) (parseback n) (at 1 c @ r) = Ok c (skip_ws r)"
    using assms(1) stops_mono [OF r, of "{41, 38, 59}"] unfolding reads_back_def reads_def by blast
  have pk: "peek {59} (skip_ws r) = Ok False (skip_ws r)" using peek_no [of "{41}" "skip_ws r" "{59}"] r by simp
  show "reads parseline (at 0 c @ r) c (skip_ws r)"
  proof (rule readsI [of N])
    fix n assume n: "N \<le> n"
    show "parseline (Suc n) (at 0 c @ r) = Ok c (skip_ws r)"
      unfolding parseline.simps bindk_assoc [symmetric] e using N [OF n] pk by simp
  qed
qed

text \<open>All parsers start by skipping white space.\<close>

lemma parse_skip:
  "1 \<le> n \<Longrightarrow> parseexec n (skip_ws s) = parseexec n s"
  "2 \<le> n \<Longrightarrow> parsepipe n (skip_ws s) = parsepipe n s"
  "3 \<le> n \<Longrightarrow> parseline n (skip_ws s) = parseline n s"
proof -
  have p: "bindk (peek S) g (skip_ws s) = bindk (peek S) g s" for S and g :: "bool \<Rightarrow> (u8 list, cmd) k"
    unfolding bindk_def peek_run by simp
  have e: "parseexec n (skip_ws s) = parseexec n s" if "1 \<le> n" for n using that p by (cases n) simp_all
  then show "1 \<le> n \<Longrightarrow> parseexec n (skip_ws s) = parseexec n s" .
  have q: "parsepipe n (skip_ws s) = parsepipe n s" if "2 \<le> n" for n
    using that e [of "n - 1"] by (cases n) (simp_all add: bindk_def [of "parseexec m" for m])
  then show "2 \<le> n \<Longrightarrow> parsepipe n (skip_ws s) = parsepipe n s" .
  show "parseline n (skip_ws s) = parseline n s" if "3 \<le> n"
    using that q [of "n - 1"] by (cases n) (simp_all add: bindk_def [of "parsepipe m" for m])
qed

text \<open>A line in parentheses is a single command.\<close>

lemma line_exec:
  assumes "reads_line c" "level c < 3"
  shows "reads_exec c"
  unfolding reads_exec_def
proof (intro allI impI)
  fix rs r assume rs: "\<forall>x \<in> set rs. redir_ok x" and r: "ends r"
  let ?u = "show_redirs rs @ r"
  have e: "at 3 c @ ?u = 40 # at 0 c @ 41 # ?u" using assms(2) by (simp add: at_def paren_def)
  have "stops {41} (41 # ?u)" by (simp add: stops_def)
  then obtain N where N: "\<And>n. N \<le> n \<Longrightarrow> parseline n (at 0 c @ 41 # ?u) = Ok c (41 # ?u)"
    using assms(1) unfolding reads_line_def reads_def by fastforce
  have rd: "parseredirs n (skip_ws ?u) = Ok rs (skip_ws r)" if "length rs < n" for n
    using that by (intro parseredirs_skip [OF r _ rs]) simp_all
  show "reads parseexec (at 3 c @ ?u) (wrap rs c) (skip_ws r)"
  proof (rule readsI [of "Suc (N + Suc (length rs) + 3)"])
    fix n assume "Suc (N + Suc (length rs) + 3) \<le> n"
    then obtain k where k: "n = Suc k" "N \<le> k" "length rs < k" "3 \<le> k" by (cases n) auto
    show "parseexec (Suc n) (at 3 c @ ?u) = Ok (wrap rs c) (skip_ws r)"
      unfolding e k using N [OF k(2)] rd [OF k(3)] parse_skip(3) [OF k(4)] by (simp add: peek_sym gettoken_sym)
  qed
qed

section \<open>The constructors\<close>

lemma reads_EXEC:
  assumes "printable (EXEC ws)"
  shows "reads_exec (EXEC ws)"
  unfolding reads_exec_def
proof (intro allI impI)
  fix rs r assume rs: "\<forall>x \<in> set rs. redir_ok x" and r: "ends r"
  let ?u = "show_redirs rs @ r"
  have e: "at 3 (EXEC ws) = show_words ws" by (simp add: at_def paren_def)
  have ws: "\<forall>w \<in> set ws. is_word w" "length ws < MAXARGS" using assms by simp_all
  show "reads parseexec (at 3 (EXEC ws) @ ?u) (wrap rs (EXEC ws)) (skip_ws r)"
  proof (cases ws)
    case Nil
    have "parseexec (Suc n) ?u = Ok (wrap rs (EXEC [])) (skip_ws r)" if n: "Suc (length rs) \<le> n" for n
    proof -
      have pk: "peek {40} ?u = Ok False (skip_ws ?u)"
      proof (cases rs)
        case Nil
        then show ?thesis using peek_no [of "{124, 41, 38, 59}" r "{40}"] r by (simp add: show_redirs_def)
      next
        case (Cons y ys)
        then show ?thesis by (simp add: show_redirs_def show_redir_def peek_sym)
      qed
      have rd: "parseredirs n (skip_ws ?u) = Ok rs (skip_ws r)" using n by (intro parseredirs_skip [OF r _ rs]) simp_all
      obtain j where "n = Suc j" using n by (cases n) auto
      then show ?thesis using pk rd parseargs_end [of "skip_ws r" j "[]" rs] r by simp
    qed
    then show ?thesis unfolding e by (intro readsI [of "Suc (length rs)"]) (simp add: Nil show_words_def del: parseexec.simps)
  next
    case (Cons w vs)
    then have w: "is_word w" using ws(1) by simp
    let ?t = "show_words ws @ ?u"
    have t: "?t = w @ 32 # show_words vs @ ?u" by (simp add: Cons show_words_def)
    have "parseexec (Suc n) ?t = Ok (wrap rs (EXEC ws)) (skip_ws r)" if m: "length ws + length rs + 2 \<le> n" for n
    proof -
      obtain j where n: "n = Suc j" using m by (cases n) auto
      have pk: "peek {40} ?t = Ok False ?t" "peek {60, 62} ?t = Ok False ?t" using peek_word [OF w] unfolding t by (simp_all add: symbols_def)
      have "parseargs n [] [] ?t = Ok (wrap ([] @ rs) (EXEC ([] @ ws))) (skip_ws r)"
        using ws Cons m by (intro parseargs_read [OF r rs]) simp_all
      moreover have "parseredirs n ?t = Ok [] ?t" using pk(2) by (simp add: n)
      ultimately show ?thesis using pk(1) by simp
    qed
    then show ?thesis unfolding e by (intro readsI)
  qed
qed

lemma reads_REDIR:
  assumes "reads_exec c" "redir_ok (f, m, d)"
  shows "reads_exec (REDIR c f m d)"
  unfolding reads_exec_def
proof (intro allI impI)
  fix rs r assume rs: "\<forall>x \<in> set rs. redir_ok x" and r: "ends r"
  have "at 3 (REDIR c f m d) @ show_redirs rs @ r = at 3 c @ show_redirs ((f, m, d) # rs) @ r"
    by (simp add: at_def paren_def show_redirs_def)
  moreover have "reads parseexec (at 3 c @ show_redirs ((f, m, d) # rs) @ r) (wrap ((f, m, d) # rs) c) (skip_ws r)"
    using assms(2) rs by (intro assms(1) [unfolded reads_exec_def, rule_format] r) auto
  ultimately show "reads parseexec (at 3 (REDIR c f m d) @ show_redirs rs @ r) (wrap rs (REDIR c f m d)) (skip_ws r)"
    by (simp only: wrap.simps fst_conv snd_conv)
qed

lemma reads_PIPE:
  assumes "reads_exec c" "reads_pipe d"
  shows "reads_pipe (PIPE c d)"
  unfolding reads_pipe_def
proof (intro allI impI)
  fix r assume r: "stops {41, 38, 59} r"
  let ?u = "at 2 d @ r"
  have e: "at 2 (PIPE c d) @ r = at 3 c @ 124 # ?u" by (simp add: at_def paren_def)
  have "ends (124 # ?u)" by (simp add: stops_def)
  then obtain M where M: "\<And>n. M \<le> n \<Longrightarrow> parseexec n (at 3 c @ 124 # ?u) = Ok c (124 # ?u)"
    using assms(1) [unfolded reads_exec_def, rule_format, of "[]" "124 # ?u"] by (auto simp: reads_def show_redirs_def)
  obtain N where N: "\<And>n. N \<le> n \<Longrightarrow> parsepipe n ?u = Ok d (skip_ws r)"
    using assms(2) r unfolding reads_pipe_def reads_def by blast
  show "reads parsepipe (at 2 (PIPE c d) @ r) (PIPE c d) (skip_ws r)"
  proof (rule readsI [of "M + N + 2"])
    fix n assume "M + N + 2 \<le> n"
    then show "parsepipe (Suc n) (at 2 (PIPE c d) @ r) = Ok (PIPE c d) (skip_ws r)"
      unfolding e using M [of n] N [of n] parse_skip(2) [of n ?u] by (simp add: peek_sym gettoken_sym)
  qed
qed

lemma reads_BACK:
  assumes "reads_back c"
  shows "reads_back (BACK c)"
  unfolding reads_back_def
proof (intro allI impI)
  fix r d t assume r: "stops {41, 38, 59} r" "reads (\<lambda>n. parseback n (BACK c)) (skip_ws r) d t"
  have e: "at 1 (BACK c) @ r = at 1 c @ 38 # r" by (simp add: at_def paren_def)
  obtain N where N: "\<And>n. N \<le> n \<Longrightarrow> parseback n (BACK c) (skip_ws r) = Ok d t" using r(2) unfolding reads_def by blast
  have "reads (\<lambda>n. parseback n c) (38 # r) d t"
    using N by (intro readsI [of N]) (simp add: peek_sym gettoken_sym)
  then show "reads (\<lambda>n. bindk (parsepipe n) (parseback n)) (at 1 (BACK c) @ r) d t"
    using assms [unfolded reads_back_def, rule_format, of "38 # r" d t] unfolding e by (simp add: stops_def)
qed

lemma reads_LIST:
  assumes "reads_back c" "reads_line d"
  shows "reads_line (LIST c d)"
  unfolding reads_line_def
proof (intro allI impI)
  fix r assume r: "stops {41} r"
  let ?u = "at 0 d @ r"
  have e: "at 0 (LIST c d) @ r = at 1 c @ 59 # ?u" by (simp add: at_def paren_def)
  have "reads (\<lambda>n. parseback n c) (59 # ?u) c (59 # ?u)"
    using parseback_done [of "59 # ?u"] by (intro readsI [of 0]) (simp add: stops_def)
  then obtain M where M: "\<And>n. M \<le> n \<Longrightarrow> bindk (parsepipe n) (parseback n) (at 1 c @ 59 # ?u) = Ok c (59 # ?u)"
    using assms(1) [unfolded reads_back_def, rule_format, of "59 # ?u" c "59 # ?u"] by (auto simp: reads_def stops_def)
  obtain N where N: "\<And>n. N \<le> n \<Longrightarrow> parseline n ?u = Ok d (skip_ws r)"
    using assms(2) r unfolding reads_line_def reads_def by blast
  show "reads parseline (at 0 (LIST c d) @ r) (LIST c d) (skip_ws r)"
  proof (rule readsI [of "M + N + 3"])
    fix n assume n: "M + N + 3 \<le> n"
    then show "parseline (Suc n) (at 0 (LIST c d) @ r) = Ok (LIST c d) (skip_ws r)"
      unfolding parseline.simps bindk_assoc [symmetric] e using M [of n] N [of n] parse_skip(3) [of n ?u] by (simp add: peek_sym gettoken_sym)
  qed
qed

lemma reads_all: "printable c \<Longrightarrow> reads_exec c \<and> reads_pipe c \<and> reads_back c \<and> reads_line c"
proof (induction c)
  case (EXEC ws)
  then show ?case using reads_EXEC exec_pipe pipe_back back_line by simp
next
  case (REDIR c f m d)
  then show ?case using reads_REDIR exec_pipe pipe_back back_line by simp
next
  case (PIPE c d)
  then show ?case using reads_PIPE pipe_back back_line line_exec by simp
next
  case (LIST c d)
  then show ?case using reads_LIST line_exec exec_pipe pipe_back by simp
next
  case (BACK c)
  then show ?case using reads_BACK back_line line_exec exec_pipe by simp
qed

section \<open>The trees that are built\<close>

named_theorems gives_intro

definition gives :: "('a \<Rightarrow> bool) \<Rightarrow> ('s, 'a) k \<Rightarrow> bool" where
  "gives Q f \<longleftrightarrow> (\<forall>s x t. f s = Ok x t \<longrightarrow> Q x)"

lemma gives_bind: "gives P f \<Longrightarrow> (\<And>x. P x \<Longrightarrow> gives Q (g x)) \<Longrightarrow> gives Q (bindk f g)"
  unfolding gives_def bindk_eq_Ok by blast

lemma gives_any: "gives (\<lambda>_. True) f"
  by (simp add: gives_def)

lemma gives_then [gives_intro]: "gives Q g \<Longrightarrow> gives Q (thenk f g)"
  unfolding thenk_def by (rule gives_bind [OF gives_any])

lemma gives_peek [gives_intro]: "(\<And>b. gives Q (g b)) \<Longrightarrow> gives Q (bindk (peek S) g)"
  by (rule gives_bind [OF gives_any])

lemma gives_simps [gives_intro]: "Q x \<Longrightarrow> gives Q (kret x)" "gives Q (kpanic e)"
  by (simp_all add: gives_def)

lemma gives_if [gives_intro]: "(b \<Longrightarrow> gives Q f) \<Longrightarrow> (\<not> b \<Longrightarrow> gives Q g) \<Longrightarrow> gives Q (if b then f else g)"
  by simp

lemma gives_gettoken: "gives (\<lambda>x. fst x = 97 \<longrightarrow> is_word (snd x)) gettoken"
  unfolding gives_def
proof (intro allI impI)
  fix s x t assume a: "gettoken s = Ok x t" "fst x = 97"
  show "is_word (snd x)"
  proof (cases "skip_ws s")
    case (Cons c r)
    have "c \<notin> whitespace" using skip_ws_word [OF Cons] .
    then show ?thesis using a Cons by (auto simp: gettoken_def is_word_def symbols_def dest!: set_takeWhileD split: if_splits)
  qed (use a in \<open>auto simp: gettoken_def\<close>)
qed

lemma gives_parseredirs: "gives (\<lambda>rs. \<forall>x \<in> set rs. redir_ok x) (parseredirs n)"
proof (induction n)
  case (Suc n)
  show ?case unfolding parseredirs.simps
    by (intro gives_intro gives_bind [OF gives_any] gives_bind [OF gives_gettoken] gives_bind [OF Suc.IH]) (auto simp: redir_ok_def)
qed (simp add: gives_def)

lemma printable_wrap: "printable c \<Longrightarrow> \<forall>x \<in> set rs. redir_ok x \<Longrightarrow> printable (wrap rs c)"
  by (induction rs arbitrary: c) simp_all

lemma gives_parseargs:
  "\<forall>w \<in> set args. is_word w \<Longrightarrow> length args < MAXARGS \<Longrightarrow> \<forall>x \<in> set rs. redir_ok x \<Longrightarrow> gives printable (parseargs n args rs)"
proof (induction n arbitrary: args rs)
  case (Suc n)
  have w: "printable (wrap rs (EXEC args))" using Suc.prems by (intro printable_wrap) simp_all
  have "gives printable (parseargs n (args @ [snd x]) (rs @ rs'))"
    if "fst x = 97 \<longrightarrow> is_word (snd x)" "fst x = 97" "\<not> MAXARGS \<le> Suc (length args)" "\<forall>x \<in> set rs'. redir_ok x" for x rs'
    using Suc.prems that by (intro Suc.IH) auto
  then show ?case unfolding parseargs.simps
    by (intro gives_intro gives_bind [OF gives_gettoken] gives_bind [OF gives_parseredirs]) (use w in auto)
qed (simp add: gives_def)

lemma gives_parseback: "printable c \<Longrightarrow> gives printable (parseback n c)"
proof (induction n arbitrary: c)
  case (Suc n)
  then show ?case unfolding parseback.simps by (intro gives_intro) simp_all
qed (simp add: gives_def)

lemma gives_parse:
  "gives printable (parseline n) \<and> gives printable (parsepipe n) \<and> gives printable (parseexec n) \<and> gives printable (parseblock n)"
proof (induction n)
  case (Suc n)
  note IH = Suc.IH [THEN conjunct1] Suc.IH [THEN conjunct2, THEN conjunct1] Suc.IH [THEN conjunct2, THEN conjunct2, THEN conjunct1]
    Suc.IH [THEN conjunct2, THEN conjunct2, THEN conjunct2]
  have "gives printable (parseline (Suc n))" unfolding parseline.simps
    by (rule gives_bind [OF IH(2)], rule gives_bind [OF gives_parseback], assumption, intro gives_intro gives_bind [OF IH(1)]) simp_all
  moreover have "gives printable (parsepipe (Suc n))" unfolding parsepipe.simps
    by (rule gives_bind [OF IH(3)], intro gives_intro gives_bind [OF IH(2)]) simp_all
  moreover have "gives printable (parseexec (Suc n))" unfolding parseexec.simps
    by (intro gives_intro IH gives_bind [OF gives_parseredirs] gives_parseargs) simp_all
  moreover have "gives printable (parseblock (Suc n))" unfolding parseblock.simps
    by (intro gives_intro gives_bind [OF IH(1)] gives_bind [OF gives_parseredirs] printable_wrap) simp_all
  ultimately show ?case by blast
qed (simp add: gives_def)

section \<open>Property\<close>

text \<open>C11: the shell's parser. \<open>parsecmd\<close> ends on every line, with a tree or with a syntax error. Every tree it builds is
  well-formed: fewer than \<open>MAXARGS\<close> words per command, words and file names non-empty and free of separators, modes as
  the redirection says. Conversely every well-formed tree is what \<open>parsecmd\<close> reads from its printed form, so that
  pipelines, lists, background commands, parentheses and redirections nest as intended.\<close>

theorem parsecmd_roundtrip:
  "((\<exists>c r. parsecmd s = Ok c r \<and> printable c) \<or> (\<exists>e. parsecmd s = Panic e)) \<and> (printable d \<longrightarrow> parsecmd (show_cmd d) = Ok d [])"
proof
  have "printable c" if "parsecmd s = Ok c r" for c r
    using that gives_parse [of "parse_fuel s"] by (auto simp: parsecmd_def gives_def bindk_eq_Ok thenk_eq_Ok split: if_splits)
  then show "(\<exists>c r. parsecmd s = Ok c r \<and> printable c) \<or> (\<exists>e. parsecmd s = Panic e)" using parsecmd_total [of s] by blast
  show "printable d \<longrightarrow> parsecmd (show_cmd d) = Ok d []"
  proof
    assume "printable d"
    then have "reads parseline (at 0 d @ []) d (skip_ws [])" 
      using reads_all [of d] unfolding reads_line_def stops_def by (metis skip_ws_Nil)
    then obtain N where N: "\<And>n. N \<le> n \<Longrightarrow> parseline n (show_cmd d) = Ok d []" by (auto simp: reads_def at_def paren_def)
    let ?n = "parse_fuel (show_cmd d)"
    have "within (length (show_cmd d)) (parseline ?n (show_cmd d))" using tame_parse [of "length (show_cmd d)" ?n] by (simp add: tame_def parse_fuel_def)
    then have "parseline ?n (show_cmd d) \<noteq> Hang" by auto
    then have "parseline (max N ?n) (show_cmd d) = parseline ?n (show_cmd d)"
      using agrees_parse [of ?n "max N ?n"] by (simp add: agrees_def)
    then have "parseline ?n (show_cmd d) = Ok d []" using N [of "max N ?n"] by simp
    then show "parsecmd (show_cmd d) = Ok d []" by (simp add: parsecmd_def peek_run thenk_def bindk_def)
  qed
qed

theorem parsecmd_roundtrip_witness:
  "parsecmd (show_cmd (LIST (BACK (PIPE (EXEC [[0x61], [0x62, 0x63]]) (REDIR (EXEC [[0x64]]) [0x66] MODE_OUT 1))) (EXEC [])))
    = Ok (LIST (BACK (PIPE (EXEC [[0x61], [0x62, 0x63]]) (REDIR (EXEC [[0x64]]) [0x66] MODE_OUT 1))) (EXEC [])) []"
proof -
  let ?d = "LIST (BACK (PIPE (EXEC [[0x61], [0x62, 0x63]]) (REDIR (EXEC [[0x64]]) [0x66] MODE_OUT 1))) (EXEC [])"
  have "printable ?d" by (simp add: is_word_def redir_ok_def whitespace_def symbols_def)
  then show ?thesis using parsecmd_roundtrip [of "[]" ?d] by blast
qed

end
