(* ===== verification/Umalloc.thy ===== *)
theory Umalloc
  imports Params
begin

text \<open>
  The allocator of the user library (umalloc.c): a circular list of free blocks in the order of their addresses, with
  the static header \<open>base\<close> as its first element. The model keeps the two fields of the headers, the pointer \<open>freep\<close> and the end of the
  data segment; addresses and sizes are natural numbers, a header takes 8 bytes, a null pointer is 0. The address \<open>b\<close> of
  \<open>base\<close> is an argument. \<open>sbrk\<close> is the system call: \<open>grant brk n\<close> says whether the kernel moves the end of the data segment by
  \<open>n\<close> bytes; if so it returns the old end. The kernel never moves it above \<open>KERNBASE\<close>, so that addresses do not wrap around. The loops along the list are partial functions, a walk that never ends being \<open>None\<close>.
\<close>

section \<open>The code\<close>

record uheap =
  ptr :: "nat \<Rightarrow> nat"
  usize :: "nat \<Rightarrow> nat"
  freep :: nat
  brk :: nat

text \<open>The search loop of \<open>free\<close>.\<close>

partial_function (option) free_place :: "uheap \<Rightarrow> nat \<Rightarrow> nat \<Rightarrow> nat option" where
  "free_place h bp p =
     (if p < bp \<and> bp < ptr h p then Some p
      else if ptr h p \<le> p \<and> (p < bp \<or> bp < ptr h p) then Some p
      else free_place h bp (ptr h p))"

definition link_up :: "nat \<Rightarrow> nat \<Rightarrow> uheap \<Rightarrow> uheap" where
  "link_up bp p h =
     (if bp + 8 * usize h bp = ptr h p
      then h\<lparr>usize := (usize h)(bp := usize h bp + usize h (ptr h p)), ptr := (ptr h)(bp := ptr h (ptr h p))\<rparr>
      else h\<lparr>ptr := (ptr h)(bp := ptr h p)\<rparr>)"

definition link_down :: "nat \<Rightarrow> nat \<Rightarrow> uheap \<Rightarrow> uheap" where
  "link_down bp p h =
     (if p + 8 * usize h p = bp
      then h\<lparr>usize := (usize h)(p := usize h p + usize h bp), ptr := (ptr h)(p := ptr h bp)\<rparr>
      else h\<lparr>ptr := (ptr h)(p := bp)\<rparr>)"

definition ufree :: "nat \<Rightarrow> uheap \<Rightarrow> uheap option" where
  "ufree ap h = (let bp = ap - 8 in
     case free_place h bp (freep h) of None \<Rightarrow> None
     | Some p \<Rightarrow> Some ((link_down bp p (link_up bp p h))\<lparr>freep := p\<rparr>))"

text \<open>The result 0 is a null pointer.\<close>

definition morecore :: "(nat \<Rightarrow> int \<Rightarrow> bool) \<Rightarrow> nat \<Rightarrow> uheap \<Rightarrow> (nat \<times> uheap) option" where
  "morecore grant nu h = (let nu = (if nu < 4096 then 4096 else nu); hp = brk h; n = s32 (int (nu * 8)) in
     if \<not> grant hp n then Some (0, h)
     else case ufree (hp + 8) (h\<lparr>brk := nat (int hp + n), usize := (usize h)(hp := nu)\<rparr>) of
       None \<Rightarrow> None | Some h \<Rightarrow> Some (freep h, h))"

definition take_block :: "nat \<Rightarrow> nat \<Rightarrow> nat \<Rightarrow> uheap \<Rightarrow> nat \<times> uheap" where
  "take_block nunits prevp p h =
     (if usize h p = nunits then (p + 8, h\<lparr>ptr := (ptr h)(prevp := ptr h p), freep := prevp\<rparr>)
      else let rest = usize h p - nunits; q = p + 8 * rest in
        (q + 8, h\<lparr>usize := (usize h)(p := rest, q := nunits), freep := prevp\<rparr>))"

partial_function (option) malloc_loop :: "(nat \<Rightarrow> int \<Rightarrow> bool) \<Rightarrow> nat \<Rightarrow> nat \<Rightarrow> nat \<Rightarrow> uheap \<Rightarrow> (nat \<times> uheap) option" where
  "malloc_loop grant nunits prevp p h =
     (if nunits \<le> usize h p then Some (take_block nunits prevp p h)
      else if p = freep h then Option.bind (morecore grant nunits h) (\<lambda>r.
        if fst r = 0 then Some (0, snd r) else malloc_loop grant nunits (fst r) (ptr (snd r) (fst r)) (snd r))
      else malloc_loop grant nunits p (ptr h p) h)"

definition malloc :: "(nat \<Rightarrow> int \<Rightarrow> bool) \<Rightarrow> nat \<Rightarrow> nat \<Rightarrow> uheap \<Rightarrow> (nat \<times> uheap) option" where
  "malloc grant b nbytes h = (let nunits = n32 (nbytes + 8 - 1) div 8 + 1;
       h = (if freep h = 0 then h\<lparr>ptr := (ptr h)(b := b), freep := b, usize := (usize h)(b := 0)\<rparr> else h) in
     malloc_loop grant nunits (freep h) (ptr h (freep h)) h)"

section \<open>The free list\<close>

text \<open>The list of free blocks in the order of the pointers; \<open>z\<close> follows the last one.\<close>

primrec linked_to :: "uheap \<Rightarrow> nat list \<Rightarrow> nat \<Rightarrow> bool" where
  "linked_to h [] z \<longleftrightarrow> True"
| "linked_to h (x # xs) z \<longleftrightarrow> ptr h x = (if xs = [] then z else hd xs) \<and> linked_to h xs z"

definition below :: "uheap \<Rightarrow> nat \<Rightarrow> nat \<Rightarrow> bool" where
  "below h x y \<longleftrightarrow> x < y \<and> x + 8 * usize h x \<le> y"

definition block :: "uheap \<Rightarrow> nat \<Rightarrow> nat set" where
  "block h a = {a..<a + 8 * usize h a}"

definition region :: "uheap \<Rightarrow> nat list \<Rightarrow> nat set" where
  "region h L = (\<Union>a \<in> set L. block h a)"

definition free_ok :: "nat \<Rightarrow> uheap \<Rightarrow> nat list \<Rightarrow> bool" where
  "free_ok b h L \<longleftrightarrow> L \<noteq> [] \<and> hd L = b \<and> linked_to h L b \<and> sorted_wrt (below h) L \<and> (\<forall>a \<in> set L. a + 8 * usize h a \<le> brk h)
     \<and> usize h b = 0 \<and> (\<forall>a \<in> set L. a \<noteq> b \<longrightarrow> 0 < usize h a) \<and> freep h \<in> set L \<and> 0 < b \<and> b < brk h"

lemma linked_to_append:
  "linked_to h (xs @ ys) z \<longleftrightarrow> linked_to h xs (if ys = [] then z else hd ys) \<and> linked_to h ys z"
  by (induction xs) auto

lemma linked_to_cong: "(\<And>x. x \<in> set xs \<Longrightarrow> ptr h' x = ptr h x) \<Longrightarrow> linked_to h' xs z = linked_to h xs z"
  by (induction xs) auto

lemma sorted_below_cong: "(\<And>x. x \<in> set xs \<Longrightarrow> usize h' x = usize h x) \<Longrightarrow> sorted_wrt (below h') xs = sorted_wrt (below h) xs"
  by (induction xs) (auto simp: below_def)

lemma linked_to_nth: "linked_to h L z \<Longrightarrow> i < length L \<Longrightarrow> ptr h (L ! i) = (if Suc i < length L then L ! Suc i else z)"
proof (induction L arbitrary: i)
  case (Cons x xs)
  then show ?case by (cases i) (auto simp: hd_conv_nth)
qed simp

lemma free_okD:
  assumes "free_ok b h L"
  shows "L \<noteq> []" "hd L = b" "linked_to h L b" "sorted_wrt (below h) L" "a \<in> set L \<Longrightarrow> a + 8 * usize h a \<le> brk h"
    "usize h b = 0" "a \<in> set L \<Longrightarrow> a \<noteq> b \<Longrightarrow> 0 < usize h a" "freep h \<in> set L" "0 < b" "b < brk h"
  using assms by (auto simp: free_ok_def)

lemma free_ok_nth:
  assumes "free_ok b h L"
  shows "i < length L \<Longrightarrow> ptr h (L ! i) = (if Suc i < length L then L ! Suc i else b)" "L ! 0 = b"
    "i < j \<Longrightarrow> j < length L \<Longrightarrow> L ! i < L ! j" "i < length L \<Longrightarrow> b \<le> L ! i" "distinct L"
proof -
  note d = free_okD [OF assms]
  show "i < length L \<Longrightarrow> ptr h (L ! i) = (if Suc i < length L then L ! Suc i else b)" using linked_to_nth [OF d(3)] .
  show z: "L ! 0 = b" using d(1,2) by (simp add: hd_conv_nth)
  show lt: "i < j \<Longrightarrow> j < length L \<Longrightarrow> L ! i < L ! j" for i j using d(4) by (simp add: sorted_wrt_iff_nth_less below_def)
  show "i < length L \<Longrightarrow> b \<le> L ! i" using lt [of 0 i] z by (cases i) auto
  show "distinct L" unfolding distinct_conv_nth by (metis lt nat_neq_iff)
qed

text \<open>The place of a new address: the last element below it.\<close>

lemma place_exists:
  assumes "free_ok b h L" "b < bp" "bp \<notin> set L"
  obtains t where "t < length L" "\<And>i. i \<le> t \<Longrightarrow> L ! i < bp" "\<And>i. t < i \<Longrightarrow> i < length L \<Longrightarrow> bp < L ! i"
proof -
  note n = free_ok_nth [OF assms(1)] and d = free_okD [OF assms(1)]
  let ?S = "{i. i < length L \<and> L ! i < bp}"
  let ?t = "Max ?S"
  have f: "finite ?S" by simp
  have ne: "0 \<in> ?S" using d(1) n(2) assms(2) by simp
  then have t: "?t \<in> ?S" using Max_in [OF f] by blast
  have "L ! i < bp" if "i \<le> ?t" for i using n(3) [of i ?t] t that by (cases "i = ?t") auto
  moreover have "bp < L ! i" if "?t < i" "i < length L" for i
  proof -
    have "i \<notin> ?S"
    proof
      assume "i \<in> ?S"
      then have "i \<le> ?t" by (rule Max_ge [OF f])
      then show False using that(1) by simp
    qed
    moreover have "L ! i \<noteq> bp" using assms(3) that(2) by (metis nth_mem)
    ultimately show ?thesis using that(2) by auto
  qed
  ultimately show ?thesis using that [of ?t] t by blast
qed

lemma free_place_run:
  assumes ok: "free_ok b h L" and t: "t < length L" "\<And>i. i \<le> t \<Longrightarrow> L ! i < bp" "\<And>i. t < i \<Longrightarrow> i < length L \<Longrightarrow> bp < L ! i"
    and p: "p \<in> set L"
  shows "free_place h bp p = Some (L ! t)"
proof -
  note n = free_ok_nth [OF ok]
  have up: "free_place h bp (L ! (t - k)) = Some (L ! t)" if "k \<le> t" for k
    using that
  proof (induction k)
    case 0
    have "L ! t < bp" using t(2) by simp
    moreover have "bp < ptr h (L ! t) \<or> ptr h (L ! t) \<le> L ! t" using n(1) [OF t(1)] t(3) [of "Suc t"] n(4) [OF t(1)] by auto
    ultimately show ?case by (subst free_place.simps) auto
  next
    case (Suc k)
    let ?i = "t - Suc k"
    have i: "Suc ?i = t - k" "?i < length L" "Suc ?i < length L" using Suc.prems t(1) by simp_all
    have pt: "ptr h (L ! ?i) = L ! (t - k)" using n(1) [OF i(2)] i(1,3) by simp
    have "L ! (t - k) < bp" "L ! ?i < L ! (t - k)" using t(2) [of "t - k"] n(3) [of ?i "t - k"] i by simp_all
    then show ?case using Suc by (subst free_place.simps) (simp add: pt)
  qed
  have b: "free_place h bp b = Some (L ! t)" using up [of t] n(2) by simp
  have down: "free_place h bp (L ! (length L - 1 - k)) = Some (L ! t)" if "t < length L - 1 - k" for k
    using that
  proof (induction k)
    case 0
    let ?i = "length L - 1"
    have i: "?i < length L" "\<not> Suc ?i < length L" using t(1) by simp_all
    have "bp < L ! ?i" "b \<le> L ! ?i" using t(3) [of ?i] 0 n(4) [OF i(1)] i by simp_all
    moreover have "b < bp" using t(2) [of 0] n(2) by simp
    ultimately show ?case using b n(1) [OF i(1)] i(2) by (subst free_place.simps) simp
  next
    case (Suc k)
    let ?i = "length L - 1 - Suc k"
    have i: "Suc ?i = length L - 1 - k" "?i < length L" "Suc ?i < length L" using Suc.prems by simp_all
    have pt: "ptr h (L ! ?i) = L ! (length L - 1 - k)" using n(1) [OF i(2)] i(1,3) by simp
    have "bp < L ! ?i" "L ! ?i < L ! (length L - 1 - k)" using t(3) [of ?i] Suc.prems n(3) [of ?i "length L - 1 - k"] i by simp_all
    moreover have "free_place h bp (L ! (length L - 1 - k)) = Some (L ! t)" using Suc by simp
    ultimately show ?case using pt by (subst free_place.simps) simp
  qed
  obtain i where i: "p = L ! i" "i < length L" using p by (metis in_set_conv_nth)
  show ?thesis
  proof (cases "i \<le> t")
    case True
    then show ?thesis using up [of "t - i"] i(1) by simp
  next
    case False
    then show ?thesis using down [of "length L - 1 - i"] i by simp
  qed
qed

text \<open>Where a block between two others ends.\<close>

lemma sorted_insert:
  assumes "sorted_wrt (below h) (xs @ p # ys)" "below h p bp" "\<forall>y \<in> set ys. below h bp y"
  shows "sorted_wrt (below h) (xs @ p # bp # ys)"
  using assms by (auto simp: sorted_wrt_append below_def intro: order_trans)

lemma region_split: "region h (xs @ ys) = region h xs \<union> region h ys" "region h (x # xs) = block h x \<union> region h xs" "region h [] = {}"
  by (auto simp: region_def)

lemma region_cong: "(\<And>a. a \<in> set L \<Longrightarrow> usize h' a = usize h a) \<Longrightarrow> region h' L = region h L"
  by (auto simp: region_def block_def)

text \<open>The block \<open>bp\<close> put between \<open>p\<close> and its successor.\<close>

lemma link_insert:
  assumes "free_ok b h (xs @ p # ys)" "\<forall>x \<in> set (xs @ [p]). below h x bp" "\<forall>y \<in> set ys. below h bp y" "0 < usize h bp"
    "bp + 8 * usize h bp \<le> brk h"
  defines "h' \<equiv> h\<lparr>ptr := (ptr h)(bp := ptr h p, p := bp), freep := p\<rparr>"
  shows "free_ok b h' (xs @ p # bp # ys)" "region h' (xs @ p # bp # ys) = region h (xs @ p # ys) \<union> block h bp"
proof -
  note d = free_okD [OF assms(1)]
  have bp: "bp \<notin> set (xs @ p # ys)" using assms(2,3) by (auto simp: below_def)
  have dist: "distinct (xs @ p # ys)" using free_ok_nth(5) [OF assms(1)] .
  have "linked_to h xs p" "ptr h p = (if ys = [] then b else hd ys)" "linked_to h ys b" using d(3) by (simp_all add: linked_to_append)
  moreover have "linked_to h' xs p = linked_to h xs p" "linked_to h' ys b = linked_to h ys b"
    using bp dist by (intro linked_to_cong; auto simp: h'_def)+
  ultimately have l: "linked_to h' (xs @ p # bp # ys) b" using bp by (auto simp: linked_to_append h'_def)
  have "hd (xs @ p # bp # ys) = b" using d(2) by (cases xs) auto
  moreover have "sorted_wrt (below h) (xs @ p # bp # ys)" using d(4) assms(2,3) by (intro sorted_insert) simp_all
  then have "sorted_wrt (below h') (xs @ p # bp # ys)" by (subst sorted_below_cong [of _ h' h]) (simp_all add: h'_def)
  moreover have "usize h' = usize h" "brk h' = brk h" "freep h' = p" by (simp_all add: h'_def)
  ultimately show "free_ok b h' (xs @ p # bp # ys)" using l d assms(4,5) unfolding free_ok_def by auto
  show "region h' (xs @ p # bp # ys) = region h (xs @ p # ys) \<union> block h bp"
    using region_cong [of "xs @ p # bp # ys" h' h] by (auto simp: h'_def region_split)
qed

text \<open>Two blocks that meet become one.\<close>

lemma link_merge:
  assumes ok: "free_ok b h (xs @ p # q # ys)" and q: "p + 8 * usize h p = q" "p \<noteq> b" and fp: "freep h \<noteq> q"
  defines "h' \<equiv> h\<lparr>usize := (usize h)(p := usize h p + usize h q), ptr := (ptr h)(p := ptr h q)\<rparr>"
  shows "free_ok b h' (xs @ p # ys)" "region h' (xs @ p # ys) = region h (xs @ p # q # ys)"
proof -
  note d = free_okD [OF ok]
  have dist: "distinct (xs @ p # q # ys)" using free_ok_nth(5) [OF ok] .
  have s: "sorted_wrt (below h) xs" "sorted_wrt (below h) ys" "\<forall>x \<in> set xs. below h x p \<and> (\<forall>y \<in> set ys. below h x y)"
    "\<forall>y \<in> set ys. below h q y \<and> below h p y" using d(4) by (auto simp: sorted_wrt_append)
  have u: "usize h' x = usize h x" if "x \<noteq> p" for x using that by (simp add: h'_def)
  have up: "usize h' p = usize h p + usize h q" by (simp add: h'_def)
  have "linked_to h xs p" "ptr h p = q" "ptr h q = (if ys = [] then b else hd ys)" "linked_to h ys b" using d(3) by (simp_all add: linked_to_append)
  moreover have "linked_to h' xs p = linked_to h xs p" "linked_to h' ys b = linked_to h ys b"
    using dist by (intro linked_to_cong; auto simp: h'_def)+
  ultimately have l: "linked_to h' (xs @ p # ys) b" by (auto simp: linked_to_append h'_def)
  have "below h' p y" if "y \<in> set ys" for y using s(4) that q(1) up by (auto simp: below_def)
  moreover have "below h' x y" if "x \<noteq> p" "below h x y" for x y using that u [of x] by (simp add: below_def)
  moreover have "x \<noteq> p" if "x \<in> set xs" for x using dist that by auto
  moreover have "sorted_wrt (below h') xs = sorted_wrt (below h) xs" "sorted_wrt (below h') ys = sorted_wrt (below h) ys"
    by (rule sorted_below_cong; rule u; use dist in fastforce)+
  ultimately have st: "sorted_wrt (below h') (xs @ p # ys)" using s by (auto simp: sorted_wrt_append)
  have hd: "hd (xs @ p # ys) = b" using d(2) by (cases xs) auto
  have br: "a + 8 * usize h' a \<le> brk h" if "a \<in> set (xs @ p # ys)" for a
    using d(5) [of a] d(5) [of q] that q(1) up u [of a] by (cases "a = p") auto
  have ps: "0 < usize h' a" if "a \<in> set (xs @ p # ys)" "a \<noteq> b" for a
    using d(7) [of a] that up u [of a] by (cases "a = p") auto
  have "brk h' = brk h" "freep h' = freep h" by (simp_all add: h'_def)
  then show "free_ok b h' (xs @ p # ys)"
    using l st hd br ps d(6,8-10) u [of b] q(2) fp unfolding free_ok_def by auto
  have "block h' p = block h p \<union> block h q" using q(1) up by (auto simp: block_def)
  moreover have "region h' xs = region h xs" "region h' ys = region h ys" 
    by (rule region_cong; rule u; use dist in fastforce)+
  ultimately show "region h' (xs @ p # ys) = region h (xs @ p # q # ys)" by (auto simp: region_split)
qed

text \<open>What \<open>free\<close> does.\<close>

lemma ufree_spec:
  assumes ok: "free_ok b h L" and bp: "b < bp" "bp + 8 * usize h bp \<le> brk h" "0 < usize h bp" "block h bp \<inter> region h L = {}"
  shows "\<exists>h' L'. ufree (bp + 8) h = Some h' \<and> free_ok b h' L' \<and> region h' L' = region h L \<union> block h bp \<and> brk h' = brk h
    \<and> (\<forall>a. a \<notin> region h L \<union> block h bp \<longrightarrow> usize h' a = usize h a) \<and> (\<exists>x \<in> set L'. usize h bp \<le> usize h' x)"
proof -
  note d = free_okD [OF ok] and n = free_ok_nth [OF ok]
  have nb: "bp \<notin> set L"
  proof
    assume "bp \<in> set L"
    then have "block h bp \<subseteq> region h L" by (auto simp: region_def)
    moreover have "bp \<in> block h bp" using bp(3) by (simp add: block_def)
    ultimately show False using bp(4) by blast
  qed
  obtain t where t: "t < length L" "\<And>i. i \<le> t \<Longrightarrow> L ! i < bp" "\<And>i. t < i \<Longrightarrow> i < length L \<Longrightarrow> bp < L ! i"
    using place_exists [OF ok bp(1) nb] by blast
  define xs p ys where "xs = take t L" and "p = L ! t" and "ys = drop (Suc t) L"
  have L: "L = xs @ p # ys" unfolding xs_def p_def ys_def using id_take_nth_drop [OF t(1)] .
  have fp: "free_place h bp (freep h) = Some p" unfolding p_def using free_place_run [OF ok t d(8)] by simp
  have lo: "below h x bp" if x: "x \<in> set (xs @ [p])" for x
  proof -
    have "x \<in> set L" using x L by auto
    have "x \<in> set (take (Suc t) L)" using x unfolding xs_def p_def using take_Suc_conv_app_nth [OF t(1)] by simp
    then obtain i where "x = L ! i" "i \<le> t" by (auto simp: in_set_conv_nth)
    then have "x < bp" using t(2) by simp
    moreover have bb: "bp \<notin> block h x"
    proof -
      have "bp \<in> block h bp" using bp(3) by (simp add: block_def)
      then show ?thesis using bp(4) \<open>x \<in> set L\<close> by (auto simp: region_def)
    qed
    ultimately show ?thesis by (simp add: below_def block_def)
  qed
  have hi: "below h bp y" if y: "y \<in> set ys" for y
  proof -
    have "y \<in> set L" using y L by auto
    obtain i where "y = L ! i" "t < i" "i < length L" using y unfolding ys_def by (auto simp: in_set_conv_nth)
    then have lt: "bp < y" using t(3) by simp
    then have "y \<in> block h y" using d(7) [OF \<open>y \<in> set L\<close>] bp(1) by (simp add: block_def)
    then have "y \<notin> block h bp" using bp(4) \<open>y \<in> set L\<close> by (auto simp: region_def)
    then show ?thesis using lt by (simp add: below_def block_def)
  qed
  define h1 where "h1 = h\<lparr>ptr := (ptr h)(bp := ptr h p, p := bp), freep := p\<rparr>"
  note ins = link_insert [OF ok [unfolded L] _ _ bp(3,2), folded h1_def]
  have i1: "free_ok b h1 (xs @ p # bp # ys)" "region h1 (xs @ p # bp # ys) = region h L \<union> block h bp"
    using ins lo hi unfolding L by simp_all
  have pb: "p \<noteq> bp" "p < bp" using lo [of p] by (auto simp: below_def)
  have nx: "ptr h p = (if ys = [] then b else hd ys)" using d(3) by (simp add: L linked_to_append)
  define h2 where "h2 = (link_up bp p h)\<lparr>ptr := (ptr (link_up bp p h))(p := bp), freep := p\<rparr>"
  have "\<exists>zs. free_ok b h2 (xs @ p # bp # zs) \<and> region h2 (xs @ p # bp # zs) = region h L \<union> block h bp"
  proof (cases "bp + 8 * usize h bp = ptr h p")
    case False
    then have "h2 = h1" using pb by (simp add: h2_def h1_def link_up_def fun_upd_twist)
    then show ?thesis using i1 by blast
  next
    case True
    then have "ys \<noteq> []" using nx bp(1) by auto
    then obtain q zs where ys: "ys = q # zs" by (cases ys) auto
    have q: "ptr h p = q" "bp < q" using nx hi [of q] by (simp_all add: ys below_def)
    have "h2 = h1\<lparr>usize := (usize h1)(bp := usize h1 bp + usize h1 q), ptr := (ptr h1)(bp := ptr h1 q)\<rparr>"
      using True q pb by (auto simp: h2_def h1_def link_up_def fun_eq_iff)
    moreover have "bp + 8 * usize h1 bp = q" "bp \<noteq> b" "freep h1 \<noteq> q" using True q bp(1) pb by (auto simp: h1_def)
    ultimately have "free_ok b h2 ((xs @ [p]) @ bp # zs)" "region h2 ((xs @ [p]) @ bp # zs) = region h1 ((xs @ [p]) @ bp # q # zs)"
      using link_merge [of b h1 "xs @ [p]" bp q zs] i1(1) by (simp_all add: ys)
    then show ?thesis using i1(2) by (auto simp: ys)
  qed
  then obtain zs where z: "free_ok b h2 (xs @ p # bp # zs)" "region h2 (xs @ p # bp # zs) = region h L \<union> block h bp" by blast
  define h3 where "h3 = (link_down bp p (link_up bp p h))\<lparr>freep := p\<rparr>"
  have u2: "usize h bp \<le> usize h2 bp" by (simp add: h2_def link_up_def)
  have "\<exists>L'. free_ok b h3 L' \<and> region h3 L' = region h L \<union> block h bp \<and> (\<exists>x \<in> set L'. usize h bp \<le> usize h3 x)"
  proof (cases "p + 8 * usize h p = bp")
    case False
    then have "p + 8 * usize (link_up bp p h) p \<noteq> bp" using pb by (simp add: link_up_def)
    then have "h3 = h2" by (simp add: h3_def h2_def link_down_def)
    then show ?thesis using z u2 by (intro exI [of _ "xs @ p # bp # zs"]) auto
  next
    case True
    have us: "usize (link_up bp p h) p = usize h p" using pb by (simp add: link_up_def)
    have "p \<noteq> b" using True pb d(6) by auto
    have h3: "h3 = h2\<lparr>usize := (usize h2)(p := usize h2 p + usize h2 bp), ptr := (ptr h2)(p := ptr h2 bp)\<rparr>"
      using True us pb by (simp add: h3_def h2_def link_down_def)
    then have "h3 = h2\<lparr>usize := (usize h2)(p := usize h2 p + usize h2 bp), ptr := (ptr h2)(p := ptr h2 bp)\<rparr>" .
    moreover have "p + 8 * usize h2 p = bp" "freep h2 \<noteq> bp" using True us pb by (auto simp: h2_def)
    ultimately have "free_ok b h3 (xs @ p # zs)" "region h3 (xs @ p # zs) = region h L \<union> block h bp"
      using link_merge [OF z(1) _ \<open>p \<noteq> b\<close>] z(2) by auto
    then show ?thesis using u2 h3 by (intro exI [of _ "xs @ p # zs"]) auto
  qed
  moreover have "ufree (bp + 8) h = Some h3" using fp by (simp add: ufree_def h3_def)
  moreover have "brk h3 = brk h" by (simp add: h3_def link_down_def link_up_def)
  moreover have "usize h3 a = usize h a" if "a \<notin> region h L \<union> block h bp" for a
  proof -
    have "a \<noteq> bp" using that bp(3) by (auto simp: block_def)
    moreover have "a \<noteq> p" if "p + 8 * usize h p = bp"
    proof
      assume "a = p"
      moreover have "p \<in> block h p" using that pb by (simp add: block_def)
      ultimately show False using \<open>a \<notin> region h L \<union> block h bp\<close> by (auto simp: L region_split)
    qed
    ultimately show ?thesis using pb by (auto simp: h3_def link_down_def link_up_def)
  qed
  ultimately show ?thesis by blast
qed

text \<open>What \<open>malloc\<close> does with a block that is large enough.\<close>

lemma region_disjoint:
  assumes "sorted_wrt (below h) (xs @ p # ys)"
  shows "block h p \<inter> region h xs = {}" "block h p \<inter> region h ys = {}"
proof -
  have "below h x p" if "x \<in> set xs" for x using assms that by (simp add: sorted_wrt_append)
  then show "block h p \<inter> region h xs = {}" by (fastforce simp: block_def region_def below_def)
  have "below h p y" if "y \<in> set ys" for y using assms that by (simp add: sorted_wrt_append)
  then show "block h p \<inter> region h ys = {}" by (fastforce simp: block_def region_def below_def)
qed

lemma take_exact:
  assumes ok: "free_ok b h (xs @ q # p # ys)"
  defines "h' \<equiv> h\<lparr>ptr := (ptr h)(q := ptr h p), freep := q\<rparr>"
  shows "free_ok b h' (xs @ q # ys)" "region h' (xs @ q # ys) = region h (xs @ q # p # ys) - block h p"
proof -
  note d = free_okD [OF ok]
  have dist: "distinct (xs @ q # p # ys)" using free_ok_nth(5) [OF ok] .
  have "linked_to h xs q" "ptr h p = (if ys = [] then b else hd ys)" "linked_to h ys b" using d(3) by (simp_all add: linked_to_append)
  moreover have "linked_to h' xs q = linked_to h xs q" "linked_to h' ys b = linked_to h ys b"
    using dist by (intro linked_to_cong; auto simp: h'_def)+
  ultimately have l: "linked_to h' (xs @ q # ys) b" by (auto simp: linked_to_append h'_def)
  have "hd (xs @ q # ys) = b" using d(2) by (cases xs) auto
  moreover have "sorted_wrt (below h) (xs @ q # ys)" using d(4) by (auto simp: sorted_wrt_append)
  then have "sorted_wrt (below h') (xs @ q # ys)" by (subst sorted_below_cong [of _ h' h]) (simp_all add: h'_def)
  moreover have "usize h' = usize h" "brk h' = brk h" "freep h' = q" by (simp_all add: h'_def)
  ultimately show "free_ok b h' (xs @ q # ys)" using l d unfolding free_ok_def by auto
  have "block h p \<inter> region h (xs @ [q]) = {}" "block h p \<inter> region h ys = {}"
    using region_disjoint [of h "xs @ [q]" p ys] d(4) by simp_all
  then show "region h' (xs @ q # ys) = region h (xs @ q # p # ys) - block h p"
    using region_cong [of "xs @ q # ys" h' h] by (auto simp: h'_def region_split)
qed

lemma take_tail:
  assumes ok: "free_ok b h (xs @ q # p # ys)" and n: "0 < n" "n < usize h p"
  defines "a \<equiv> p + 8 * (usize h p - n)"
  defines "h' \<equiv> h\<lparr>usize := (usize h)(p := usize h p - n, a := n), freep := q\<rparr>"
  shows "free_ok b h' (xs @ q # p # ys)" "region h' (xs @ q # p # ys) = region h (xs @ q # p # ys) - block h' a"
    "block h' a \<subseteq> block h p"
proof -
  note d = free_okD [OF ok]
  let ?L = "xs @ q # p # ys"
  have dist: "distinct ?L" using free_ok_nth(5) [OF ok] .
  have ap: "a \<in> block h p" "p < a" using n by (auto simp: a_def block_def)
  have ends: "a + 8 * n = p + 8 * usize h p" using n(2) by (simp add: a_def)
  have s: "below h x p" if "x \<in> set (xs @ [q])" for x using d(4) that by (auto simp: sorted_wrt_append)
  have s': "below h p y" if "y \<in> set ys" for y using d(4) that by (auto simp: sorted_wrt_append)
  have na: "a \<notin> set ?L"
  proof
    assume "a \<in> set ?L"
    then have "a \<in> set (xs @ [q]) \<or> a \<in> set ys" using ap(2) by auto
    then show False using s [of a] s' [of a] ap by (auto simp: below_def block_def)
  qed
  have u: "usize h' x = usize h x" if "x \<in> set ?L" "x \<noteq> p" for x using that na by (auto simp: h'_def)
  have up: "usize h' p = usize h p - n" "usize h' a = n" using ap by (simp_all add: h'_def)
  have le: "usize h' x \<le> usize h x" if "x \<in> set ?L" for x using u [OF that] up by (cases "x = p") auto
  have "below h' x y" if "x \<in> set ?L" "below h x y" for x y using le [OF that(1)] that(2) by (simp add: below_def)
  then have "sorted_wrt (below h') ?L" by (rule sorted_wrt_mono_rel [OF _ d(4)])
  moreover have "linked_to h' ?L b" using d(3) by (subst linked_to_cong [of _ h' h]) (simp_all add: h'_def)
  moreover have "x + 8 * usize h' x \<le> brk h" if "x \<in> set ?L" for x using d(5) [OF that] le [OF that] by simp
  moreover have "0 < usize h' x" if "x \<in> set ?L" "x \<noteq> b" for x using d(7) [OF that] u [OF that(1)] up n by (cases "x = p") auto
  moreover have "usize h' b = 0" using d(6) le [of b] d(1,2) by (metis hd_in_set le_zero_eq)
  moreover have "brk h' = brk h" "freep h' = q" by (simp_all add: h'_def)
  ultimately show "free_ok b h' ?L" using d unfolding free_ok_def by auto
  have ba: "block h' a = {a..<p + 8 * usize h p}" using up ends by (simp add: block_def)
  show "block h' a \<subseteq> block h p" using ba ap by (auto simp: block_def)
  have "block h' p = {p..<a}" using up(1) by (simp add: block_def a_def)
  moreover have "block h p - block h' a = {p..<a}" unfolding ba using ap by (auto simp: block_def)
  ultimately have "block h' p = block h p - block h' a" by simp
  moreover have "region h' (xs @ [q]) = region h (xs @ [q])" "region h' ys = region h ys"
    by (rule region_cong; rule u; use dist in fastforce)+
  moreover have "block h p \<inter> region h (xs @ [q]) = {}" "block h p \<inter> region h ys = {}"
    using region_disjoint [of h "xs @ [q]" p ys] d(4) by simp_all
  ultimately show "region h' ?L = region h ?L - block h' a" using \<open>block h' a \<subseteq> block h p\<close> by (auto simp: region_split)
qed

definition granted :: "nat \<Rightarrow> uheap \<Rightarrow> nat list \<Rightarrow> nat \<Rightarrow> nat \<Rightarrow> uheap \<Rightarrow> bool" where
  "granted b h L n r h' \<longleftrightarrow> (\<exists>L' a. r = a + 8 \<and> free_ok b h' L' \<and> n = usize h' a \<and> brk h' = brk h \<and> block h' a \<subseteq> region h L
     \<and> region h' L' = region h L - block h' a \<and> (\<forall>x. x \<notin> region h L \<longrightarrow> usize h' x = usize h x))"

lemma take_block_spec:
  assumes ok: "free_ok b h (xs @ q # p # ys)" and n: "0 < n" "n \<le> usize h p"
  obtains r h' where "take_block n q p h = (r, h')" "granted b h (xs @ q # p # ys) n r h'"
proof (cases "usize h p = n")
  case True
  let ?h' = "h\<lparr>ptr := (ptr h)(q := ptr h p), freep := q\<rparr>"
  have "take_block n q p h = (p + 8, ?h')" using True by (simp add: take_block_def)
  moreover have "block ?h' p = block h p" by (simp add: block_def)
  then have "granted b h (xs @ q # p # ys) n (p + 8) ?h'" using take_exact [OF ok] True unfolding granted_def
    by (intro exI [of _ "xs @ q # ys"] exI [of _ p]) (auto simp: region_split)
  ultimately show ?thesis using that by blast
next
  case False
  then have lt: "n < usize h p" using n by simp
  let ?a = "p + 8 * (usize h p - n)"
  let ?h' = "h\<lparr>usize := (usize h)(p := usize h p - n, ?a := n), freep := q\<rparr>"
  note tt = take_tail [OF ok n(1) lt]
  have "take_block n q p h = (?a + 8, ?h')" using False by (simp add: take_block_def Let_def)
  moreover have "usize ?h' x = usize h x" if "x \<notin> region h (xs @ q # p # ys)" for x
  proof -
    have "p \<in> block h p" "?a \<in> block h p" using lt n by (auto simp: block_def)
    then have "x \<noteq> p" "x \<noteq> ?a" using that by (auto simp: region_split)
    then show ?thesis by simp
  qed
  then have "granted b h (xs @ q # p # ys) n (?a + 8) ?h'" using tt unfolding granted_def
    by (intro exI [of _ "xs @ q # p # ys"] exI [of _ ?a]) (auto simp: region_split)
  ultimately show ?thesis using that by blast
qed

text \<open>The search of \<open>malloc\<close>, from the index \<open>m\<close>: it takes a block that is large enough, or comes to \<open>freep\<close> and has seen none.\<close>

definition ahead :: "nat \<Rightarrow> nat \<Rightarrow> nat \<Rightarrow> nat" where
  "ahead len f m = (if m \<le> f then f - m else f + len - m)"

definition core_step :: "(nat \<Rightarrow> int \<Rightarrow> bool) \<Rightarrow> nat \<Rightarrow> uheap \<Rightarrow> (nat \<times> uheap) option" where
  "core_step grant n h = Option.bind (morecore grant n h) (\<lambda>r.
     if fst r = 0 then Some (0, snd r) else malloc_loop grant n (fst r) (ptr (snd r) (fst r)) (snd r))"

lemma malloc_loop_scan:
  assumes ok: "free_ok b h L" and f: "f < length L" "L ! f = freep h" and n: "0 < n"
    and m: "i < length L" "m = (if Suc i < length L then Suc i else 0)"
  shows "(\<exists>r h'. malloc_loop grant n (L ! i) (L ! m) h = Some (r, h') \<and> granted b h L n r h')
    \<or> malloc_loop grant n (L ! i) (L ! m) h = core_step grant n h
      \<and> (\<forall>k < length L. ahead (length L) f k \<le> ahead (length L) f m \<longrightarrow> usize h (L ! k) < n)"
  using m
proof (induction "ahead (length L) f m" arbitrary: i m rule: less_induct)
  case less
  note nn = free_ok_nth [OF ok] and d = free_okD [OF ok]
  have ml: "m < length L" using less.prems by auto
  show ?case
  proof (cases "n \<le> usize h (L ! m)")
    case True
    have "m \<noteq> 0"
    proof
      assume "m = 0"
      then show False using True n nn(2) d(6) by simp
    qed
    then have m: "m = Suc i" "Suc i < length L" using less.prems by (auto split: if_splits)
    have "L = take i L @ L ! i # L ! Suc i # drop (Suc (Suc i)) L"
      using id_take_nth_drop [OF less.prems(1)] Cons_nth_drop_Suc [OF m(2)] by simp
    then obtain r h' where "take_block n (L ! i) (L ! Suc i) h = (r, h')" "granted b h L n r h'"
      using take_block_spec [of b h "take i L" "L ! i" "L ! Suc i" "drop (Suc (Suc i)) L" n] ok n True m(1) by metis
    then show ?thesis using True m(1) by (subst malloc_loop.simps) simp
  next
    case no: False
    show ?thesis
    proof (cases "m = f")
      case True
      then have "malloc_loop grant n (L ! i) (L ! m) h = core_step grant n h"
        using no f(2) by (subst malloc_loop.simps) (simp add: core_step_def)
      moreover have "k = m" if "k < length L" "ahead (length L) f k \<le> ahead (length L) f m" for k
        using that True by (auto simp: ahead_def split: if_splits)
      ultimately show ?thesis using no by (metis not_le)
    next
      case False
      let ?m = "if Suc m < length L then Suc m else 0"
      have lt: "ahead (length L) f m = Suc (ahead (length L) f ?m)" using False ml f(1) by (auto simp: ahead_def)
      have nf: "L ! m \<noteq> freep h" using f(2) nth_eq_iff_index_eq [OF nn(5) ml f(1)] False by simp
      have pt: "ptr h (L ! m) = L ! ?m" using nn(1) [OF ml] nn(2) by simp
      have st: "malloc_loop grant n (L ! i) (L ! m) h = malloc_loop grant n (L ! m) (L ! ?m) h"
        using no nf pt by (subst malloc_loop.simps) simp
      have "k = m \<or> ahead (length L) f k \<le> ahead (length L) f ?m" if "k < length L" "ahead (length L) f k \<le> ahead (length L) f m" for k
      proof (cases "ahead (length L) f k = ahead (length L) f m")
        case True
        then show ?thesis using that(1) ml f(1) by (auto simp: ahead_def split: if_splits)
      next
        case False
        then show ?thesis using that(2) lt by simp
      qed
      then show ?thesis using less.hyps [of ?m m] lt ml st no by (metis lessI not_le)
    qed
  qed
qed

lemma malloc_search:
  assumes ok: "free_ok b h L" and n: "0 < n"
  shows "(\<exists>r h'. malloc_loop grant n (freep h) (ptr h (freep h)) h = Some (r, h') \<and> granted b h L n r h')
    \<or> malloc_loop grant n (freep h) (ptr h (freep h)) h = core_step grant n h \<and> (\<forall>x \<in> set L. usize h x < n)"
proof -
  obtain f where f: "f < length L" "L ! f = freep h" using free_okD(8) [OF ok] by (metis in_set_conv_nth)
  let ?m = "if Suc f < length L then Suc f else 0"
  have "ptr h (freep h) = L ! ?m" using free_ok_nth(1) [OF ok f(1)] free_ok_nth(2) [OF ok] f(2) by simp
  moreover have "ahead (length L) f k \<le> ahead (length L) f ?m" if "k < length L" for k using that f(1) by (auto simp: ahead_def)
  ultimately show ?thesis using malloc_loop_scan [OF ok f n f(1) refl, of grant] f(2) by (metis in_set_conv_nth)
qed

lemma morecore_spec:
  assumes ok: "free_ok b h L" and nu: "nu * 8 < 2 ^ 31"
  defines "k \<equiv> 8 * max 4096 nu"
  shows "if grant (brk h) (int k)
    then \<exists>h' L'. morecore grant nu h = Some (freep h', h') \<and> freep h' \<noteq> 0 \<and> free_ok b h' L' \<and> brk h' = brk h + k
      \<and> region h' L' = region h L \<union> {brk h..<brk h'} \<and> (\<forall>x. x \<notin> region h L \<union> {brk h..<brk h'} \<longrightarrow> usize h' x = usize h x)
      \<and> (\<exists>x \<in> set L'. nu \<le> usize h' x)
    else morecore grant nu h = Some (0, h)"
proof -
  note d = free_okD [OF ok]
  let ?nu = "max 4096 nu"
  let ?h = "h\<lparr>brk := brk h + k, usize := (usize h)(brk h := ?nu)\<rparr>"
  have s: "s32 (int (?nu * 8)) = int k" using nu unfolding k_def by (subst s32_id) (auto simp: max_def)
  have mx: "(if nu < 4096 then 4096 else nu) = ?nu" by auto
  have mc: "morecore grant nu h = (if \<not> grant (brk h) (int k) then Some (0, h)
      else case ufree (brk h + 8) ?h of None \<Rightarrow> None | Some h \<Rightarrow> Some (freep h, h))"
    unfolding morecore_def Let_def mx s by (simp add: nat_add_distrib)
  show ?thesis
  proof (cases "grant (brk h) (int k)")
    case True
    have lt: "x < brk h" if "x \<in> set L" for x using d(5,7) [OF that] d(10) by (cases "x = b") auto
    then have u: "usize ?h x = usize h x" if "x \<in> set L" for x using that by auto
    have "linked_to ?h L b" using d(3) by (subst linked_to_cong [of _ ?h h]) simp_all
    moreover have "sorted_wrt (below ?h) L" using d(4) u by (subst sorted_below_cong [of _ ?h h]) simp_all
    moreover have "x + 8 * usize ?h x \<le> brk ?h" "x \<noteq> b \<Longrightarrow> 0 < usize ?h x" if "x \<in> set L" for x
      using d(5,7) [OF that] u [OF that] by simp_all
    ultimately have ok': "free_ok b ?h L" using d unfolding free_ok_def by auto
    have bl: "block ?h (brk h) = {brk h..<brk h + k}" by (simp add: block_def k_def)
    have rg: "region ?h L = region h L" using u by (rule region_cong)
    have "x < brk h" if "x \<in> region h L" for x using d(5) that by (fastforce simp: region_def block_def)
    then have dj: "block ?h (brk h) \<inter> region ?h L = {}" unfolding bl rg by fastforce
    obtain h' L' where h': "ufree (brk h + 8) ?h = Some h'" "free_ok b h' L'" "region h' L' = region h L \<union> {brk h..<brk h + k}"
      "brk h' = brk h + k" "\<forall>a. a \<notin> region h L \<union> {brk h..<brk h + k} \<longrightarrow> usize h' a = usize ?h a" "\<exists>x \<in> set L'. ?nu \<le> usize h' x"
    proof -
      have "0 < usize ?h (brk h)" "brk h + 8 * usize ?h (brk h) \<le> brk ?h" "usize ?h (brk h) = ?nu" "brk ?h = brk h + k"
        by (simp_all add: k_def max_def)
      then show ?thesis using ufree_spec [OF ok' d(10) _ _ dj] that unfolding bl rg by metis
    qed
    have "usize h' x = usize h x" if "x \<notin> region h L \<union> {brk h..<brk h + k}" for x
    proof -
      have "x \<noteq> brk h" using that by (auto simp: k_def)
      then show ?thesis using h'(5) that by simp
    qed
    moreover have "freep h' \<noteq> 0" using free_okD(8,9) [OF h'(2)] free_ok_nth(4) [OF h'(2)] by (metis in_set_conv_nth le_zero_eq less_irrefl)
    moreover have "\<exists>x \<in> set L'. nu \<le> usize h' x" using h'(6) by auto
    ultimately show ?thesis using True mc h'(1-4) by auto
  next
    case False
    then show ?thesis using mc by simp
  qed
qed

text \<open>What \<open>malloc\<close> does on a list in order.\<close>

definition malloced :: "nat \<Rightarrow> uheap \<Rightarrow> nat list \<Rightarrow> nat \<Rightarrow> nat \<Rightarrow> uheap \<Rightarrow> nat list \<Rightarrow> bool" where
  "malloced b h L n r h' L' \<longleftrightarrow> (let F = region h L \<union> {brk h..<brk h'} in
     8 \<le> r \<and> free_ok b h' L' \<and> brk h \<le> brk h' \<and> n + 8 \<le> 8 * usize h' (r - 8) \<and> block h' (r - 8) \<subseteq> F
     \<and> region h' L' = F - block h' (r - 8) \<and> (\<forall>x. x \<notin> F \<longrightarrow> usize h' x = usize h x))"

lemma malloc_spec:
  assumes ok: "free_ok b h L" and nb: "nbytes + 16 < 2 ^ 31"
  defines "k \<equiv> 8 * max 4096 ((nbytes + 7) div 8 + 1)"
  shows "malloc grant b nbytes h = Some (0, h) \<and> \<not> grant (brk h) (int k)
    \<or> (\<exists>r h' L'. malloc grant b nbytes h = Some (r, h') \<and> malloced b h L nbytes r h' L')"
proof -
  define n where "n = (nbytes + 7) div 8 + 1"
  have n: "0 < n" "n * 8 < 2 ^ 31" "nbytes + 8 \<le> 8 * n" using nb by (simp_all add: n_def)
  have "n32 (7 + nbytes) = nbytes + 7" using nb by (simp add: n32_def)
  moreover have "freep h \<noteq> 0"
    using free_okD(8,9) [OF ok] free_ok_nth(4) [OF ok] by (metis in_set_conv_nth le_zero_eq less_irrefl)
  ultimately have m: "malloc grant b nbytes h = malloc_loop grant n (freep h) (ptr h (freep h)) h"
    by (simp add: malloc_def Let_def n_def)
  have g: "\<exists>L'. malloced b h0 L0 nbytes r h' L'" if "granted b h1 L1 n r h'" "brk h0 \<le> brk h1"
      "region h1 L1 = region h0 L0 \<union> {brk h0..<brk h1}" "\<forall>x. x \<notin> region h1 L1 \<longrightarrow> usize h1 x = usize h0 x" for h0 L0 h1 L1 r h'
    using that n(3) unfolding granted_def malloced_def Let_def by fastforce
  from malloc_search [OF ok n(1), of grant] show ?thesis
  proof (elim disjE exE conjE)
    fix r h' assume "malloc_loop grant n (freep h) (ptr h (freep h)) h = Some (r, h')" "granted b h L n r h'"
    then show ?thesis using m g [of h L r h' h L] by auto
  next
    assume c: "malloc_loop grant n (freep h) (ptr h (freep h)) h = core_step grant n h"
    note mc = morecore_spec [OF ok n(2), of grant, folded k_def [folded n_def]]
    show ?thesis
    proof (cases "grant (brk h) (int k)")
      case False
      then show ?thesis using mc m c by (simp add: core_step_def)
    next
      case True
      then obtain h' L' where h': "morecore grant n h = Some (freep h', h')" "freep h' \<noteq> 0" "free_ok b h' L'" "brk h' = brk h + k"
        "region h' L' = region h L \<union> {brk h..<brk h'}" "\<forall>x. x \<notin> region h L \<union> {brk h..<brk h'} \<longrightarrow> usize h' x = usize h x"
        "\<exists>x \<in> set L'. n \<le> usize h' x" using mc unfolding if_P [OF True] by blast
      have "core_step grant n h = malloc_loop grant n (freep h') (ptr h' (freep h')) h'" using h'(1,2) by (simp add: core_step_def)
      moreover obtain r h2 where "malloc_loop grant n (freep h') (ptr h' (freep h')) h' = Some (r, h2)" "granted b h' L' n r h2"
        using malloc_search [OF h'(3) n(1), of grant] h'(7) by (meson not_le)
      ultimately show ?thesis using m c g [of h' L' r h2 h L] h'(4-6) by auto
    qed
  qed
qed

section \<open>Clients\<close>

text \<open>
  A client of the library that frees only what it holds, once, and writes only inside what it holds. \<open>s\<close> is the end of the data segment
  at the start, above \<open>base\<close>; \<open>A\<close> the blocks it holds, each with the size it asked for. A write may change every header that
  overlaps the bytes written.
\<close>

inductive client :: "nat \<Rightarrow> nat \<Rightarrow> uheap \<Rightarrow> (nat \<times> nat) set \<Rightarrow> bool" for b s where
  start: "0 < b \<Longrightarrow> b + 8 \<le> s \<Longrightarrow> freep h = 0 \<Longrightarrow> brk h = s \<Longrightarrow> client b s h {}"
| null: "client b s h A \<Longrightarrow> n + 16 < 2 ^ 31 \<Longrightarrow> malloc grant b n h = Some (0, h') \<Longrightarrow> client b s h' A"
| alloc: "client b s h A \<Longrightarrow> n + 16 < 2 ^ 31 \<Longrightarrow> malloc grant b n h = Some (r, h') \<Longrightarrow> r \<noteq> 0 \<Longrightarrow> client b s h' (insert (r, n) A)"
| release: "client b s h A \<Longrightarrow> (r, n) \<in> A \<Longrightarrow> ufree r h = Some h' \<Longrightarrow> client b s h' (A - {(r, n)})"
| store: "client b s h A \<Longrightarrow> freep h' = freep h \<Longrightarrow> brk h' = brk h
    \<Longrightarrow> (\<And>x. (\<forall>(r, n) \<in> A. {x..<x + 8} \<inter> {r..<r + n} = {}) \<Longrightarrow> ptr h' x = ptr h x \<and> usize h' x = usize h x) \<Longrightarrow> client b s h' A"

definition held :: "uheap \<Rightarrow> (nat \<times> nat) set \<Rightarrow> nat set" where
  "held h A = (\<Union>a \<in> A. block h (fst a - 8))"

text \<open>Free and held blocks tile the heap.\<close>

definition tiles :: "nat \<Rightarrow> uheap \<Rightarrow> nat list \<Rightarrow> (nat \<times> nat) set \<Rightarrow> bool" where
  "tiles s h L A \<longleftrightarrow> s \<le> brk h \<and> region h L \<union> held h A = {s..<brk h} \<and> region h L \<inter> held h A = {}
     \<and> (\<forall>a \<in> A. 8 \<le> fst a \<and> snd a + 8 \<le> 8 * usize h (fst a - 8))
     \<and> (\<forall>a \<in> A. \<forall>a' \<in> A. a \<noteq> a' \<longrightarrow> block h (fst a - 8) \<inter> block h (fst a' - 8) = {})"

definition heap_ok :: "nat \<Rightarrow> nat \<Rightarrow> uheap \<Rightarrow> (nat \<times> nat) set \<Rightarrow> bool" where
  "heap_ok b s h A \<longleftrightarrow> 0 < b \<and> b + 8 \<le> s
     \<and> (if freep h = 0 then A = {} \<and> brk h = s else \<exists>L. free_ok b h L \<and> tiles s h L A)"

lemma tilesD:
  assumes "tiles s h L A" "a \<in> A"
  shows "block h (fst a - 8) \<subseteq> {s..<brk h}" "block h (fst a - 8) \<inter> region h L = {}" "8 \<le> fst a"
    "snd a + 8 \<le> 8 * usize h (fst a - 8)" "fst a - 8 \<in> block h (fst a - 8)" "{fst a..<fst a + snd a} \<subseteq> block h (fst a - 8)"
    "s + 8 \<le> fst a" "fst a + snd a \<le> brk h" "a' \<in> A \<Longrightarrow> a \<noteq> a' \<Longrightarrow> block h (fst a - 8) \<inter> block h (fst a' - 8) = {}"
proof -
  have t: "region h L \<union> held h A = {s..<brk h}" "region h L \<inter> held h A = {}" and u: "8 \<le> fst a" "snd a + 8 \<le> 8 * usize h (fst a - 8)"
    and dj: "a' \<in> A \<Longrightarrow> a \<noteq> a' \<Longrightarrow> block h (fst a - 8) \<inter> block h (fst a' - 8) = {}" for a'
    using assms unfolding tiles_def by blast+
  have "block h (fst a - 8) \<subseteq> held h A" using assms(2) by (auto simp: held_def)
  then show sub: "block h (fst a - 8) \<subseteq> {s..<brk h}" and "block h (fst a - 8) \<inter> region h L = {}" using t by blast+
  show "8 \<le> fst a" "snd a + 8 \<le> 8 * usize h (fst a - 8)" by fact+
  show i: "fst a - 8 \<in> block h (fst a - 8)" and "{fst a..<fst a + snd a} \<subseteq> block h (fst a - 8)" using u by (auto simp: block_def)
  show "s + 8 \<le> fst a" using i sub u(1) by fastforce
  have "fst a + snd a - 1 \<in> block h (fst a - 8)" using u by (auto simp: block_def)
  then have "fst a + snd a - 1 < brk h" using sub by fastforce
  then show "fst a + snd a \<le> brk h" by simp
  show "a' \<in> A \<Longrightarrow> a \<noteq> a' \<Longrightarrow> block h (fst a - 8) \<inter> block h (fst a' - 8) = {}" by (rule dj)
qed

lemma tiles_sizes:
  assumes "\<And>a. a \<in> A \<Longrightarrow> usize h' (fst a - 8) = usize h (fst a - 8)"
  shows "held h' A = held h A" "a \<in> A \<Longrightarrow> block h' (fst a - 8) = block h (fst a - 8)"
  using assms by (auto simp: held_def block_def)

lemma tiles_alloc:
  assumes t: "tiles s h L A" and m: "malloced b h L n r h' L'"
  shows "tiles s h' L' (insert (r, n) A)"
proof -
  let ?F = "region h L \<union> {brk h..<brk h'}"
  have m': "8 \<le> r" "brk h \<le> brk h'" "n + 8 \<le> 8 * usize h' (r - 8)" "block h' (r - 8) \<subseteq> ?F" "region h' L' = ?F - block h' (r - 8)"
    "\<And>x. x \<notin> ?F \<Longrightarrow> usize h' x = usize h x" using m unfolding malloced_def Let_def by blast+
  have out: "block h (fst a - 8) \<inter> ?F = {}" if "a \<in> A" for a using tilesD(1,2) [OF t that] by fastforce
  have u: "usize h' (fst a - 8) = usize h (fst a - 8)" if "a \<in> A" for a using m'(6) out [OF that] tilesD(5) [OF t that] by blast
  have sz: "held h' A = held h A" "a \<in> A \<Longrightarrow> block h' (fst a - 8) = block h (fst a - 8)" for a using tiles_sizes [of A h' h] u by blast+
  have hd: "held h' (insert (r, n) A) = block h' (r - 8) \<union> held h A" using sz(1) by (auto simp: held_def)
  have hF: "held h A \<inter> ?F = {}" using out by (auto simp: held_def)
  have "region h L \<union> held h A = {s..<brk h}" "s \<le> brk h" using t unfolding tiles_def by blast+
  moreover from this have "{s..<brk h} \<union> {brk h..<brk h'} = {s..<brk h'}" using m'(2) by (intro ivl_disj_un_two(3)) simp_all
  ultimately have "?F \<union> held h A = {s..<brk h'}" by blast
  then have "region h' L' \<union> held h' (insert (r, n) A) = {s..<brk h'}" unfolding hd m'(5) using m'(4) by blast
  moreover have "region h' L' \<inter> held h' (insert (r, n) A) = {}" unfolding hd m'(5) using hF by blast
  moreover have "s \<le> brk h'" using \<open>s \<le> brk h\<close> m'(2) by simp
  moreover have nw: "block h' (r - 8) \<inter> block h' (fst a - 8) = {}" if "a \<in> A" for a using out [OF that] sz(2) [OF that] m'(4) by blast
  moreover have "block h' (fst a - 8) \<inter> block h' (fst a' - 8) = {}" if aa: "a \<in> insert (r, n) A" "a' \<in> insert (r, n) A" "a \<noteq> a'" for a a'
  proof -
    consider "a = (r, n)" "a' \<in> A" | "a' = (r, n)" "a \<in> A" | "a \<in> A" "a' \<in> A" using aa by blast
    then show ?thesis
    proof cases
      case 3
      then show ?thesis using tilesD(9) [OF t 3 aa(3)] sz(2) [OF 3(1)] sz(2) [OF 3(2)] by metis
    qed (use nw in fastforce)+
  qed
  moreover have "8 \<le> fst a \<and> snd a + 8 \<le> 8 * usize h' (fst a - 8)" if "a \<in> insert (r, n) A" for a
  proof (cases "a = (r, n)")
    case False
    then have "a \<in> A" using that by simp
    then show ?thesis using tilesD(3,4) [OF t, of a] u [of a] by simp
  qed (use m'(1,3) in simp)
  ultimately show ?thesis unfolding tiles_def by blast
qed

lemma tiles_release:
  assumes t: "tiles s h L A" and a: "a \<in> A" and r: "region h' L' = region h L \<union> block h (fst a - 8)" "brk h' = brk h"
    and u: "\<And>x. x \<notin> region h L \<union> block h (fst a - 8) \<Longrightarrow> usize h' x = usize h x"
  shows "tiles s h' L' (A - {a})"
proof -
  have out: "block h (fst a' - 8) \<inter> (region h L \<union> block h (fst a - 8)) = {}" if "a' \<in> A - {a}" for a'
    using tilesD(2) [OF t, of a'] tilesD(9) [OF t _ a, of a'] that by blast
  have us: "usize h' (fst a' - 8) = usize h (fst a' - 8)" if "a' \<in> A - {a}" for a'
    using u [of "fst a' - 8"] out [OF that] tilesD(5) [OF t, of a'] that by blast
  have sz: "held h' (A - {a}) = held h (A - {a})" "x \<in> A - {a} \<Longrightarrow> block h' (fst x - 8) = block h (fst x - 8)" for x
    using tiles_sizes [of "A - {a}" h' h] us by blast+
  have "held h A = block h (fst a - 8) \<union> held h (A - {a})" using a by (auto simp: held_def)
  then have "region h' L' \<union> held h' (A - {a}) = region h L \<union> held h A" unfolding sz(1) r(1) by (simp add: Un_assoc)
  moreover have "region h L \<union> held h A = {s..<brk h}" using t unfolding tiles_def by blast
  ultimately have "region h' L' \<union> held h' (A - {a}) = {s..<brk h}" by simp
  moreover have "region h' L' \<inter> held h' (A - {a}) = {}" 
  proof -
    have "held h (A - {a}) \<inter> (region h L \<union> block h (fst a - 8)) = {}" unfolding held_def using out by blast
    then show ?thesis unfolding sz(1) r(1) by blast
  qed
  moreover have "block h' (fst x - 8) \<inter> block h' (fst y - 8) = {}" if "x \<in> A - {a}" "y \<in> A - {a}" "x \<noteq> y" for x y
  proof -
    have "x \<in> A" "y \<in> A" using that by simp_all
    then show ?thesis using tilesD(9) [OF t _ _ that(3)] sz(2) [OF that(1)] sz(2) [OF that(2)] by metis
  qed
  moreover have "8 \<le> fst x \<and> snd x + 8 \<le> 8 * usize h' (fst x - 8)" if "x \<in> A - {a}" for x
    using tilesD(3,4) [OF t, of x] us [OF that] that by simp
  moreover have "s \<le> brk h" using t by (simp add: tiles_def)
  ultimately show ?thesis unfolding tiles_def r(2) by blast
qed

lemma tiles_store:
  assumes ok: "free_ok b h L" and t: "tiles s h L A" and b: "b + 8 \<le> s" and same: "freep h' = freep h" "brk h' = brk h"
    and w: "\<And>x. (\<forall>a \<in> A. {x..<x + 8} \<inter> {fst a..<fst a + snd a} = {}) \<Longrightarrow> ptr h' x = ptr h x \<and> usize h' x = usize h x"
  shows "free_ok b h' L" "tiles s h' L A"
proof -
  note d = free_okD [OF ok]
  have base: "{b..<b + 8} \<inter> {fst a..<fst a + snd a} = {}" if "a \<in> A" for a using tilesD(7) [OF t that] b by auto
  have free: "{x..<x + 8} \<inter> {fst a..<fst a + snd a} = {}" if "x \<in> set L" "x \<noteq> b" "a \<in> A" for x a
  proof -
    have "0 < usize h x" using d(7) that by blast
    then have "{x..<x + 8} \<subseteq> block h x" by (auto simp: block_def)
    moreover have "block h x \<subseteq> region h L" using that(1) by (auto simp: region_def)
    ultimately show ?thesis using tilesD(2,6) [OF t that(3)] by blast
  qed
  have L: "ptr h' x = ptr h x" "usize h' x = usize h x" if "x \<in> set L" for x
    using w [of x] base free [OF that] by (cases "x = b"; simp)+
  have bL: "b \<in> set L" using d(1,2) by auto
  have live: "usize h' (fst a - 8) = usize h (fst a - 8)" if "a \<in> A" for a
  proof -
    have h8: "{fst a - 8..<fst a - 8 + 8} \<subseteq> block h (fst a - 8)" using tilesD(4) [OF t that] by (auto simp: block_def)
    have "{fst a - 8..<fst a - 8 + 8} \<inter> {fst a'..<fst a' + snd a'} = {}" if a': "a' \<in> A" for a'
    proof (cases "a' = a")
      case True
      then show ?thesis using tilesD(3) [OF t \<open>a \<in> A\<close>] by auto
    next
      case False
      then show ?thesis using tilesD(9) [OF t \<open>a \<in> A\<close> a'] tilesD(6) [OF t a'] h8 by blast
    qed
    then show ?thesis using w by blast
  qed
  have "linked_to h' L b" using d(3) L(1) by (subst linked_to_cong [of _ h' h])
  moreover have "sorted_wrt (below h') L" using d(4) L(2) by (subst sorted_below_cong [of _ h' h])
  ultimately show "free_ok b h' L" using d same L(2) bL unfolding free_ok_def by auto
  have sz: "held h' A = held h A" "a \<in> A \<Longrightarrow> block h' (fst a - 8) = block h (fst a - 8)" for a
    using tiles_sizes [of A h' h] live by blast+
  have "region h' L = region h L" using L(2) by (rule region_cong)
  then show "tiles s h' L A" using t sz live unfolding tiles_def same(2) by simp
qed

lemma heap_start:
  assumes "heap_ok b s h A"
  obtains h0 L where "free_ok b h0 L" "tiles s h0 L A" "freep h0 \<noteq> 0" "brk h0 = brk h" "malloc grant b n h = malloc grant b n h0"
    "freep h \<noteq> 0 \<Longrightarrow> h0 = h"
proof (cases "freep h = 0")
  case True
  let ?h = "h\<lparr>ptr := (ptr h)(b := b), freep := b, usize := (usize h)(b := 0)\<rparr>"
  have ok: "0 < b" "b + 8 \<le> s" "A = {}" "brk h = s" using assms True by (simp_all add: heap_ok_def)
  have "free_ok b ?h [b]" using ok by (simp add: free_ok_def)
  moreover have "tiles s ?h [b] A" using ok by (simp add: tiles_def region_def held_def block_def)
  moreover have "malloc grant b n h = malloc grant b n ?h" using ok(1) True by (simp add: malloc_def)
  ultimately show ?thesis using that [of ?h "[b]"] ok(1) True by simp
next
  case False
  then show ?thesis using assms that by (auto simp: heap_ok_def)
qed

lemma free_ok_freep: "free_ok b h L \<Longrightarrow> freep h \<noteq> 0"
  using free_okD(8,9) free_ok_nth(4) by (metis in_set_conv_nth le_zero_eq less_irrefl)

lemma heap_ok_malloc:
  assumes ok: "heap_ok b s h A" and n: "n + 16 < 2 ^ 31"
  obtains (null) h' where "malloc grant b n h = Some (0, h')" "heap_ok b s h' A" "\<not> grant (brk h) (int (8 * max 4096 ((n + 7) div 8 + 1)))"
  | (block) r h' where "malloc grant b n h = Some (r, h')" "r \<noteq> 0" "heap_ok b s h' (insert (r, n) A)"
proof -
  have b: "0 < b" "b + 8 \<le> s" using ok by (simp_all add: heap_ok_def)
  obtain h0 L where h0: "free_ok b h0 L" "tiles s h0 L A" "freep h0 \<noteq> 0" "brk h0 = brk h" "malloc grant b n h = malloc grant b n h0"
    using heap_start [OF ok] by metis
  from malloc_spec [OF h0(1) n, of grant] show ?thesis
  proof (elim disjE conjE exE)
    assume "malloc grant b n h0 = Some (0, h0)" "\<not> grant (brk h0) (int (8 * max 4096 ((n + 7) div 8 + 1)))"
    moreover have "heap_ok b s h0 A" using h0(1-3) b by (auto simp: heap_ok_def)
    ultimately show ?thesis using null h0(4,5) by simp
  next
    fix r h' L' assume m: "malloc grant b n h0 = Some (r, h')" "malloced b h0 L n r h' L'"
    then have "free_ok b h' L'" "8 \<le> r" by (simp_all add: malloced_def Let_def)
    moreover from this have "heap_ok b s h' (insert (r, n) A)"
      using tiles_alloc [OF h0(2) m(2)] b free_ok_freep by (auto simp: heap_ok_def)
    ultimately show ?thesis using block m(1) h0(5) by simp
  qed
qed

lemma heap_ok_free:
  assumes ok: "heap_ok b s h A" and a: "(r, n) \<in> A"
  obtains h' where "ufree r h = Some h'" "heap_ok b s h' (A - {(r, n)})"
proof -
  obtain L where L: "free_ok b h L" "tiles s h L A" and b: "0 < b" "b + 8 \<le> s" using ok a by (auto simp: heap_ok_def split: if_splits)
  note t = tilesD [OF L(2) a, simplified]
  have bp: "b < r - 8" "0 < usize h (r - 8)" using t(4,7) b by simp_all
  then have "r - 8 + 8 * usize h (r - 8) - 1 \<in> block h (r - 8)" by (auto simp: block_def)
  then have "r - 8 + 8 * usize h (r - 8) - 1 < brk h" using t(1) by fastforce
  then have "r - 8 + 8 * usize h (r - 8) \<le> brk h" by simp
  then obtain h' L' where h': "ufree (r - 8 + 8) h = Some h'" "free_ok b h' L'" "region h' L' = region h L \<union> block h (r - 8)" "brk h' = brk h"
      "\<forall>x. x \<notin> region h L \<union> block h (r - 8) \<longrightarrow> usize h' x = usize h x"
    using ufree_spec [OF L(1) bp(1) _ bp(2) t(2)] by metis
  then have "tiles s h' L' (A - {(r, n)})" by (intro tiles_release [OF L(2) a]) simp_all
  then show ?thesis using that [of h'] h'(1,2) t(3) b free_ok_freep by (auto simp: heap_ok_def)
qed

lemma client_ok: "client b s h A \<Longrightarrow> heap_ok b s h A"
proof (induction rule: client.induct)
  case (start h)
  then show ?case by (simp add: heap_ok_def)
next
  case (null h A n grant h')
  from heap_ok_malloc [OF null.IH null.hyps(2), of grant] show ?case using null.hyps(3) by cases simp_all
next
  case (alloc h A n grant r h')
  from heap_ok_malloc [OF alloc.IH alloc.hyps(2), of grant] show ?case using alloc.hyps(3,4) by cases simp_all
next
  case (release h A r n h')
  then show ?case using heap_ok_free [OF release.IH release.hyps(2)] by auto
next
  case (store h A h')
  show ?case
  proof (cases "freep h = 0")
    case True
    then show ?thesis using store by (simp add: heap_ok_def)
  next
    case False
    then obtain L where L: "free_ok b h L" "tiles s h L A" and b: "0 < b" "b + 8 \<le> s" using store.IH by (auto simp: heap_ok_def)
    have "ptr h' x = ptr h x \<and> usize h' x = usize h x" if "\<forall>a \<in> A. {x..<x + 8} \<inter> {fst a..<fst a + snd a} = {}" for x
      using store.hyps(4) [of x] that by (simp add: case_prod_unfold)
    then show ?thesis using tiles_store [OF L b(2) store.hyps(2,3)] False b store.hyps(2) by (auto simp: heap_ok_def)
  qed
qed

text \<open>C10: a program that frees only what \<open>malloc\<close> gave it, once, and writes only inside it can never break the allocator, whatever the order
  of its calls: the blocks it holds lie above \<open>base\<close> and inside the data segment, have the size it asked for and do not overlap; \<open>malloc\<close> always
  returns, with a null pointer only when the kernel refuses to extend the segment; \<open>free\<close> always returns; and the free list
  stays an ordered list of blocks that, with the held ones, make up all the memory got from the kernel: none is lost.\<close>

theorem umalloc_safe:
  assumes "client b s h A"
  shows "(\<forall>(r, n) \<in> A. b + 16 \<le> r \<and> r + n \<le> brk h)
    \<and> (\<forall>(r, n) \<in> A. \<forall>(r', n') \<in> A. (r, n) \<noteq> (r', n') \<longrightarrow> r \<noteq> r' \<and> {r..<r + n} \<inter> {r'..<r' + n'} = {})
    \<and> (\<forall>grant n. n + 16 < 2 ^ 31 \<longrightarrow> (\<exists>r h'. malloc grant b n h = Some (r, h')
        \<and> (r = 0 \<longrightarrow> \<not> grant (brk h) (int (8 * max 4096 ((n + 7) div 8 + 1))))))
    \<and> (\<forall>(r, n) \<in> A. \<exists>h'. ufree r h = Some h')
    \<and> (freep h \<noteq> 0 \<longrightarrow> (\<exists>L. free_ok b h L \<and> region h L \<inter> held h A = {} \<and> region h L \<union> held h A = {s..<brk h}))"
proof (intro conjI)
  have ok: "heap_ok b s h A" using client_ok [OF assms] .
  then have b: "b + 8 \<le> s" by (simp add: heap_ok_def)
  have t: "\<exists>L. free_ok b h L \<and> tiles s h L A" if "freep h \<noteq> 0" using ok that by (simp add: heap_ok_def)
  have ne: "freep h \<noteq> 0" if "a \<in> A" for a using ok that by (auto simp: heap_ok_def split: if_splits)
  show "\<forall>(r, n) \<in> A. b + 16 \<le> r \<and> r + n \<le> brk h" using t ne b tilesD(7,8) by fastforce
  have "r \<noteq> r' \<and> {r..<r + n} \<inter> {r'..<r' + n'} = {}" if a: "(r, n) \<in> A" "(r', n') \<in> A" "(r, n) \<noteq> (r', n')" for r n r' n'
  proof -
    obtain L where L: "tiles s h L A" using t ne [OF a(1)] by blast
    have dj: "block h (r - 8) \<inter> block h (r' - 8) = {}" using tilesD(9) [OF L a] by simp
    then have "r \<noteq> r'" using tilesD(5) [OF L a(1)] by auto
    moreover have "{r..<r + n} \<inter> {r'..<r' + n'} = {}" using dj tilesD(6) [OF L a(1), simplified] tilesD(6) [OF L a(2), simplified] by blast
    ultimately show ?thesis by simp
  qed
  then show "\<forall>(r, n) \<in> A. \<forall>(r', n') \<in> A. (r, n) \<noteq> (r', n') \<longrightarrow> r \<noteq> r' \<and> {r..<r + n} \<inter> {r'..<r' + n'} = {}" by blast
  show "\<forall>grant n. n + 16 < 2 ^ 31 \<longrightarrow> (\<exists>r h'. malloc grant b n h = Some (r, h')
      \<and> (r = 0 \<longrightarrow> \<not> grant (brk h) (int (8 * max 4096 ((n + 7) div 8 + 1)))))" using heap_ok_malloc [OF ok] by metis
  show "\<forall>(r, n) \<in> A. \<exists>h'. ufree r h = Some h'" using heap_ok_free [OF ok] by blast
  show "freep h \<noteq> 0 \<longrightarrow> (\<exists>L. free_ok b h L \<and> region h L \<inter> held h A = {} \<and> region h L \<union> held h A = {s..<brk h})"
    using t unfolding tiles_def by blast
qed

theorem umalloc_safe_witness:
  "\<exists>h. client 8 16 h {(32680, 100)} \<and> 24 \<le> (32680 :: nat) \<and> 32780 \<le> brk h \<and> (\<exists>h'. ufree 32680 h = Some h')"
proof -
  let ?h = "\<lparr>ptr = \<lambda>_. 0, usize = \<lambda>_. 0, freep = 0, brk = 16\<rparr>"
  have "map_option fst (malloc (\<lambda>_ _. True) 8 100 ?h) = Some 32680"
    by (simp add: malloc_def malloc_loop.simps [of _ 14] free_place.simps [of _ 16 8] ufree_def link_up_def link_down_def morecore_def
      take_block_def s32_def n32_def)
  then obtain h where m: "malloc (\<lambda>_ _. True) 8 100 ?h = Some (32680, h)" by auto
  have c: "client 8 16 h {(32680, 100)}" using client.alloc [OF client.start [of 8 16 ?h] _ m] by simp
  show ?thesis using umalloc_safe [OF c] c by (intro exI [of _ h]) auto
qed

end
