(* ===== verification/Spec2Isabelle.thy ===== *)
theory Spec2Isabelle
  imports Rand Lock_Refine Lock_Balance Kernel_Types Syscall_Safety Accounting Paths Grep Sh Umalloc
begin

text \<open>
  A model of the xv6 kernel with a lottery scheduler and a priority scheduler, and the theorems that make
  its components correct. All file names below are those of the C sources under src/.

  \<^bold>\<open>How a kernel call is modelled.\<close> A call is a function from the state to an outcome
  (\<open>Prelude\<close>): a normal return with a value and the new state, a panic, a fault (processor exception or
  access that C leaves undefined), a loop that never ends, or \<open>Block\<close>, which says that the process gave up
  the CPU in the given state. Calls are composed by \<open>bindk\<close>, \<open>thenk\<close>, \<open>whenk\<close> and \<open>eachk\<close> in the order of
  the C statements. A loop that sleeps is split: the definition with the name of the C function runs up to
  the sleep, and the definition with the suffix \<open>_resume\<close> continues when the process is picked again. Locks
  seen from one kernel thread are the list of locks it holds (\<open>Kernel_Base\<close>); \<open>Lock_Refine\<close> proves that the
  detailed model of spinlock.c on several CPUs (\<open>Spinlock\<close>) implements them.

  \<^bold>\<open>State.\<close> The state is a record that each component extends: \<open>kbase\<close> (process table, ticks, current
  process; proc.c, trap.c), \<open>ksched\<close> (scheduler, generator), \<open>kkmem\<close> (memory and free list; kalloc.c),
  \<open>kslk\<close> (sleep-locks), \<open>kbio\<close> (buffers and disk; bio.c, memide.c), \<open>klog\<close> (log.c), \<open>kfs\<close> (superblock and
  inode cache; fs.c), \<open>kcons\<close> (console.c, uart.c, kbd.c), \<open>kfile\<close> (file table and pipes; file.c, pipe.c).
  Operations are typed on the record schemes, so that lower operations apply to every later state.
  Pointers into tables are indices, kernel virtual addresses are natural numbers with 0 for null.

  \<^bold>\<open>Theories.\<close>
  \<^item> \<open>Prelude\<close>, \<open>Params\<close>, \<open>Digits\<close>: outcomes, C integers, constants, address macros, number text.
  \<^item> \<open>Rand\<close> (rand.c): the generator is MT19937, \<open>random_at_most\<close> is uniform and in range.
  \<^item> \<open>Spinlock\<close>, \<open>Lock_Refine\<close> (spinlock.c): mutual exclusion, nesting of interrupt disabling, refinement,
    and the deadlock of opposite lock orders.
  \<^item> \<open>Kernel_Base\<close>, \<open>Proc_Table\<close>, \<open>Scheduler\<close>, \<open>Proc_Life\<close> (proc.c): the table and its accounting, both
    schedulers round by round, creation and end of processes.
  \<^item> \<open>Memory\<close> (string.c), \<open>Kalloc\<close> (kalloc.c), \<open>Vm\<close> (vm.c), \<open>Umem\<close> (kernel accesses to user memory),
    \<open>Exec\<close> (exec.c): memory, page allocator, page tables, loading of programs.
  \<^item> \<open>Sleeplock\<close>, \<open>Bio\<close>, \<open>Block_Cache\<close> (sleeplock.c, bio.c, memide.c): the buffer cache and the interface its
    clients use, a locale whose laws bio.c is proved to satisfy.
  \<^item> \<open>Disk_Layout\<close> (fs.h), \<open>Log\<close> (log.c), \<open>Inode\<close>, \<open>Fs\<close> (fs.c): disk formats, crash atomicity of
    transactions, inodes, files, directories and paths; \<open>Paths\<close> shows how a path is taken apart.
  \<^item> \<open>Kbd\<close>, \<open>Console\<close> (kbd.c, console.c, uart.c), \<open>Pipe\<close>, \<open>File\<close> (pipe.c, file.c): devices and open files;
    \<open>Ring\<close> is the locale of the ring buffers with free-running counters that they use, and \<open>Line_Discipline\<close> the abstract line editor that the console implements.
  \<^item> \<open>Sysargs\<close>, \<open>Sysproc\<close>, \<open>Sysfile\<close>, \<open>Trap\<close> (syscall.c, sysproc.c, sysfile.c, trap.c): system calls and
    traps; \<open>Syscall_Safety\<close> on the arguments and numbers a process may pass, \<open>Accounting\<close> on the timer ticks of a
    time slice, \<open>Lock_Balance\<close> on the locks held over a whole trap, \<open>Kernel_Types\<close> on the types of
    the state (table sizes, indices, integer ranges) over every sequence of traps, scheduler turns and resumed operations.
  \<^item> \<open>Umalloc\<close> (umalloc.c), \<open>Sh\<close> (sh.c), \<open>Grep\<close> (grep.c): user code with an algorithm of its own. The allocator is safe for
    every client that respects its interface, the parser of the shell reads back every printed command, the matcher
    of grep decides the language of the pattern. They do not run on the kernel model: \<open>sbrk\<close> and \<open>read\<close> are parameters.

  \<^bold>\<open>Bounds.\<close> \<open>mappages\<close> has \<open>2 ^ 20\<close> passes, the number of pages of the address space, which is enough
  for any range. The list walk of the buffer cache is a partial function whose \<open>None\<close> is a cycle that avoids
  the head; \<open>Bio\<close> proves that it never occurs. The rejection loop of \<open>random_at_most\<close> runs on the generator's
  own sequence. The search loops of the user allocator are partial functions, shown to return. The parser of the shell starts with
  fuel \<open>4 * n + 4\<close> for a line of \<open>n\<close> bytes: four procedures call each other before a byte is consumed. \<open>int\<close> values are kept in range by \<open>s32\<close>, \<open>uint\<close> values by \<open>n32\<close> or as 32-bit words.

  \<^bold>\<open>Not modelled.\<close> Assembly and boot code, segment descriptors, the IDE controller (the memory disk of
  memide.c is used), multiprocessor tables, the interrupt controllers, the part of the shell that runs
  commands, and the other user programs, which only make system calls. Diagnostic
  output of \<open>cprintf\<close> in vm.c and \<open>iinit\<close> is left out, since the console comes later in the state. What a
  process does between a sleep inside a nested call and its return is given by the \<open>_resume\<close> definition
  of the operation that slept, not by one for each caller.
\<close>

end
